(* ===== verification/Sw_Prelude.thy ===== *)
theory Sw_Prelude
  imports Main "HOL-Library.Word" "HOL-Library.Monad_Syntax"
begin

text \<open>
  Shared vocabulary of the development: the return codes of \<open>include/swoole.h\<close>, machine
  integers, addresses, and generic lemmas on lists that several components use.

  Conventions. A C address is a natural number and \<open>NULL\<close> is 0. An object reached through
  pointers lives in a store, a function or a finite map from addresses to records. The
  system allocator is not part of the sources: an operation that calls \<open>sw_malloc\<close> or
  \<open>sw_realloc\<close> takes the allocator's answer as an argument (\<open>None\<close> when it fails).
\<close>

section \<open>Return codes, machine integers, addresses\<close>

type_synonym ptr = nat
type_synonym u8 = "8 word"
type_synonym u16 = "16 word"
type_synonym u32 = "32 word"
type_synonym u64 = "64 word"
type_synonym bytes = "8 word list"

abbreviation (input) NULL :: ptr where
  "NULL \<equiv> 0"

text \<open>\<open>SW_OK\<close> and \<open>SW_ERR\<close>, the return codes of almost every function of the library.\<close>

definition SW_OK :: int where
  "SW_OK = 0"

definition SW_ERR :: int where
  "SW_ERR = - 1"

lemma SW_OK_neq_SW_ERR [simp]: "SW_OK \<noteq> SW_ERR" "SW_ERR \<noteq> SW_OK"
  by (simp_all add: SW_OK_def SW_ERR_def)

named_theorems sw_defs \<open>unfolding rules of the loop-free operations\<close>
named_theorems sw_frame \<open>fields an operation leaves alone\<close>
named_theorems sw_inv \<open>invariant preservation\<close>

section \<open>Swapping two cells of an array\<close>

text \<open>
  The sifting loops of the heap carry the moving element aside and write a hole; each
  iteration is a swap of the array in which the hole is filled. The two lemmas say that a
  swap keeps the set of cells and their distinctness.
\<close>

definition nth_swap :: "'a list \<Rightarrow> nat \<Rightarrow> nat \<Rightarrow> 'a list" where
  "nth_swap xs i j = xs[i := xs ! j, j := xs ! i]"

lemma length_nth_swap [simp]: "length (nth_swap xs i j) = length xs"
  by (simp add: nth_swap_def)

lemma nth_nth_swap:
  assumes "i < length xs" "j < length xs"
  shows "nth_swap xs i j ! k = (if k = j then xs ! i else if k = i then xs ! j else xs ! k)"
  using assms by (auto simp: nth_swap_def nth_list_update)

lemma image_nth_swap:
  assumes "i \<in> A" "j \<in> A" "i < length xs" "j < length xs"
  shows "(!) (nth_swap xs i j) ` A = (!) xs ` A"
proof
  show "(!) (nth_swap xs i j) ` A \<subseteq> (!) xs ` A"
    using assms by (auto simp: nth_nth_swap)
  show "(!) xs ` A \<subseteq> (!) (nth_swap xs i j) ` A"
  proof
    fix y assume "y \<in> (!) xs ` A"
    then obtain k where "k \<in> A" "y = xs ! k" by auto
    moreover define l where "l = (if k = i then j else if k = j then i else k)"
    ultimately have "l \<in> A" "y = nth_swap xs i j ! l"
      using assms by (auto simp: nth_nth_swap)
    then show "y \<in> (!) (nth_swap xs i j) ` A" by auto
  qed
qed

lemma inj_on_nth_swap:
  assumes "inj_on ((!) xs) A" "i \<in> A" "j \<in> A" "i < length xs" "j < length xs"
  shows "inj_on ((!) (nth_swap xs i j)) A"
  using assms by (auto simp: inj_on_def nth_nth_swap)

lemma hole_move:
  assumes "i \<noteq> j" "i < length xs" "j < length xs"
  shows "xs[i := xs ! j, j := m] = nth_swap (xs[i := m]) i j"
  using assms by (simp add: nth_swap_def)

section \<open>Reading a buffer\<close>

text \<open>A byte of a buffer and a run of bytes; \<open>None\<close> is a read outside it.\<close>

definition byte_at :: "'a list \<Rightarrow> nat \<Rightarrow> 'a option" where
  "byte_at xs i = (if i < length xs then Some (xs ! i) else None)"

fun bytes_at :: "'a list \<Rightarrow> nat list \<Rightarrow> 'a list option" where
  "bytes_at xs [] = Some []"
| "bytes_at xs (i # is) = do { b \<leftarrow> byte_at xs i; bs \<leftarrow> bytes_at xs is; Some (b # bs) }"

definition slice_at :: "'a list \<Rightarrow> nat \<Rightarrow> nat \<Rightarrow> 'a list option" where
  "slice_at xs i n = (if i + n \<le> length xs then Some (take n (drop i xs)) else None)"

lemma byte_at_in [simp]: "i < length xs \<Longrightarrow> byte_at xs i = Some (xs ! i)"
  by (simp add: byte_at_def)

lemma byte_at_out [simp]: "length xs \<le> i \<Longrightarrow> byte_at xs i = None"
  by (simp add: byte_at_def)

lemma slice_at_in [simp]: "i + n \<le> length xs \<Longrightarrow> slice_at xs i n = Some (take n (drop i xs))"
  by (simp add: slice_at_def)

lemma slice_at_out [simp]: "length xs < i + n \<Longrightarrow> slice_at xs i n = None"
  by (simp add: slice_at_def)

lemma bytes_at_bounded: "(\<And>i. i \<in> set is \<Longrightarrow> i < length xs) \<Longrightarrow> bytes_at xs is = Some (map ((!) xs) is)"
  by (induction "is") simp_all

text \<open>\<open>occurs ndl xs i\<close>: the bytes \<open>ndl\<close> stand at index \<open>i\<close> of \<open>xs\<close>.\<close>

definition occurs :: "'a list \<Rightarrow> 'a list \<Rightarrow> nat \<Rightarrow> bool" where
  "occurs ndl xs i \<longleftrightarrow> i + length ndl \<le> length xs \<and> take (length ndl) (drop i xs) = ndl"

lemma occurs_first: "occurs ndl xs i \<Longrightarrow> ndl \<noteq> [] \<Longrightarrow> i < length xs \<and> xs ! i = ndl ! 0"
proof -
  assume a: "occurs ndl xs i" "ndl \<noteq> []"
  then have i: "i < length xs" by (cases ndl) (auto simp: occurs_def)
  then have "drop i xs = xs ! i # drop (Suc i) xs" by (simp add: Cons_nth_drop_Suc)
  with a i show ?thesis by (cases ndl) (auto simp: occurs_def)
qed

section \<open>Writing a buffer\<close>

text \<open>\<open>memcpy\<close> into a buffer; \<open>None\<close> when it leaves the buffer. \<open>calloc_bytes\<close> is a zeroed block,
  \<open>realloc_bytes\<close> keeps the old contents, the new bytes are those \<open>fill\<close> happens to find.\<close>

definition put_at :: "'a list \<Rightarrow> nat \<Rightarrow> 'a list \<Rightarrow> 'a list option" where
  "put_at xs i d = (if i + length d \<le> length xs then Some (take i xs @ d @ drop (i + length d) xs) else None)"

definition calloc_bytes :: "nat \<Rightarrow> bytes" where
  "calloc_bytes n = replicate n 0"

definition realloc_bytes :: "(nat \<Rightarrow> u8) \<Rightarrow> nat \<Rightarrow> bytes \<Rightarrow> bytes" where
  "realloc_bytes fill n xs = map (\<lambda>i. if i < length xs then xs ! i else fill i) [0..<n]"

lemma put_at_in: "i + length d \<le> length xs \<Longrightarrow> put_at xs i d = Some (take i xs @ d @ drop (i + length d) xs)"
  by (simp add: put_at_def)

lemma length_put_at: "put_at xs i d = Some ys \<Longrightarrow> length ys = length xs"
  by (auto simp: put_at_def split: if_splits)

lemma nth_put_at:
  "put_at xs i d = Some ys \<Longrightarrow> k < length xs \<Longrightarrow> ys ! k = (if i \<le> k \<and> k < i + length d then d ! (k - i) else xs ! k)"
  by (auto simp: put_at_def nth_append min_def split: if_splits)

lemma slice_put_same: "put_at xs i d = Some ys \<Longrightarrow> slice_at ys i (length d) = Some d"
  by (auto simp: put_at_def slice_at_def split: if_splits)

lemma slice_nth: "j + n \<le> length xs \<Longrightarrow> slice_at xs j n = Some (map (\<lambda>k. xs ! (j + k)) [0..<n])"
  by (auto simp: slice_at_def intro!: nth_equalityI)

lemma slice_put_other:
  assumes "put_at xs i d = Some ys" "j + n \<le> i \<or> i + length d \<le> j"
  shows "slice_at ys j n = slice_at xs j n"
proof (cases "j + n \<le> length xs")
  case True
  then show ?thesis using assms length_put_at [OF assms(1)]
    by (auto simp: slice_nth nth_put_at [OF assms(1)] simp del: slice_at_in)
qed (use length_put_at [OF assms(1)] in \<open>simp add: slice_at_def\<close>)

lemma length_realloc_bytes [simp]: "length (realloc_bytes fill n xs) = n"
  by (simp add: realloc_bytes_def)

lemma take_realloc_bytes: "k \<le> n \<Longrightarrow> k \<le> length xs \<Longrightarrow> take k (realloc_bytes fill n xs) = take k xs"
  by (rule nth_equalityI) (auto simp: realloc_bytes_def)

lemma length_calloc_bytes [simp]: "length (calloc_bytes n) = n"
  by (simp add: calloc_bytes_def)

section \<open>Small words\<close>

lemma unat_u32: "i < 2 ^ 32 \<Longrightarrow> unat (of_nat i :: u32) = i"
  by (simp add: unat_of_nat)

lemma unat_u16: "i < 2 ^ 16 \<Longrightarrow> unat (of_nat i :: u16) = i"
  by (simp add: unat_of_nat)

lemma unat_u8: "i < 2 ^ 8 \<Longrightarrow> unat (of_nat i :: u8) = i"
  by (simp add: unat_of_nat)

lemma unat_u64: "i < 2 ^ 64 \<Longrightarrow> unat (of_nat i :: u64) = i"
  by (simp add: unat_of_nat)

section \<open>Integers as bytes\<close>

text \<open>The bytes of an unsigned number, least significant first, and the number they stand for; network
  byte order is the reverse.\<close>

primrec le_bytes :: "nat \<Rightarrow> nat \<Rightarrow> bytes" where
  "le_bytes 0 n = []"
| "le_bytes (Suc k) n = of_nat n # le_bytes k (n div 256)"

primrec le_value :: "bytes \<Rightarrow> nat" where
  "le_value [] = 0"
| "le_value (b # bs) = unat b + 256 * le_value bs"

definition be_bytes :: "nat \<Rightarrow> nat \<Rightarrow> bytes" where
  "be_bytes k n = rev (le_bytes k n)"

definition be_value :: "bytes \<Rightarrow> nat" where
  "be_value bs = le_value (rev bs)"

lemma length_le_bytes [simp]: "length (le_bytes k n) = k"
  by (induction k arbitrary: n) simp_all

lemma length_be_bytes [simp]: "length (be_bytes k n) = k"
  by (simp add: be_bytes_def)

lemma le_value_bytes_mod: "le_value (le_bytes k n) = n mod 256 ^ k"
proof (induction k arbitrary: n)
  case (Suc k)
  have "n mod 256 + 256 * (n div 256 mod 256 ^ k) = n mod (256 * 256 ^ k)" by (metis add.commute mod_mult2_eq)
  with Suc show ?case by (simp add: unat_of_nat)
qed simp

lemma le_value_bytes: "n < 256 ^ k \<Longrightarrow> le_value (le_bytes k n) = n"
  by (simp add: le_value_bytes_mod)

lemma be_value_bytes: "n < 256 ^ k \<Longrightarrow> be_value (be_bytes k n) = n"
  by (simp add: be_value_def be_bytes_def le_value_bytes)

lemma unat_u8_less [simp]: "unat (b :: u8) < 256"
  using unsigned_less [of b] by simp

lemma le_value_less: "le_value bs < 256 ^ length bs"
proof (induction bs)
  case (Cons b bs)
  have "unat b + 256 * le_value bs < 256 + 256 * le_value bs" by simp
  also have "\<dots> = 256 * (le_value bs + 1)" by simp
  also have "\<dots> \<le> 256 * 256 ^ length bs" using Cons.IH by (intro mult_le_mono2) simp
  finally show ?case by simp
qed simp

lemma be_value_less: "be_value bs < 256 ^ length bs"
  using le_value_less [of "rev bs"] by (simp add: be_value_def)

lemma le_bytes_value: "le_bytes (length bs) (le_value bs) = bs"
proof -
  have "(256 :: u8) = 0" by simp
  then have "(256 :: u8) * x = 0" for x by (metis mult_zero_left)
  then show ?thesis by (induction bs) simp_all
qed

lemma be_bytes_value: "be_bytes (length bs) (be_value bs) = bs"
  using le_bytes_value [of "rev bs"] by (simp add: be_bytes_def be_value_def)

lemma bit_small: "unat x < 2 ^ k \<Longrightarrow> bit x n \<Longrightarrow> n < k" for x :: "'a::len word"
proof -
  assume a: "unat x < 2 ^ k" "bit x n"
  then have "take_bit k x = x" by (simp add: word_unat_eq_iff unsigned_take_bit_eq take_bit_nat_eq_self)
  with a(2) show ?thesis by (metis bit_take_bit_iff)
qed

end
