(* ===== verification/Sw_Interfaces.thy ===== *)
theory Sw_Interfaces
  imports Sw_Prelude
begin

text \<open>
  The contracts between components, one locale each: the operations the client calls and the
  laws it relies on. The provider's theory interprets the locale on its own definitions, and
  the lemmas a client needs are proved once here.
\<close>

section \<open>Priority queue (the heap under the timers)\<close>

text \<open>\<open>live\<close> are the handles in the queue, \<open>key\<close> and \<open>item\<close> what a handle carries. \<open>top\<close> is a
  handle with the least key.\<close>

locale prio_queue =
  fixes inv :: "'q \<Rightarrow> bool"
    and live :: "'q \<Rightarrow> 'h set"
    and key :: "'q \<Rightarrow> 'h \<Rightarrow> 'k::linorder"
    and item :: "'q \<Rightarrow> 'h \<Rightarrow> 'd"
    and top :: "'q \<Rightarrow> 'h option"
    and pop :: "'q \<Rightarrow> 'q"
    and change :: "'q \<Rightarrow> 'k \<Rightarrow> 'h \<Rightarrow> 'q"
    and del :: "'q \<Rightarrow> 'h \<Rightarrow> 'q"
  assumes live_finite: "inv q \<Longrightarrow> finite (live q)"
    and top_None: "inv q \<Longrightarrow> top q = None \<longleftrightarrow> live q = {}"
    and top_live: "inv q \<Longrightarrow> top q = Some h \<Longrightarrow> h \<in> live q"
    and top_least: "inv q \<Longrightarrow> top q = Some h \<Longrightarrow> g \<in> live q \<Longrightarrow> key q h \<le> key q g"
    and pop_inv: "inv q \<Longrightarrow> top q = Some h \<Longrightarrow> inv (pop q)"
    and pop_live: "inv q \<Longrightarrow> top q = Some h \<Longrightarrow> live (pop q) = live q - {h}"
    and pop_key: "inv q \<Longrightarrow> top q = Some h \<Longrightarrow> key (pop q) g = key q g"
    and pop_item: "inv q \<Longrightarrow> top q = Some h \<Longrightarrow> item (pop q) g = item q g"
    and change_inv: "inv q \<Longrightarrow> h \<in> live q \<Longrightarrow> inv (change q k h)"
    and change_live: "inv q \<Longrightarrow> h \<in> live q \<Longrightarrow> live (change q k h) = live q"
    and change_key: "inv q \<Longrightarrow> h \<in> live q \<Longrightarrow> key (change q k h) g = (if g = h then k else key q g)"
    and change_item: "inv q \<Longrightarrow> h \<in> live q \<Longrightarrow> item (change q k h) g = item q g"
    and del_inv: "inv q \<Longrightarrow> h \<in> live q \<Longrightarrow> inv (del q h)"
    and del_live: "inv q \<Longrightarrow> h \<in> live q \<Longrightarrow> live (del q h) = live q - {h}"
    and del_key: "inv q \<Longrightarrow> h \<in> live q \<Longrightarrow> key (del q h) g = key q g"
    and del_item: "inv q \<Longrightarrow> h \<in> live q \<Longrightarrow> item (del q h) g = item q g"
begin

lemmas pop_laws = pop_inv pop_live pop_key pop_item

lemmas change_laws = change_inv change_live change_key change_item

lemmas del_laws = del_inv del_live del_key del_item

text \<open>A client that serves everything up to a deadline looks at the top only: when the top is
  past the deadline, so is every handle.\<close>

lemma top_past:
  assumes "inv q" "top q = Some h" "\<not> key q h \<le> now" "g \<in> live q"
  shows "\<not> key q g \<le> now"
  using top_least [OF assms(1,2,4)] assms(3) by auto

text \<open>Whatever is measured over the handles drops when the top is popped, and when the key of a
  handle moves so that its own measure drops.\<close>

lemma pop_sum_less:
  fixes w :: "'h \<Rightarrow> nat"
  assumes "inv q" "top q = Some h" "0 < w h"
  shows "sum w (live (pop q)) < sum w (live q)"
proof -
  have "h \<in> live q" "finite (live q)" using assms top_live live_finite by auto
  then have "sum w (live q) = w h + sum w (live q - {h})" by (simp add: sum.remove)
  with assms show ?thesis by (simp add: pop_live [OF assms(1,2)])
qed

lemma change_sum_less:
  fixes w w' :: "'h \<Rightarrow> nat"
  assumes "inv q" "h \<in> live q" "w' h < w h" "\<And>g. g \<in> live q \<Longrightarrow> g \<noteq> h \<Longrightarrow> w' g = w g"
  shows "sum w' (live (change q k h)) < sum w (live q)"
proof -
  have fin: "finite (live q)" using assms live_finite by auto
  have "sum w' (live q - {h}) = sum w (live q - {h})"
    using assms(4) by (intro sum.cong) auto
  with fin assms(2,3) show ?thesis
    by (simp add: change_live [OF assms(1,2)] sum.remove [where x = h])
qed

end

section \<open>Memory pool (\<open>swMemoryPool\<close>)\<close>

text \<open>\<open>alloc\<close> and \<open>release\<close> are partial: \<open>None\<close> is a crash (an access through an invalid pointer or
  a failed assertion). A block in use is never handed out again, and the pool refuses only when
  every block is in use.\<close>

locale mem_pool =
  fixes inv :: "'p \<Rightarrow> bool"
    and used :: "'p \<Rightarrow> ptr set"
    and blocks :: "'p \<Rightarrow> ptr set"
    and alloc :: "'p \<Rightarrow> ('p \<times> ptr option) option"
    and release :: "'p \<Rightarrow> ptr \<Rightarrow> 'p option"
  assumes blocks_finite: "inv q \<Longrightarrow> finite (blocks q)"
    and used_blocks: "inv q \<Longrightarrow> used q \<subseteq> blocks q"
    and alloc_ok: "inv q \<Longrightarrow> used q \<noteq> blocks q \<Longrightarrow> \<exists>q' b. alloc q = Some (q', Some b) \<and> inv q' \<and>
      blocks q' = blocks q \<and> b \<in> blocks q - used q \<and> used q' = insert b (used q)"
    and alloc_full: "inv q \<Longrightarrow> used q = blocks q \<Longrightarrow> alloc q = Some (q, None)"
    and release_ok: "inv q \<Longrightarrow> b \<in> blocks q \<Longrightarrow> \<exists>q'. release q b = Some q' \<and> inv q' \<and>
      blocks q' = blocks q \<and> used q' = used q - {b}"

text \<open>A client of a pool: a sequence of allocations, and returns of blocks it holds.\<close>

datatype pool_op = Alloc | Release ptr

fun pool_run ::
  "('p \<Rightarrow> ('p \<times> ptr option) option) \<Rightarrow> ('p \<Rightarrow> ptr \<Rightarrow> 'p option) \<Rightarrow> pool_op list \<Rightarrow> 'p \<Rightarrow>
   ('p \<times> ptr option list) option" where
  "pool_run al rl [] q = Some (q, [])"
| "pool_run al rl (Alloc # ops) q =
     do { (q1, r) \<leftarrow> al q; (q2, rs) \<leftarrow> pool_run al rl ops q1; Some (q2, r # rs) }"
| "pool_run al rl (Release b # ops) q = do { q1 \<leftarrow> rl q b; pool_run al rl ops q1 }"

context mem_pool
begin

lemma run_ok:
  assumes "inv q" "\<And>b. Release b \<in> set ops \<Longrightarrow> b \<in> blocks q"
  shows "\<exists>q' rs. pool_run alloc release ops q = Some (q', rs) \<and> inv q' \<and> blocks q' = blocks q"
  using assms
proof (induction ops arbitrary: q)
  case (Cons oper ops)
  show ?case
  proof (cases oper)
    case Alloc
    obtain q1 r where q1: "alloc q = Some (q1, r)" "inv q1" "blocks q1 = blocks q"
      using alloc_ok [OF Cons.prems(1)] alloc_full [OF Cons.prems(1)] Cons.prems(1)
      by (cases "used q = blocks q") auto
    from Cons.IH [OF q1(2)] Cons.prems(2) q1 Alloc show ?thesis by fastforce
  next
    case (Release b)
    obtain q1 where q1: "release q b = Some q1" "inv q1" "blocks q1 = blocks q"
      using release_ok [OF Cons.prems(1) Cons.prems(2), of b] Release by auto
    from Cons.IH [OF q1(2)] Cons.prems(2) q1 Release show ?thesis by simp
  qed
qed simp

lemma allocs_distinct:
  assumes "inv q" "n \<le> card (blocks q - used q)"
  shows "\<exists>q' bs. pool_run alloc release (replicate n Alloc) q = Some (q', map Some bs) \<and> inv q' \<and>
    length bs = n \<and> distinct bs \<and> set bs \<subseteq> blocks q - used q \<and> used q' = used q \<union> set bs \<and>
    blocks q' = blocks q"
  using assms
proof (induction n arbitrary: q)
  case (Suc n)
  have fin: "finite (blocks q)" using Suc.prems(1) by (rule blocks_finite)
  have "used q \<noteq> blocks q" using Suc.prems(2) by auto
  then obtain q1 b where q1: "alloc q = Some (q1, Some b)" "inv q1" "blocks q1 = blocks q"
    "b \<in> blocks q - used q" "used q1 = insert b (used q)"
    using alloc_ok [OF Suc.prems(1)] by blast
  have "blocks q1 - used q1 = blocks q - used q - {b}" using q1 by auto
  then have "n \<le> card (blocks q1 - used q1)" using Suc.prems(2) q1(4) fin by simp
  from Suc.IH [OF q1(2) this] obtain q' bs where
    "pool_run alloc release (replicate n Alloc) q1 = Some (q', map Some bs)" "inv q'" "length bs = n"
    "distinct bs" "set bs \<subseteq> blocks q1 - used q1" "used q' = used q1 \<union> set bs" "blocks q' = blocks q1"
    by blast
  with q1 show ?case by (intro exI [of _ q'] exI [of _ "b # bs"]) auto
qed (auto intro: exI [of _ "[]"])

end

section \<open>First-in first-out queue\<close>

text \<open>The contract of the linked list used as a queue, of the ring queue and of the channel. The operations
  have the value \<open>None\<close> when they crash. A push answers whether it was accepted; \<open>ok\<close> is what the caller
  owes (a fresh address from the allocator, a message that is not too long), \<open>item\<close> the value a push
  carries and \<open>full\<close> the only reason to refuse it. A pop of an empty queue answers \<open>None\<close>.\<close>

definition front :: "'a list \<Rightarrow> 'a option" where
  "front xs = (case xs of [] \<Rightarrow> None | x # _ \<Rightarrow> Some x)"

lemma front_simps [simp]: "front [] = None" "front (x # xs) = Some x" "front xs = None \<longleftrightarrow> xs = []"
  by (simp_all add: front_def split: list.splits)

locale fifo_queue =
  fixes inv :: "'q \<Rightarrow> bool"
    and items :: "'q \<Rightarrow> 'a list"
    and ok :: "'q \<Rightarrow> 'x \<Rightarrow> bool"
    and item :: "'x \<Rightarrow> 'a"
    and full :: "'a list \<Rightarrow> 'x \<Rightarrow> bool"
    and push :: "'q \<Rightarrow> 'x \<Rightarrow> (bool \<times> 'q) option"
    and pop :: "'q \<Rightarrow> ('a option \<times> 'q) option"
  assumes push_ok: "inv q \<Longrightarrow> ok q x \<Longrightarrow>
      \<exists>b q'. push q x = Some (b, q') \<and> inv q' \<and> items q' = items q @ (if b then [item x] else []) \<and> (b \<or> full (items q) x)"
    and pop_ok: "inv q \<Longrightarrow> \<exists>q'. pop q = Some (front (items q), q') \<and> inv q' \<and> items q' = tl (items q)"

text \<open>A client: a sequence of pushes and pops, with their answers; \<open>None\<close> when an operation crashes or a push
  breaks what the caller owes. \<open>queue_spec full item ops rs xs ys\<close> says that the answers \<open>rs\<close> are those of a list
  that holds \<open>xs\<close> before and \<open>ys\<close> after.\<close>

datatype 'x queue_op = Push 'x | Pop

datatype 'a queue_res = Pushed bool | Popped "'a option"

fun queue_run ::
  "('q \<Rightarrow> 'x \<Rightarrow> bool) \<Rightarrow> ('q \<Rightarrow> 'x \<Rightarrow> (bool \<times> 'q) option) \<Rightarrow> ('q \<Rightarrow> ('a option \<times> 'q) option) \<Rightarrow>
   'x queue_op list \<Rightarrow> 'q \<Rightarrow> ('a queue_res list \<times> 'q) option" where
  "queue_run ok push pop [] q = Some ([], q)"
| "queue_run ok push pop (Push x # ops) q =
     (if \<not> ok q x then None
      else do {
        (b, q) \<leftarrow> push q x;
        (rs, q) \<leftarrow> queue_run ok push pop ops q;
        Some (Pushed b # rs, q) })"
| "queue_run ok push pop (Pop # ops) q = do {
     (v, q) \<leftarrow> pop q;
     (rs, q) \<leftarrow> queue_run ok push pop ops q;
     Some (Popped v # rs, q) }"

fun queue_spec ::
  "('a list \<Rightarrow> 'x \<Rightarrow> bool) \<Rightarrow> ('x \<Rightarrow> 'a) \<Rightarrow> 'x queue_op list \<Rightarrow> 'a queue_res list \<Rightarrow> 'a list \<Rightarrow> 'a list \<Rightarrow> bool" where
  "queue_spec full item [] [] xs ys = (ys = xs)"
| "queue_spec full item (Push x # ops) (Pushed b # rs) xs ys =
     ((b \<or> full xs x) \<and> queue_spec full item ops rs (xs @ (if b then [item x] else [])) ys)"
| "queue_spec full item (Pop # ops) (Popped v # rs) xs ys = (v = front xs \<and> queue_spec full item ops rs (tl xs) ys)"
| "queue_spec full item _ _ xs ys = False"

text \<open>What the caller owes matters only to whether a run is defined.\<close>

lemma queue_run_mono:
  "queue_run ok push pop ops q = Some r \<Longrightarrow> queue_run (\<lambda>_ _. True) push pop ops q = Some r"
proof (induction ops arbitrary: q r)
  case (Cons oper ops)
  then show ?case by (cases oper) (fastforce simp: bind_eq_Some_conv split: if_splits)+
qed simp

context fifo_queue
begin

text \<open>A run whose pushes are all allowed returns, with the answers of a list.\<close>

lemma run_queue:
  assumes "inv q" "\<And>q x. inv q \<Longrightarrow> Push x \<in> set ops \<Longrightarrow> ok q x"
  shows "\<exists>rs q'. queue_run ok push pop ops q = Some (rs, q') \<and> inv q' \<and> queue_spec full item ops rs (items q) (items q')"
  using assms
proof (induction ops arbitrary: q)
  case (Cons oper ops)
  have rest: "\<exists>rs q'. queue_run ok push pop ops q1 = Some (rs, q') \<and> inv q' \<and> queue_spec full item ops rs (items q1) (items q')"
    if "inv q1" for q1 using Cons.IH [OF that] Cons.prems(2) by simp
  show ?case
  proof (cases oper)
    case (Push x)
    then have ok: "ok q x" using Cons.prems by simp
    obtain b q1 where q1: "push q x = Some (b, q1)" "inv q1" "items q1 = items q @ (if b then [item x] else [])" "b \<or> full (items q) x"
      using push_ok [OF Cons.prems(1) ok] by blast
    obtain rs q' where "queue_run ok push pop ops q1 = Some (rs, q')" "inv q'" "queue_spec full item ops rs (items q1) (items q')"
      using rest [OF q1(2)] by blast
    with q1 ok Push show ?thesis by (intro exI [of _ "Pushed b # rs"] exI [of _ q']) simp
  next
    case Pop
    obtain q1 where q1: "pop q = Some (front (items q), q1)" "inv q1" "items q1 = tl (items q)"
      using pop_ok [OF Cons.prems(1)] by blast
    obtain rs q' where "queue_run ok push pop ops q1 = Some (rs, q')" "inv q'" "queue_spec full item ops rs (items q1) (items q')"
      using rest [OF q1(2)] by blast
    with q1 Pop show ?thesis by (intro exI [of _ "Popped (front (items q)) # rs"] exI [of _ q']) simp
  qed
qed simp

lemma drain:
  assumes "inv q"
  shows "\<exists>q'. queue_run ok push pop (replicate (length (items q)) Pop) q = Some (map (\<lambda>a. Popped (Some a)) (items q), q') \<and>
    inv q' \<and> items q' = []"
  using assms
proof (induction "items q" arbitrary: q)
  case (Cons a as)
  obtain q1 where q1: "pop q = Some (front (items q), q1)" "inv q1" "items q1 = tl (items q)"
    using pop_ok [OF Cons.prems] by blast
  then have as: "as = items q1" "items q = a # as" using Cons.hyps(2) by (metis list.sel(3), simp)
  from Cons.hyps(1) [OF as(1) q1(2)] q1(1) as show ?case by auto
qed simp

end

section \<open>Keyed store\<close>

text \<open>A store of rows under keys, related to a finite map. A put carries values for some of the columns
  (\<open>upd\<close> says what it makes of the old row) and may be refused for a new key; \<open>whole\<close> holds when it carries
  all columns. What a row becomes that is new and put in part is left open.\<close>

locale keyed_store =
  fixes rel :: "'s \<Rightarrow> ('k \<Rightarrow> 'v option) \<Rightarrow> bool"
    and key_ok :: "'k \<Rightarrow> bool"
    and val_ok :: "'a \<Rightarrow> bool"
    and whole :: "'a \<Rightarrow> bool"
    and full :: "('k \<Rightarrow> 'v option) \<Rightarrow> bool"
    and upd :: "'a \<Rightarrow> 'v option \<Rightarrow> 'v"
    and put :: "'s \<Rightarrow> 'k \<Rightarrow> 'a \<Rightarrow> (bool \<times> 's) option"
    and get :: "'s \<Rightarrow> 'k \<Rightarrow> ('v option \<times> 's) option"
    and del :: "'s \<Rightarrow> 'k \<Rightarrow> (bool \<times> 's) option"
  assumes put_ok: "rel s m \<Longrightarrow> key_ok k \<Longrightarrow> val_ok a \<Longrightarrow>
      (\<exists>s'. put s k a = Some (False, s') \<and> rel s' m \<and> m k = None \<and> full m) \<or>
      (\<exists>s' v. put s k a = Some (True, s') \<and> rel s' (m(k \<mapsto> v)) \<and> (whole a \<or> m k \<noteq> None \<longrightarrow> v = upd a (m k)))"
    and get_ok: "rel s m \<Longrightarrow> key_ok k \<Longrightarrow> \<exists>s'. get s k = Some (m k, s') \<and> rel s' m"
    and del_ok: "rel s m \<Longrightarrow> key_ok k \<Longrightarrow> \<exists>s'. del s k = Some (m k \<noteq> None, s') \<and> rel s' (m(k := None))"

text \<open>A client: a sequence of calls, with their results. \<open>store_spec\<close> says which results a map allows.\<close>

datatype ('k, 'a) store_op = Put 'k 'a | Get 'k | Del 'k

datatype 'v store_res = Done bool | Found "'v option"

fun store_step ::
  "('s \<Rightarrow> 'k \<Rightarrow> 'a \<Rightarrow> (bool \<times> 's) option) \<Rightarrow> ('s \<Rightarrow> 'k \<Rightarrow> ('v option \<times> 's) option) \<Rightarrow> ('s \<Rightarrow> 'k \<Rightarrow> (bool \<times> 's) option) \<Rightarrow>
   ('k, 'a) store_op \<Rightarrow> 's \<Rightarrow> ('v store_res \<times> 's) option" where
  "store_step put get del (Put k a) s = map_option (map_prod Done id) (put s k a)"
| "store_step put get del (Get k) s = map_option (map_prod Found id) (get s k)"
| "store_step put get del (Del k) s = map_option (map_prod Done id) (del s k)"

primrec store_run ::
  "('s \<Rightarrow> 'k \<Rightarrow> 'a \<Rightarrow> (bool \<times> 's) option) \<Rightarrow> ('s \<Rightarrow> 'k \<Rightarrow> ('v option \<times> 's) option) \<Rightarrow> ('s \<Rightarrow> 'k \<Rightarrow> (bool \<times> 's) option) \<Rightarrow>
   ('k, 'a) store_op list \<Rightarrow> 's \<Rightarrow> ('v store_res list \<times> 's) option" where
  "store_run put get del [] s = Some ([], s)"
| "store_run put get del (x # xs) s = do {
     (r, s) \<leftarrow> store_step put get del x s;
     (rs, s) \<leftarrow> store_run put get del xs s;
     Some (r # rs, s) }"

fun store_spec ::
  "('a \<Rightarrow> bool) \<Rightarrow> (('k \<Rightarrow> 'v option) \<Rightarrow> bool) \<Rightarrow> ('a \<Rightarrow> 'v option \<Rightarrow> 'v) \<Rightarrow> ('k, 'a) store_op list \<Rightarrow> 'v store_res list \<Rightarrow> ('k \<Rightarrow> 'v option) \<Rightarrow> bool" where
  "store_spec whole full upd [] [] m = True"
| "store_spec whole full upd (Put k a # xs) (Done b # rs) m =
     (if b then \<exists>v. (whole a \<or> m k \<noteq> None \<longrightarrow> v = upd a (m k)) \<and> store_spec whole full upd xs rs (m(k \<mapsto> v))
      else m k = None \<and> full m \<and> store_spec whole full upd xs rs m)"
| "store_spec whole full upd (Get k # xs) (Found v # rs) m = (v = m k \<and> store_spec whole full upd xs rs m)"
| "store_spec whole full upd (Del k # xs) (Done b # rs) m = (b = (m k \<noteq> None) \<and> store_spec whole full upd xs rs (m(k := None)))"
| "store_spec whole full upd _ _ m = False"

fun store_op_ok :: "('k \<Rightarrow> bool) \<Rightarrow> ('a \<Rightarrow> bool) \<Rightarrow> ('k, 'a) store_op \<Rightarrow> bool" where
  "store_op_ok key_ok val_ok (Put k a) = (key_ok k \<and> val_ok a)"
| "store_op_ok key_ok val_ok (Get k) = key_ok k"
| "store_op_ok key_ok val_ok (Del k) = key_ok k"

context keyed_store
begin

lemma run_store:
  assumes "rel s m" "list_all (store_op_ok key_ok val_ok) xs"
  shows "\<exists>rs s' m'. store_run put get del xs s = Some (rs, s') \<and> rel s' m' \<and> store_spec whole full upd xs rs m"
  using assms
proof (induction xs arbitrary: s m)
  case (Cons x xs)
  have next_ok: ?case if step: "store_step put get del x s = Some (r, s1)" and rel: "rel s1 m1"
    and spec: "\<And>rs. store_spec whole full upd xs rs m1 \<Longrightarrow> store_spec whole full upd (x # xs) (r # rs) m" for r s1 m1
  proof -
    obtain rs s' m' where "store_run put get del xs s1 = Some (rs, s')" "rel s' m'" "store_spec whole full upd xs rs m1"
      using Cons.IH [OF rel] Cons.prems(2) by auto
    with step spec show ?thesis by (intro exI [of _ "r # rs"] exI [of _ s'] exI [of _ m']) simp
  qed
  show ?case
  proof (cases x)
    case (Put k a)
    then have ok: "key_ok k" "val_ok a" using Cons.prems(2) by simp_all
    from put_ok [OF Cons.prems(1) ok] show ?thesis
    proof (elim disjE exE conjE, goal_cases)
      case (1 s')
      then show ?case using Put by (intro next_ok [of "Done False" s' m]) simp_all
    next
      case (2 s' v)
      then show ?case using Put by (intro next_ok [of "Done True" s' "m(k \<mapsto> v)"]) auto
    qed
  next
    case (Get k)
    then obtain s' where "get s k = Some (m k, s')" "rel s' m" using get_ok [OF Cons.prems(1)] Cons.prems(2) by auto
    then show ?thesis using Get by (intro next_ok [of "Found (m k)" s' m]) simp_all
  next
    case (Del k)
    then obtain s' where "del s k = Some (m k \<noteq> None, s')" "rel s' (m(k := None))" using del_ok [OF Cons.prems(1)] Cons.prems(2) by auto
    then show ?thesis using Del by (intro next_ok [of "Done (m k \<noteq> None)" s' "m(k := None)"]) simp_all
  qed
qed auto

end

end
