(* ===== verification/Sw_Heap.thy ===== *)
theory Sw_Heap
  imports Sw_Interfaces
begin

text \<open>
  The binary heap of \<open>src/core/heap.c\<close> and \<open>include/heap.h\<close>, the priority queue under
  the timers. The heap is an array of pointers to nodes, indexed from 1; every node records
  its own index in \<open>position\<close>, which is how \<open>swHeap_remove\<close> and
  \<open>swHeap_change_priority\<close> find it. The model keeps both the array and the store of nodes.

  Indices are natural numbers. The code computes them in \<open>uint32_t\<close>; \<open>left(i)\<close> cannot
  wrap while the array has at most \<open>2 ^ 31\<close> cells, which \<open>heap_wf\<close> states. The growth of
  the array in \<open>swHeap_push\<close> is written with its wrap-around.
\<close>

section \<open>Data\<close>

datatype swHeap_type = SW_MIN_HEAP | SW_MAX_HEAP

record 'd swHeap_node =
  priority :: u64
  position :: nat
  data :: 'd

record 'd swHeap =
  heap_num :: nat
  heap_size :: nat
  heap_type :: swHeap_type
  heap_nodes :: "ptr list"
  heap_store :: "ptr \<Rightarrow> 'd swHeap_node"

definition heap_left :: "nat \<Rightarrow> nat" where
  "heap_left i = 2 * i"

definition heap_parent :: "nat \<Rightarrow> nat" where
  "heap_parent i = i div 2"

text \<open>\<open>heap->nodes[i]\<close>, and the writes \<open>heap->nodes[i] = p; p->position = i\<close> that every loop
  of the heap makes together.\<close>

definition heap_node :: "'d swHeap \<Rightarrow> nat \<Rightarrow> 'd swHeap_node" where
  "heap_node h i = heap_store h (heap_nodes h ! i)"

definition heap_put :: "'d swHeap \<Rightarrow> nat \<Rightarrow> ptr \<Rightarrow> 'd swHeap" where
  "heap_put h i p = h\<lparr>heap_nodes := (heap_nodes h)[i := p],
     heap_store := (heap_store h)(p := (heap_store h p)\<lparr>position := i\<rparr>)\<rparr>"

section \<open>Operations\<close>

text \<open>\<open>swHeap_new\<close>: \<open>ok\<close> is the outcome of the first \<open>sw_malloc\<close>, \<open>blk\<close> the block the second
  one returns, with whatever it holds.\<close>

definition swHeap_new ::
  "nat \<Rightarrow> swHeap_type \<Rightarrow> bool \<Rightarrow> ptr list option \<Rightarrow> (ptr \<Rightarrow> 'd swHeap_node) \<Rightarrow> 'd swHeap option" where
  "swHeap_new n ty ok blk st =
     (if \<not> ok then None
      else case blk of
        None \<Rightarrow> None
      | Some cells \<Rightarrow> Some \<lparr>heap_num = 1, heap_size = (n + 1) mod 2 ^ 32, heap_type = ty,
          heap_nodes = cells, heap_store = st\<rparr>)"

definition swHeap_compare :: "swHeap_type \<Rightarrow> u64 \<Rightarrow> u64 \<Rightarrow> bool" where
  "swHeap_compare ty a b = (if ty = SW_MIN_HEAP then a > b else a < b)"

definition swHeap_size :: "'d swHeap \<Rightarrow> nat" where
  "swHeap_size h = heap_num h - 1"

text \<open>\<open>swHeap_maxchild\<close> loads \<open>nodes[left(i)]\<close> before it compares \<open>left(i)\<close> with \<open>num\<close>; the
  loaded pointer is used only after the test, so the model looks at the cell after it.\<close>

definition swHeap_maxchild :: "'d swHeap \<Rightarrow> nat \<Rightarrow> nat" where
  "swHeap_maxchild h i =
     (let child_i = heap_left i in
      if child_i \<ge> heap_num h then 0
      else if child_i + 1 < heap_num h \<and>
         swHeap_compare (heap_type h) (priority (heap_node h child_i))
           (priority (heap_node h (child_i + 1)))
      then child_i + 1
      else child_i)"

function swHeap_bubble_up_loop :: "'d swHeap \<Rightarrow> ptr \<Rightarrow> nat \<Rightarrow> 'd swHeap \<times> nat" where
  "swHeap_bubble_up_loop h m i =
     (if i > 1 \<and> swHeap_compare (heap_type h) (priority (heap_node h (heap_parent i)))
           (priority (heap_store h m))
      then swHeap_bubble_up_loop (heap_put h i (heap_nodes h ! heap_parent i)) m (heap_parent i)
      else (h, i))"
  by pat_completeness auto
termination
  by (relation "measure (\<lambda>(h, m, i). i)") (auto simp: heap_parent_def)

definition swHeap_bubble_up :: "'d swHeap \<Rightarrow> nat \<Rightarrow> 'd swHeap" where
  "swHeap_bubble_up h i =
     (let moving_node = heap_nodes h ! i;
          (h', i') = swHeap_bubble_up_loop h moving_node i
      in heap_put h' i' moving_node)"

lemma heap_put_fields [simp]:
  "heap_num (heap_put h i p) = heap_num h"
  "heap_size (heap_put h i p) = heap_size h"
  "heap_type (heap_put h i p) = heap_type h"
  "heap_nodes (heap_put h i p) = (heap_nodes h)[i := p]"
  "priority (heap_store (heap_put h i p) q) = priority (heap_store h q)"
  "data (heap_store (heap_put h i p) q) = data (heap_store h q)"
  by (simp_all add: heap_put_def)

lemma position_heap_put:
  "position (heap_store (heap_put h i p) q) = (if q = p then i else position (heap_store h q))"
  by (simp add: heap_put_def)

lemma swHeap_maxchild_bounds:
  assumes "swHeap_maxchild h i \<noteq> 0"
  shows "swHeap_maxchild h i < heap_num h" "i < swHeap_maxchild h i"
    "heap_parent (swHeap_maxchild h i) = i"
  using assms by (auto simp: swHeap_maxchild_def Let_def heap_left_def heap_parent_def split: if_splits)

function swHeap_percolate_down_loop :: "'d swHeap \<Rightarrow> ptr \<Rightarrow> nat \<Rightarrow> 'd swHeap \<times> nat" where
  "swHeap_percolate_down_loop h m i =
     (let child_i = swHeap_maxchild h i in
      if child_i \<noteq> 0 \<and> swHeap_compare (heap_type h) (priority (heap_store h m))
           (priority (heap_node h child_i))
      then swHeap_percolate_down_loop (heap_put h i (heap_nodes h ! child_i)) m child_i
      else (h, i))"
  by pat_completeness auto
termination
proof (relation "measure (\<lambda>(h, m, i). heap_num h - i)", goal_cases)
  case (2 h m i child_i)
  then show ?case using swHeap_maxchild_bounds [of h i] by simp
qed simp

definition swHeap_percolate_down :: "'d swHeap \<Rightarrow> nat \<Rightarrow> 'd swHeap" where
  "swHeap_percolate_down h i =
     (let moving_node = heap_nodes h ! i;
          (h', i') = swHeap_percolate_down_loop h moving_node i
      in heap_put h' i' moving_node)"

text \<open>\<open>swHeap_push\<close>: \<open>extra\<close> is the answer of \<open>sw_realloc\<close> when the array is full (the cells it
  adds), \<open>mem\<close> the answer of \<open>sw_malloc\<close> for the node. The result is the node, or \<open>None\<close>
  for \<open>NULL\<close>.\<close>

definition swHeap_push ::
  "'d swHeap \<Rightarrow> u64 \<Rightarrow> 'd \<Rightarrow> ptr list option \<Rightarrow> ptr option \<Rightarrow> 'd swHeap \<times> ptr option" where
  "swHeap_push h pri d extra mem =
     (let grown =
        (if heap_num h \<ge> heap_size h then
           case extra of
             None \<Rightarrow> None
           | Some cells \<Rightarrow>
               let newsize = (heap_size h * 2) mod 2 ^ 32
               in Some (h\<lparr>heap_nodes := take newsize (heap_nodes h) @ cells, heap_size := newsize\<rparr>)
         else Some h)
      in case grown of
        None \<Rightarrow> (h, None)
      | Some h1 \<Rightarrow>
         (case mem of
            None \<Rightarrow> (h1, None)
          | Some node \<Rightarrow>
             let i = heap_num h1;
                 h2 = h1\<lparr>heap_num := i + 1, heap_nodes := (heap_nodes h1)[i := node],
                   heap_store := (heap_store h1)(node :=
                     (heap_store h1 node)\<lparr>priority := pri, data := d\<rparr>)\<rparr>
             in (swHeap_bubble_up h2 i, Some node)))"

definition swHeap_change_priority :: "'d swHeap \<Rightarrow> u64 \<Rightarrow> ptr \<Rightarrow> 'd swHeap" where
  "swHeap_change_priority h new_priority node =
     (let pos = position (heap_store h node);
          old_pri = priority (heap_store h node);
          h1 = h\<lparr>heap_store := (heap_store h)(node := (heap_store h node)\<lparr>priority := new_priority\<rparr>)\<rparr>
      in if swHeap_compare (heap_type h) old_pri new_priority
         then swHeap_bubble_up h1 pos
         else swHeap_percolate_down h1 pos)"

definition swHeap_remove :: "'d swHeap \<Rightarrow> ptr \<Rightarrow> 'd swHeap \<times> int" where
  "swHeap_remove h node =
     (let pos = position (heap_store h node);
          n = heap_num h - 1;
          h1 = h\<lparr>heap_num := n, heap_nodes := (heap_nodes h)[pos := heap_nodes h ! n]\<rparr>
      in if swHeap_compare (heap_type h) (priority (heap_store h node)) (priority (heap_node h1 pos))
         then (swHeap_bubble_up h1 pos, SW_OK)
         else (swHeap_percolate_down h1 pos, SW_OK))"

definition swHeap_pop :: "'d swHeap \<Rightarrow> 'd swHeap \<times> 'd option" where
  "swHeap_pop h =
     (if heap_num h = 1 then (h, None)
      else
        let head = heap_nodes h ! 1;
            n = heap_num h - 1;
            h1 = h\<lparr>heap_num := n, heap_nodes := (heap_nodes h)[1 := heap_nodes h ! n]\<rparr>
        in (swHeap_percolate_down h1 1, Some (data (heap_store h head))))"

definition swHeap_peek :: "'d swHeap \<Rightarrow> 'd option" where
  "swHeap_peek h =
     (if heap_num h = 1 then None
      else if heap_nodes h ! 1 = NULL then None
      else Some (data (heap_node h 1)))"

definition swHeap_top :: "'d swHeap \<Rightarrow> ptr option" where
  "swHeap_top h = (if heap_num h = 1 then None else Some (heap_nodes h ! 1))"

declare swHeap_bubble_up_loop.simps [simp del] swHeap_percolate_down_loop.simps [simp del]

section \<open>Invariant\<close>

text \<open>\<open>heap_le\<close> is the order of the heap: smaller priorities first for a min heap, larger first
  for a max heap.\<close>

definition heap_le :: "swHeap_type \<Rightarrow> u64 \<Rightarrow> u64 \<Rightarrow> bool" where
  "heap_le ty a b \<longleftrightarrow> \<not> swHeap_compare ty a b"

lemma heap_le_refl [simp]: "heap_le ty a a"
  by (simp add: heap_le_def swHeap_compare_def)

lemma heap_le_trans [trans]: "heap_le ty a b \<Longrightarrow> heap_le ty b c \<Longrightarrow> heap_le ty a c"
  by (auto simp: heap_le_def swHeap_compare_def split: if_splits)

lemma compare_heap_le: "swHeap_compare ty a b \<Longrightarrow> heap_le ty b a"
  by (auto simp: heap_le_def swHeap_compare_def split: if_splits)

lemma compare_iff [simp]: "swHeap_compare ty a b \<longleftrightarrow> \<not> heap_le ty a b"
  by (simp add: heap_le_def)

lemma heap_le_total: "\<not> heap_le ty a b \<Longrightarrow> heap_le ty b a"
  by (auto intro: compare_heap_le)

abbreviation prio :: "'d swHeap \<Rightarrow> ptr \<Rightarrow> u64" where
  "prio h p \<equiv> priority (heap_store h p)"

text \<open>The cells in use, the nodes they point to, and the invariant: cells within the array,
  different cells hold different nodes, every node knows its cell, and no node precedes its
  parent in the order.\<close>

definition heap_cells :: "'d swHeap \<Rightarrow> nat set" where
  "heap_cells h = {1..<heap_num h}"

definition heap_live :: "'d swHeap \<Rightarrow> ptr set" where
  "heap_live h = (!) (heap_nodes h) ` heap_cells h"

definition heap_wf :: "'d swHeap \<Rightarrow> bool" where
  "heap_wf h \<longleftrightarrow> 1 \<le> heap_num h \<and> heap_num h \<le> heap_size h \<and> heap_size h \<le> 2 ^ 31 \<and>
     length (heap_nodes h) = heap_size h \<and> NULL \<notin> heap_live h \<and>
     (\<forall>i \<in> heap_cells h. position (heap_node h i) = i)"

definition heap_ordered :: "'d swHeap \<Rightarrow> bool" where
  "heap_ordered h \<longleftrightarrow> (\<forall>i \<in> heap_cells h. 1 < i \<longrightarrow>
     heap_le (heap_type h) (priority (heap_node h (heap_parent i))) (priority (heap_node h i)))"

definition heap_inv :: "'d swHeap \<Rightarrow> bool" where
  "heap_inv h \<longleftrightarrow> heap_wf h \<and> heap_ordered h"

text \<open>What no operation but \<open>swHeap_change_priority\<close> touches: the kind of heap and the
  priority and data of every node.\<close>

definition heap_same :: "'d swHeap \<Rightarrow> 'd swHeap \<Rightarrow> bool" where
  "heap_same h h' \<longleftrightarrow> heap_type h' = heap_type h \<and> heap_num h' = heap_num h \<and>
     heap_size h' = heap_size h \<and> length (heap_nodes h') = length (heap_nodes h) \<and>
     (\<forall>p. priority (heap_store h' p) = priority (heap_store h p) \<and>
          data (heap_store h' p) = data (heap_store h p))"

lemma heap_same_refl [simp]: "heap_same h h"
  by (simp add: heap_same_def)

lemma heap_same_trans: "heap_same h h' \<Longrightarrow> heap_same h' h'' \<Longrightarrow> heap_same h h''"
  by (simp add: heap_same_def)

lemma heap_same_put [simp]: "heap_same h (heap_put h i p)"
  by (simp add: heap_same_def)

section \<open>The sifting loops\<close>

text \<open>
  Both loops move a hole. \<open>hole_wf h m i\<close> says that the heap is well formed once the moving
  node \<open>m\<close> is put into the hole \<open>i\<close>; \<open>hole_live\<close> are the nodes it then holds. The two order
  invariants are the heap order of that filled heap except above the hole
  (\<open>up_ordered\<close>) or below it (\<open>down_ordered\<close>).
\<close>

definition hole_nodes :: "'d swHeap \<Rightarrow> ptr \<Rightarrow> nat \<Rightarrow> ptr list" where
  "hole_nodes h m i = (heap_nodes h)[i := m]"

definition hole_wf :: "'d swHeap \<Rightarrow> ptr \<Rightarrow> nat \<Rightarrow> bool" where
  "hole_wf h m i \<longleftrightarrow> i \<in> heap_cells h \<and> heap_num h \<le> length (heap_nodes h) \<and>
     inj_on ((!) (hole_nodes h m i)) (heap_cells h) \<and>
     (\<forall>j \<in> heap_cells h - {i}. position (heap_node h j) = j)"

definition hole_prio :: "'d swHeap \<Rightarrow> ptr \<Rightarrow> nat \<Rightarrow> nat \<Rightarrow> u64" where
  "hole_prio h m i j = prio h (hole_nodes h m i ! j)"

definition grand_ordered :: "'d swHeap \<Rightarrow> ptr \<Rightarrow> nat \<Rightarrow> bool" where
  "grand_ordered h m i \<longleftrightarrow> (\<forall>j \<in> heap_cells h. 1 < i \<and> heap_parent j = i \<longrightarrow>
     heap_le (heap_type h) (hole_prio h m i (heap_parent i)) (hole_prio h m i j))"

definition up_ordered :: "'d swHeap \<Rightarrow> ptr \<Rightarrow> nat \<Rightarrow> bool" where
  "up_ordered h m i \<longleftrightarrow> grand_ordered h m i \<and> (\<forall>j \<in> heap_cells h. 1 < j \<and> j \<noteq> i \<longrightarrow>
     heap_le (heap_type h) (hole_prio h m i (heap_parent j)) (hole_prio h m i j))"

definition down_ordered :: "'d swHeap \<Rightarrow> ptr \<Rightarrow> nat \<Rightarrow> bool" where
  "down_ordered h m i \<longleftrightarrow> grand_ordered h m i \<and> (\<forall>j \<in> heap_cells h. 1 < j \<and> heap_parent j \<noteq> i \<longrightarrow>
     heap_le (heap_type h) (hole_prio h m i (heap_parent j)) (hole_prio h m i j))"

text \<open>One iteration fills the hole \<open>i\<close> with the node of cell \<open>k\<close> and makes \<open>k\<close> the hole: the
  filled heap has two cells swapped.\<close>

lemma hole_nodes_step:
  assumes "i \<noteq> k" "i < length (heap_nodes h)" "k < length (heap_nodes h)"
  shows "hole_nodes (heap_put h i (heap_nodes h ! k)) m k = nth_swap (hole_nodes h m i) i k"
  using hole_move [OF assms] by (simp add: hole_nodes_def)

lemma hole_wf_step:
  assumes wf: "hole_wf h m i" and k: "k \<in> heap_cells h" "k \<noteq> i"
  shows "hole_wf (heap_put h i (heap_nodes h ! k)) m k"
    "(!) (hole_nodes (heap_put h i (heap_nodes h ! k)) m k) ` heap_cells h =
     (!) (hole_nodes h m i) ` heap_cells h"
    "\<And>j. hole_prio (heap_put h i (heap_nodes h ! k)) m k j =
       (if j = k then hole_prio h m i i else if j = i then hole_prio h m i k else hole_prio h m i j)"
proof -
  let ?h' = "heap_put h i (heap_nodes h ! k)"
  from wf k have i: "i \<in> heap_cells h" "i < length (heap_nodes h)" "k < length (heap_nodes h)"
    and inj: "inj_on ((!) (hole_nodes h m i)) (heap_cells h)"
    and pos: "\<And>j. j \<in> heap_cells h \<Longrightarrow> j \<noteq> i \<Longrightarrow> position (heap_node h j) = j"
    by (auto simp: hole_wf_def heap_cells_def)
  from i k have lens: "i < length (hole_nodes h m i)" "k < length (hole_nodes h m i)"
    by (simp_all add: hole_nodes_def)
  have step: "hole_nodes ?h' m k = nth_swap (hole_nodes h m i) i k"
    by (rule hole_nodes_step) (use i k in simp_all)
  have cells: "heap_cells ?h' = heap_cells h"
    by (simp add: heap_cells_def)
  have "position (heap_node ?h' j) = j" if j: "j \<in> heap_cells h" "j \<noteq> k" for j
  proof (cases "j = i")
    case True
    then show ?thesis using i by (simp add: heap_node_def position_heap_put)
  next
    case False
    have "heap_nodes h ! j \<noteq> heap_nodes h ! k"
      using inj_onD [OF inj, of j k] j k False by (auto simp: hole_nodes_def)
    with False show ?thesis
      using pos [OF j(1) False] by (simp add: heap_node_def position_heap_put)
  qed
  then have pos': "\<forall>j \<in> heap_cells h - {k}. position (heap_node ?h' j) = j"
    by blast
  have inj': "inj_on ((!) (hole_nodes ?h' m k)) (heap_cells h)"
    unfolding step by (rule inj_on_nth_swap [OF inj i(1) k(1) lens])
  have "heap_num ?h' \<le> length (heap_nodes ?h')"
    using wf by (simp add: hole_wf_def)
  with pos' inj' k(1) show "hole_wf ?h' m k"
    unfolding hole_wf_def cells by blast
  show "(!) (hole_nodes ?h' m k) ` heap_cells h = (!) (hole_nodes h m i) ` heap_cells h"
    using image_nth_swap [OF i(1) k(1) lens] by (simp add: step)
  show "hole_prio ?h' m k j =
      (if j = k then hole_prio h m i i else if j = i then hole_prio h m i k else hole_prio h m i j)" for j
    using lens by (simp add: hole_prio_def step nth_nth_swap)
qed

lemma hole_prio_self: "i < length (heap_nodes h) \<Longrightarrow> hole_prio h m i i = prio h m"
  by (simp add: hole_prio_def hole_nodes_def)

lemma hole_prio_other: "j \<noteq> i \<Longrightarrow> hole_prio h m i j = priority (heap_node h j)"
  by (simp add: hole_prio_def hole_nodes_def heap_node_def)

lemma heap_parent_less: "1 < i \<Longrightarrow> heap_parent i < i"
  by (simp add: heap_parent_def)

lemma heap_parent_cell: "j \<in> heap_cells h \<Longrightarrow> 1 < j \<Longrightarrow> heap_parent j \<in> heap_cells h"
  by (auto simp: heap_cells_def heap_parent_def)

lemma heap_cells_put [simp]: "heap_cells (heap_put h i p) = heap_cells h"
  by (simp add: heap_cells_def)

lemma up_ordered_step:
  assumes wf: "hole_wf h m i" and up: "up_ordered h m i" and i: "1 < i"
    and cmp: "swHeap_compare (heap_type h) (priority (heap_node h (heap_parent i))) (prio h m)"
  shows "up_ordered (heap_put h i (heap_nodes h ! heap_parent i)) m (heap_parent i)"
proof -
  let ?k = "heap_parent i"
  let ?h' = "heap_put h i (heap_nodes h ! ?k)"
  let ?le = "heap_le (heap_type h)" and ?hp = "hole_prio h m i"
  have k: "?k < i" "?k \<in> heap_cells h" "?k \<noteq> i" and len: "i < length (heap_nodes h)"
    using wf i heap_parent_less [OF i] heap_parent_cell [of i h]
    by (auto simp: hole_wf_def heap_cells_def)
  have A: "?le (?hp (heap_parent j)) (?hp j)" if "j \<in> heap_cells h" "1 < j" "j \<noteq> i" for j
    using up that by (simp add: up_ordered_def)
  have G: "?le (?hp ?k) (?hp j)" if "j \<in> heap_cells h" "heap_parent j = i" for j
    using up that i by (simp add: up_ordered_def grand_ordered_def)
  have C: "?le (?hp i) (?hp ?k)"
    using compare_heap_le [OF cmp] len k by (simp add: hole_prio_self hole_prio_other)
  note hp' = hole_wf_step(3) [OF wf k(2,3)]
  have "?le (hole_prio ?h' m ?k (heap_parent j)) (hole_prio ?h' m ?k j)"
    if j: "j \<in> heap_cells h" "1 < j" "j \<noteq> ?k" for j
  proof (cases "j = i")
    case True
    then show ?thesis using C k by (simp add: hp')
  next
    case False
    then show ?thesis
      using j A [OF j(1,2) False] G [OF j(1)] C heap_le_trans [of _ "?hp i" "?hp ?k"]
      by (auto simp: hp')
  qed
  moreover have "?le (hole_prio ?h' m ?k (heap_parent ?k)) (hole_prio ?h' m ?k j)"
    if j: "j \<in> heap_cells h" "1 < ?k" "heap_parent j = ?k" for j
  proof -
    have pk: "heap_parent ?k < ?k" using j(2) by (rule heap_parent_less)
    have "1 < j" "j \<noteq> ?k" using j heap_parent_less [of j] by (auto simp: heap_parent_def)
    have "?le (?hp (heap_parent ?k)) (?hp ?k)" using A [OF k(2) j(2) k(3)] .
    also have "?le (?hp ?k) (hole_prio ?h' m ?k j)"
      using A [OF j(1) \<open>1 < j\<close>] j \<open>j \<noteq> ?k\<close> by (cases "j = i") (simp_all add: hp')
    finally show ?thesis using pk k by (simp add: hp')
  qed
  ultimately show ?thesis by (simp add: up_ordered_def grand_ordered_def)
qed

lemma bubble_up_loop_spec:
  assumes "swHeap_bubble_up_loop h m i = (h', i')" "hole_wf h m i" "up_ordered h m i"
  shows "heap_same h h' \<and> hole_wf h' m i' \<and> up_ordered h' m i' \<and>
    (!) (hole_nodes h' m i') ` heap_cells h = (!) (hole_nodes h m i) ` heap_cells h \<and>
    (i' \<le> 1 \<or> heap_le (heap_type h') (priority (heap_node h' (heap_parent i'))) (prio h' m))"
  using assms
proof (induction h m i arbitrary: h' i' rule: swHeap_bubble_up_loop.induct)
  case (1 h m i)
  show ?case
  proof (cases "i > 1 \<and> swHeap_compare (heap_type h) (priority (heap_node h (heap_parent i))) (prio h m)")
    case True
    let ?k = "heap_parent i"
    let ?h1 = "heap_put h i (heap_nodes h ! ?k)"
    have k: "?k \<in> heap_cells h" "?k \<noteq> i"
      using True 1(3) heap_parent_less [of i] heap_parent_cell [of i h] by (auto simp: hole_wf_def)
    have "swHeap_bubble_up_loop ?h1 m ?k = (h', i')"
      using True 1(2) by (simp add: swHeap_bubble_up_loop.simps [of h m i])
    note IH = 1(1) [OF True this hole_wf_step(1) [OF 1(3) k] up_ordered_step [OF 1(3,4)]]
    show ?thesis
      using IH True hole_wf_step(2) [OF 1(3) k] heap_same_trans [OF heap_same_put] by auto
  next
    case False
    then have "h' = h" "i' = i"
      using 1(2) by (auto simp: swHeap_bubble_up_loop.simps [of h m i] split: if_splits)
    with False 1(3,4) show ?thesis by auto
  qed
qed

text \<open>The downward loop goes to the child that comes first in the order.\<close>

lemma maxchild_first:
  assumes "1 \<le> i" "j \<in> heap_cells h" "heap_parent j = i"
  shows "swHeap_maxchild h i \<noteq> 0 \<and>
    heap_le (heap_type h) (priority (heap_node h (swHeap_maxchild h i))) (priority (heap_node h j))"
proof -
  have "j = 2 * i \<or> j = 2 * i + 1" using assms(3) by (auto simp: heap_parent_def)
  with assms show ?thesis
    by (auto simp: swHeap_maxchild_def Let_def heap_left_def heap_cells_def dest: heap_le_total)
qed

lemma down_ordered_step:
  assumes wf: "hole_wf h m i" and down: "down_ordered h m i" and c: "c = swHeap_maxchild h i" "c \<noteq> 0"
    and cmp: "swHeap_compare (heap_type h) (prio h m) (priority (heap_node h c))"
  shows "down_ordered (heap_put h i (heap_nodes h ! c)) m c"
proof -
  let ?h' = "heap_put h i (heap_nodes h ! c)"
  let ?le = "heap_le (heap_type h)" and ?hp = "hole_prio h m i"
  have ic: "i < c" "c \<in> heap_cells h" "c \<noteq> i" "heap_parent c = i" and i: "1 \<le> i" "i < length (heap_nodes h)"
    using wf c swHeap_maxchild_bounds [of h i] by (auto simp: hole_wf_def heap_cells_def)
  have A: "?le (?hp (heap_parent j)) (?hp j)" if "j \<in> heap_cells h" "1 < j" "heap_parent j \<noteq> i" for j
    using down that by (simp add: down_ordered_def)
  have C: "?le (?hp c) (?hp i)"
    using compare_heap_le [OF cmp] i ic by (simp add: hole_prio_self hole_prio_other)
  have M: "?le (?hp c) (?hp j)" if "j \<in> heap_cells h" "heap_parent j = i" "j \<noteq> i" for j
    using maxchild_first [OF i(1) that(1,2)] that ic c by (simp add: hole_prio_other)
  have par: "heap_parent j \<noteq> j" if "1 < j" for j
    using heap_parent_less [OF that] by simp
  note hp' = hole_wf_step(3) [OF wf ic(2,3)]
  have "?le (hole_prio ?h' m c (heap_parent j)) (hole_prio ?h' m c j)"
    if j: "j \<in> heap_cells h" "1 < j" "heap_parent j \<noteq> c" for j
  proof (cases "j = c \<or> j = i \<or> heap_parent j = i")
    case True
    then consider "j = c" | "j = i" "j \<noteq> c" | "heap_parent j = i" "j \<noteq> c" "j \<noteq> i" by blast
    then show ?thesis
    proof cases
      case 1
      then show ?thesis using C ic by (simp add: hp')
    next
      case 2
      have "?le (?hp (heap_parent i)) (?hp c)"
        using down ic j 2 by (simp add: down_ordered_def grand_ordered_def)
      then show ?thesis using 2 j par [of i] by (simp add: hp')
    next
      case 3
      then show ?thesis using M [OF j(1)] ic by (simp add: hp')
    qed
  next
    case False
    then show ?thesis using A [OF j(1,2)] j by (simp add: hp')
  qed
  moreover have "?le (hole_prio ?h' m c (heap_parent c)) (hole_prio ?h' m c j)"
    if j: "j \<in> heap_cells h" "heap_parent j = c" for j
  proof -
    have "1 < j" "j \<noteq> c" "j \<noteq> i" using j ic i par [of j] by (auto simp: heap_parent_def)
    then show ?thesis using A [OF j(1)] j ic by (simp add: hp')
  qed
  ultimately show ?thesis by (simp add: down_ordered_def grand_ordered_def)
qed

lemma percolate_down_loop_spec:
  assumes "swHeap_percolate_down_loop h m i = (h', i')" "hole_wf h m i" "down_ordered h m i"
  shows "heap_same h h' \<and> hole_wf h' m i' \<and> down_ordered h' m i' \<and>
    (!) (hole_nodes h' m i') ` heap_cells h = (!) (hole_nodes h m i) ` heap_cells h \<and>
    (\<forall>j \<in> heap_cells h'. heap_parent j = i' \<longrightarrow>
       heap_le (heap_type h') (prio h' m) (priority (heap_node h' j)))"
  using assms
proof (induction h m i arbitrary: h' i' rule: swHeap_percolate_down_loop.induct)
  case (1 h m i)
  let ?c = "swHeap_maxchild h i"
  show ?case
  proof (cases "?c \<noteq> 0 \<and> swHeap_compare (heap_type h) (prio h m) (priority (heap_node h ?c))")
    case True
    let ?h1 = "heap_put h i (heap_nodes h ! ?c)"
    have c: "?c \<in> heap_cells h" "?c \<noteq> i"
      using True swHeap_maxchild_bounds [of h i] by (auto simp: heap_cells_def)
    have "swHeap_percolate_down_loop ?h1 m ?c = (h', i')"
      using True 1(2) by (simp add: swHeap_percolate_down_loop.simps [of h m i] Let_def)
    note IH = 1(1) [OF refl True this hole_wf_step(1) [OF 1(3) c] down_ordered_step [OF 1(3,4) refl]]
    show ?thesis
      using IH True hole_wf_step(2) [OF 1(3) c] heap_same_trans [OF heap_same_put] by auto
  next
    case False
    then have eq: "h' = h" "i' = i"
      using 1(2) by (auto simp: swHeap_percolate_down_loop.simps [of h m i] Let_def split: if_splits)
    have "heap_le (heap_type h) (prio h m) (priority (heap_node h j))"
      if "j \<in> heap_cells h" "heap_parent j = i" for j
    proof -
      have "1 \<le> i" using 1(3) by (simp add: hole_wf_def heap_cells_def)
      with that maxchild_first [of i j h] False show ?thesis
        by (auto intro: heap_le_trans)
    qed
    with eq 1(3,4) show ?thesis by simp
  qed
qed

text \<open>Putting the moving node into the hole ends both loops.\<close>

definition heap_box :: "'d swHeap \<Rightarrow> bool" where
  "heap_box h \<longleftrightarrow> 1 \<le> heap_num h \<and> heap_num h \<le> heap_size h \<and> heap_size h \<le> 2 ^ 31 \<and>
     length (heap_nodes h) = heap_size h \<and> NULL \<notin> heap_live h"

lemma heap_wf_box: "heap_wf h \<longleftrightarrow> heap_box h \<and> (\<forall>i \<in> heap_cells h. position (heap_node h i) = i)"
  by (auto simp: heap_wf_def heap_box_def)

lemma hole_fill:
  assumes wf: "hole_wf h m i"
  shows "\<forall>j \<in> heap_cells h. position (heap_node (heap_put h i m) j) = j"
    "heap_live (heap_put h i m) = (!) (hole_nodes h m i) ` heap_cells h"
    "\<And>j. priority (heap_node (heap_put h i m) j) = hole_prio h m i j"
proof -
  have i: "i \<in> heap_cells h" "i < length (heap_nodes h)"
    using wf by (auto simp: hole_wf_def heap_cells_def)
  have "heap_nodes h ! j \<noteq> m" if "j \<in> heap_cells h" "j \<noteq> i" for j
  proof
    assume "heap_nodes h ! j = m"
    then have "hole_nodes h m i ! j = hole_nodes h m i ! i"
      using i that by (simp add: hole_nodes_def)
    with wf i that show False by (auto simp: hole_wf_def dest: inj_onD)
  qed
  then show "\<forall>j \<in> heap_cells h. position (heap_node (heap_put h i m) j) = j"
    using wf i by (auto simp: hole_wf_def heap_node_def position_heap_put nth_list_update)
  show "heap_live (heap_put h i m) = (!) (hole_nodes h m i) ` heap_cells h"
    by (simp add: heap_live_def hole_nodes_def)
  show "priority (heap_node (heap_put h i m) j) = hole_prio h m i j" for j
    by (simp add: heap_node_def hole_prio_def hole_nodes_def)
qed

lemma heap_inv_fill:
  assumes box: "heap_box h0" and same: "heap_same h0 h" and wf: "hole_wf h m i"
    and live: "(!) (hole_nodes h m i) ` heap_cells h = heap_live h0"
    and ord: "\<forall>j \<in> heap_cells h. 1 < j \<longrightarrow>
      heap_le (heap_type h) (hole_prio h m i (heap_parent j)) (hole_prio h m i j)"
  shows "heap_inv (heap_put h i m) \<and> heap_live (heap_put h i m) = heap_live h0 \<and>
    heap_same h0 (heap_put h i m)"
proof -
  have "heap_ordered (heap_put h i m)"
    using ord by (simp add: heap_ordered_def hole_fill(3) [OF wf])
  moreover have "heap_wf (heap_put h i m)"
    using box same live hole_fill(1,2) [OF wf] by (simp add: heap_wf_box heap_box_def heap_same_def)
  moreover have "heap_same h0 (heap_put h i m)"
    using same by (rule heap_same_trans) simp
  ultimately show ?thesis
    using live hole_fill(2) [OF wf] by (simp add: heap_inv_def)
qed

lemma hole_nodes_self [simp]: "hole_nodes h (heap_nodes h ! i) i = heap_nodes h"
  by (simp add: hole_nodes_def)

lemma heap_same_cells: "heap_same h h' \<Longrightarrow> heap_cells h' = heap_cells h"
  by (simp add: heap_same_def heap_cells_def)

lemma bubble_up_spec:
  assumes "heap_box h" "hole_wf h (heap_nodes h ! i) i" "up_ordered h (heap_nodes h ! i) i"
  shows "heap_inv (swHeap_bubble_up h i) \<and> heap_live (swHeap_bubble_up h i) = heap_live h \<and>
    heap_same h (swHeap_bubble_up h i)"
proof -
  let ?m = "heap_nodes h ! i"
  obtain h' i' where eq: "swHeap_bubble_up_loop h ?m i = (h', i')" by fastforce
  note spec = bubble_up_loop_spec [OF eq assms(2,3)]
  then have i': "1 < i' \<Longrightarrow> heap_parent i' \<noteq> i'" "i' < length (heap_nodes h')"
    using heap_parent_less [of i'] by (auto simp: hole_wf_def heap_cells_def)
  have "heap_le (heap_type h') (hole_prio h' ?m i' (heap_parent j)) (hole_prio h' ?m i' j)"
    if "j \<in> heap_cells h'" "1 < j" for j
  proof (cases "j = i'")
    case True
    with spec i' that show ?thesis by (auto simp: hole_prio_self hole_prio_other)
  next
    case False
    with spec that show ?thesis by (simp add: up_ordered_def)
  qed
  moreover have "(!) (hole_nodes h' ?m i') ` heap_cells h' = heap_live h"
    using spec heap_same_cells [of h h'] by (simp add: heap_live_def)
  ultimately have "heap_inv (heap_put h' i' ?m) \<and> heap_live (heap_put h' i' ?m) = heap_live h \<and>
      heap_same h (heap_put h' i' ?m)"
    using spec by (intro heap_inv_fill [OF assms(1)]) auto
  then show ?thesis by (simp add: swHeap_bubble_up_def eq)
qed

lemma percolate_down_spec:
  assumes "heap_box h" "hole_wf h (heap_nodes h ! i) i" "down_ordered h (heap_nodes h ! i) i"
  shows "heap_inv (swHeap_percolate_down h i) \<and> heap_live (swHeap_percolate_down h i) = heap_live h \<and>
    heap_same h (swHeap_percolate_down h i)"
proof -
  let ?m = "heap_nodes h ! i"
  obtain h' i' where eq: "swHeap_percolate_down_loop h ?m i = (h', i')" by fastforce
  note spec = percolate_down_loop_spec [OF eq assms(2,3)]
  then have i': "i' < length (heap_nodes h')"
    by (auto simp: hole_wf_def heap_cells_def)
  have "heap_le (heap_type h') (hole_prio h' ?m i' (heap_parent j)) (hole_prio h' ?m i' j)"
    if "j \<in> heap_cells h'" "1 < j" for j
  proof (cases "heap_parent j = i'")
    case True
    with spec i' that heap_parent_less [of j] show ?thesis by (auto simp: hole_prio_self hole_prio_other)
  next
    case False
    with spec that show ?thesis by (simp add: down_ordered_def)
  qed
  moreover have "(!) (hole_nodes h' ?m i') ` heap_cells h' = heap_live h"
    using spec heap_same_cells [of h h'] by (simp add: heap_live_def)
  ultimately have "heap_inv (heap_put h' i' ?m) \<and> heap_live (heap_put h' i' ?m) = heap_live h \<and>
      heap_same h (heap_put h' i' ?m)"
    using spec by (intro heap_inv_fill [OF assms(1)]) auto
  then show ?thesis by (simp add: swHeap_percolate_down_def eq)
qed

section \<open>The operations\<close>

text \<open>The frame of the operations: priorities, data and kind of heap.\<close>

definition heap_keep :: "ptr set \<Rightarrow> 'd swHeap \<Rightarrow> 'd swHeap \<Rightarrow> bool" where
  "heap_keep P h h' \<longleftrightarrow> heap_type h' = heap_type h \<and>
     (\<forall>p \<in> P. prio h' p = prio h p \<and> data (heap_store h' p) = data (heap_store h p))"

lemma heap_same_keep: "heap_same h h' \<Longrightarrow> heap_keep P h h'"
  by (simp add: heap_same_def heap_keep_def)

lemma heap_inj:
  assumes "heap_wf h" "i \<in> heap_cells h" "j \<in> heap_cells h" "heap_nodes h ! i = heap_nodes h ! j"
  shows "i = j"
proof -
  have "position (heap_node h i) = i" "position (heap_node h j) = j"
    using assms by (simp_all add: heap_wf_def)
  with assms(4) show ?thesis by (simp add: heap_node_def)
qed

lemma heap_live_position:
  assumes "heap_wf h" "p \<in> heap_live h"
  shows "position (heap_store h p) \<in> heap_cells h" "heap_nodes h ! position (heap_store h p) = p"
  using assms by (auto simp: heap_live_def heap_wf_def heap_node_def)

lemma heap_root_first:
  assumes "heap_ordered h" "i \<in> heap_cells h"
  shows "heap_le (heap_type h) (priority (heap_node h 1)) (priority (heap_node h i))"
  using assms(2)
proof (induction i rule: less_induct)
  case (less i)
  show ?case
  proof (cases "1 < i")
    case True
    have "heap_le (heap_type h) (priority (heap_node h 1)) (priority (heap_node h (heap_parent i)))"
      using less heap_parent_less [OF True] heap_parent_cell [OF less.prems True] by blast
    also have "heap_le (heap_type h) \<dots> (priority (heap_node h i))"
      using assms(1) less.prems True by (simp add: heap_ordered_def)
    finally show ?thesis .
  next
    case False
    with less.prems have "i = 1" by (simp add: heap_cells_def)
    then show ?thesis by simp
  qed
qed

lemma hole_prio_full [simp]: "hole_prio h (heap_nodes h ! i) i j = priority (heap_node h j)"
  by (simp add: hole_prio_def heap_node_def)

text \<open>\<open>swHeap_push\<close> once the array has room.\<close>

lemma push_room:
  assumes inv: "heap_inv h" and room: "heap_num h < heap_size h" and p: "p \<noteq> NULL" "p \<notin> heap_live h"
    and h2: "h2 = h\<lparr>heap_num := heap_num h + 1, heap_nodes := (heap_nodes h)[heap_num h := p],
      heap_store := (heap_store h)(p := (heap_store h p)\<lparr>priority := pri, data := d\<rparr>)\<rparr>"
  shows "heap_inv (swHeap_bubble_up h2 (heap_num h))"
    "heap_live (swHeap_bubble_up h2 (heap_num h)) = insert p (heap_live h)"
    "heap_keep (- {p}) h (swHeap_bubble_up h2 (heap_num h))"
    "prio (swHeap_bubble_up h2 (heap_num h)) p = pri"
    "data (heap_store (swHeap_bubble_up h2 (heap_num h)) p) = d"
proof -
  let ?n = "heap_num h"
  from inv have wf: "heap_wf h" and ord: "heap_ordered h" by (simp_all add: heap_inv_def)
  then have base: "1 \<le> ?n" "length (heap_nodes h) = heap_size h" "heap_size h \<le> 2 ^ 31" "NULL \<notin> heap_live h"
    by (simp_all add: heap_wf_def)
  have cells: "heap_cells h2 = insert ?n (heap_cells h)" "?n \<notin> heap_cells h"
    using base by (auto simp: heap_cells_def h2)
  have nodes: "heap_nodes h2 ! ?n = p" "\<And>j. j \<in> heap_cells h \<Longrightarrow> heap_nodes h2 ! j = heap_nodes h ! j"
    using base room by (auto simp: h2 heap_cells_def)
  have old: "heap_nodes h ! j \<noteq> p" if "j \<in> heap_cells h" for j
    using p that by (auto simp: heap_live_def)
  have node: "heap_node h2 j = heap_node h j" if "j \<in> heap_cells h" for j
    using old [OF that] nodes(2) [OF that] by (simp add: heap_node_def h2)
  have live: "heap_live h2 = insert p (heap_live h)"
    using cells nodes by (auto simp: heap_live_def)
  have box: "heap_box h2"
    using base room p live by (simp add: heap_box_def h2)
  have "inj_on ((!) (heap_nodes h2)) (heap_cells h2)"
    using cells nodes old heap_inj [OF wf] by (auto simp: inj_on_def) metis+
  then have hole: "hole_wf h2 (heap_nodes h2 ! ?n) ?n"
    using cells node wf box by (auto simp: hole_wf_def heap_wf_def heap_box_def)
  have "up_ordered h2 (heap_nodes h2 ! ?n) ?n"
  proof -
    have "heap_parent j \<noteq> ?n" if "j \<in> heap_cells h2" for j
      using that base by (auto simp: heap_cells_def heap_parent_def h2)
    moreover have "heap_le (heap_type h2) (priority (heap_node h2 (heap_parent j))) (priority (heap_node h2 j))"
      if "j \<in> heap_cells h" "1 < j" for j
      using ord that node heap_parent_cell [OF that] by (simp add: heap_ordered_def h2)
    ultimately show ?thesis
      using cells by (auto simp: up_ordered_def grand_ordered_def)
  qed
  note spec = bubble_up_spec [OF box hole this]
  from spec live show "heap_inv (swHeap_bubble_up h2 ?n)"
    "heap_live (swHeap_bubble_up h2 ?n) = insert p (heap_live h)" by simp_all
  from spec have "heap_same h2 (swHeap_bubble_up h2 ?n)" by simp
  then show "heap_keep (- {p}) h (swHeap_bubble_up h2 ?n)" "prio (swHeap_bubble_up h2 ?n) p = pri"
    "data (heap_store (swHeap_bubble_up h2 ?n) p) = d"
    by (simp_all add: heap_same_def heap_keep_def h2)
qed

lemma grow_inv:
  assumes "heap_inv h" "length cells = heap_size h" "heap_size h \<le> 2 ^ 30"
  shows "heap_inv (h\<lparr>heap_nodes := heap_nodes h @ cells, heap_size := heap_size h * 2\<rparr>)"
    "heap_live (h\<lparr>heap_nodes := heap_nodes h @ cells, heap_size := heap_size h * 2\<rparr>) = heap_live h"
proof -
  let ?h = "h\<lparr>heap_nodes := heap_nodes h @ cells, heap_size := heap_size h * 2\<rparr>"
  have nth: "heap_nodes ?h ! j = heap_nodes h ! j" if "j \<in> heap_cells h" for j
    using assms that by (auto simp: heap_inv_def heap_wf_def heap_cells_def nth_append)
  have cells: "heap_cells ?h = heap_cells h" by (simp add: heap_cells_def)
  show live: "heap_live ?h = heap_live h" using nth by (simp add: heap_live_def cells)
  have node: "heap_node ?h j = heap_node h j" if "j \<in> heap_cells h" for j
    using nth [OF that] by (simp add: heap_node_def)
  show "heap_inv ?h"
    using assms live cells node heap_parent_cell [of _ h]
    by (auto simp: heap_inv_def heap_wf_def heap_ordered_def)
qed

text \<open>\<open>swHeap_remove\<close> and \<open>swHeap_pop\<close> shrink the heap by its last cell and move the node of that
  cell into the cell \<open>pos\<close> of the node that leaves.\<close>

definition heap_shrink :: "'d swHeap \<Rightarrow> nat \<Rightarrow> 'd swHeap" where
  "heap_shrink h pos = h\<lparr>heap_num := heap_num h - 1,
     heap_nodes := (heap_nodes h)[pos := heap_nodes h ! (heap_num h - 1)]\<rparr>"

lemma heap_shrink_fields [simp]:
  "heap_type (heap_shrink h pos) = heap_type h" "heap_store (heap_shrink h pos) = heap_store h"
  "heap_num (heap_shrink h pos) = heap_num h - 1" "heap_size (heap_shrink h pos) = heap_size h"
  "length (heap_nodes (heap_shrink h pos)) = length (heap_nodes h)"
  by (simp_all add: heap_shrink_def)

lemma shrink_last:
  assumes inv: "heap_inv h" and pos: "pos \<in> heap_cells h" "pos = heap_num h - 1"
  shows "heap_inv (swHeap_percolate_down (heap_shrink h pos) pos)"
    "heap_live (swHeap_percolate_down (heap_shrink h pos) pos) = heap_live h - {heap_nodes h ! pos}"
    "heap_keep P h (swHeap_percolate_down (heap_shrink h pos) pos)"
proof -
  let ?h1 = "heap_shrink h pos" and ?m = "heap_nodes h ! pos"
  from inv have wf: "heap_wf h" by (simp add: heap_inv_def)
  have h1: "?h1 = h\<lparr>heap_num := pos\<rparr>" using pos by (simp add: heap_shrink_def)
  have "swHeap_maxchild ?h1 pos = 0"
    using pos by (simp add: swHeap_maxchild_def h1 heap_left_def)
  then have "swHeap_percolate_down_loop ?h1 ?m pos = (?h1, pos)"
    by (subst swHeap_percolate_down_loop.simps) simp
  moreover have "heap_nodes ?h1 ! pos = ?m" by (simp add: h1)
  ultimately have res: "swHeap_percolate_down ?h1 pos = heap_put ?h1 pos ?m"
    by (simp add: swHeap_percolate_down_def)
  have cells: "heap_cells h = insert pos (heap_cells ?h1)" "pos \<notin> heap_cells ?h1"
    using pos by (auto simp: heap_cells_def h1)
  have other: "heap_nodes h ! j \<noteq> ?m" if "j \<in> heap_cells ?h1" for j
    using heap_inj [OF wf, of j pos] that cells pos by auto
  have node: "heap_node (heap_put ?h1 pos ?m) j = heap_node h j" if "j \<in> heap_cells ?h1" for j
    using other [OF that] cells that by (auto simp: heap_node_def h1 heap_put_def)
  have live: "heap_live (heap_put ?h1 pos ?m) = heap_live h - {?m}"
    using other cells by (auto simp: heap_live_def h1)
  have "heap_parent j \<in> heap_cells ?h1" if "j \<in> heap_cells ?h1" "1 < j" for j
    using heap_parent_cell [OF that] .
  then show "heap_inv (swHeap_percolate_down ?h1 pos)"
    using inv live node cells pos unfolding res
    by (auto simp: heap_inv_def heap_wf_def heap_ordered_def heap_cells_def h1)
  show "heap_live (swHeap_percolate_down ?h1 pos) = heap_live h - {?m}"
    using live by (simp add: res)
  show "heap_keep P h (swHeap_percolate_down ?h1 pos)"
    by (simp add: res heap_keep_def)
qed

lemma shrink_middle:
  assumes inv: "heap_inv h" and pos: "pos \<in> heap_cells h" "pos < heap_num h - 1"
  shows "heap_box (heap_shrink h pos)"
    "hole_wf (heap_shrink h pos) (heap_nodes (heap_shrink h pos) ! pos) pos"
    "heap_live (heap_shrink h pos) = heap_live h - {heap_nodes h ! pos}"
    "heap_node (heap_shrink h pos) pos = heap_node h (heap_num h - 1)"
    "\<And>j. j \<in> heap_cells (heap_shrink h pos) \<Longrightarrow> j \<noteq> pos \<Longrightarrow> heap_node (heap_shrink h pos) j = heap_node h j"
    "heap_cells (heap_shrink h pos) \<subseteq> heap_cells h"
proof -
  let ?h1 = "heap_shrink h pos" and ?n = "heap_num h - 1"
  from inv have wf: "heap_wf h" by (simp add: heap_inv_def)
  have base: "1 \<le> heap_num h" "heap_num h \<le> heap_size h" "length (heap_nodes h) = heap_size h"
      "heap_size h \<le> 2 ^ 31" "NULL \<notin> heap_live h"
    using wf by (simp_all add: heap_wf_def)
  have cells: "heap_cells h = insert ?n (heap_cells ?h1)" "?n \<notin> heap_cells ?h1" "pos \<in> heap_cells ?h1"
    using pos by (auto simp: heap_cells_def)
  have nodes: "heap_nodes ?h1 ! pos = heap_nodes h ! ?n"
      "\<And>j. j \<noteq> pos \<Longrightarrow> heap_nodes ?h1 ! j = heap_nodes h ! j"
    using pos base by (auto simp: heap_shrink_def heap_cells_def)
  have "heap_live ?h1 = insert (heap_nodes ?h1 ! pos) ((!) (heap_nodes ?h1) ` (heap_cells ?h1 - {pos}))"
    using cells(3) by (auto simp: heap_live_def)
  also have "(!) (heap_nodes ?h1) ` (heap_cells ?h1 - {pos}) = (!) (heap_nodes h) ` (heap_cells ?h1 - {pos})"
    using nodes(2) by (intro image_cong) auto
  finally have live: "heap_live ?h1 = (!) (heap_nodes h) ` insert ?n (heap_cells ?h1 - {pos})"
    by (simp add: nodes(1))
  have inj: "inj_on ((!) (heap_nodes h)) (heap_cells h)"
    using heap_inj [OF wf] by (auto simp: inj_on_def)
  have "heap_live h - {heap_nodes h ! pos} = (!) (heap_nodes h) ` (heap_cells h - {pos})"
    using inj pos by (auto simp: heap_live_def inj_on_def)
  also have "heap_cells h - {pos} = insert ?n (heap_cells ?h1 - {pos})"
    using cells pos by auto
  finally show live': "heap_live ?h1 = heap_live h - {heap_nodes h ! pos}"
    by (simp add: live)
  show box: "heap_box ?h1"
    using base live' pos by (auto simp: heap_box_def heap_shrink_def)
  show pn: "heap_node ?h1 pos = heap_node h ?n"
    using nodes by (simp add: heap_node_def)
  show node: "heap_node ?h1 j = heap_node h j" if "j \<in> heap_cells ?h1" "j \<noteq> pos" for j
    using nodes that by (simp add: heap_node_def)
  show sub: "heap_cells ?h1 \<subseteq> heap_cells h" using cells by auto
  have "inj_on ((!) (heap_nodes ?h1)) (heap_cells ?h1)"
  proof (rule inj_onI)
    fix i j assume ij: "i \<in> heap_cells ?h1" "j \<in> heap_cells ?h1" "heap_nodes ?h1 ! i = heap_nodes ?h1 ! j"
    define f where "f k = (if k = pos then ?n else k)" for k
    have "heap_nodes h ! f i = heap_nodes h ! f j"
      using ij nodes by (auto simp: f_def)
    moreover have "f i \<in> heap_cells h" "f j \<in> heap_cells h" using ij cells by (auto simp: f_def)
    ultimately have "f i = f j" using inj by (auto dest: inj_onD)
    with ij cells show "i = j" by (auto simp: f_def split: if_splits)
  qed
  then show "hole_wf ?h1 (heap_nodes ?h1 ! pos) pos"
    using cells node wf box by (auto simp: hole_wf_def heap_wf_def heap_box_def)
qed

text \<open>The node that moves either precedes the one that leaves, and the loop goes up, or it does
  not, and the loop goes down.\<close>

lemma heap_ordered_grand:
  assumes "heap_ordered h" "j \<in> heap_cells h" "heap_parent j = i" "1 < i"
  shows "heap_le (heap_type h) (priority (heap_node h (heap_parent i))) (priority (heap_node h i))"
    "heap_le (heap_type h) (priority (heap_node h i)) (priority (heap_node h j))"
proof -
  have j: "1 < j" using assms(3,4) by (cases "j \<le> 1") (auto simp: heap_parent_def)
  have i: "i \<in> heap_cells h" using heap_parent_cell [OF assms(2) j] assms(3) by simp
  show "heap_le (heap_type h) (priority (heap_node h (heap_parent i))) (priority (heap_node h i))"
    "heap_le (heap_type h) (priority (heap_node h i)) (priority (heap_node h j))"
    using assms i j by (auto simp: heap_ordered_def)
qed

lemma shrink_ordered:
  assumes inv: "heap_inv h" and pos: "pos \<in> heap_cells h" "pos < heap_num h - 1"
  defines "h1 \<equiv> heap_shrink h pos"
  shows "\<not> heap_le (heap_type h) (priority (heap_node h pos)) (priority (heap_node h1 pos)) \<Longrightarrow>
      up_ordered h1 (heap_nodes h1 ! pos) pos"
    "heap_le (heap_type h) (priority (heap_node h pos)) (priority (heap_node h1 pos)) \<Longrightarrow>
      down_ordered h1 (heap_nodes h1 ! pos) pos"
proof -
  note mid = shrink_middle [OF inv pos, folded h1_def]
  have ty: "heap_type h1 = heap_type h" by (simp add: h1_def)
  from inv have ord: "heap_ordered h" by (simp add: heap_inv_def)
  let ?le = "heap_le (heap_type h)" and ?p = "\<lambda>j. priority (heap_node h j)"
    and ?q = "\<lambda>j. priority (heap_node h1 j)"
  have edge: "?le (?p (heap_parent j)) (?p j)" if "j \<in> heap_cells h1" "1 < j" for j
    using ord that mid(6) by (auto simp: heap_ordered_def)
  have q: "?q j = ?p j" if "j \<in> heap_cells h1" "j \<noteq> pos" for j
    using mid(5) that by simp
  have up: "heap_parent j \<in> heap_cells h1" "heap_parent j \<noteq> j" if "j \<in> heap_cells h1" "1 < j" for j
    using heap_parent_cell [OF that] heap_parent_less [OF that(2)] by auto
  have grand: "grand_ordered h1 (heap_nodes h1 ! pos) pos"
    unfolding grand_ordered_def
  proof (intro ballI impI)
    fix j assume j: "j \<in> heap_cells h1" "1 < pos \<and> heap_parent j = pos"
    then have g: "?le (?p (heap_parent pos)) (?p pos)" "?le (?p pos) (?p j)"
      using heap_ordered_grand [OF ord, of j pos] mid(6) by auto
    have "pos \<in> heap_cells h1" using pos by (auto simp: heap_cells_def h1_def)
    moreover have "j \<noteq> pos" using j by (auto simp: heap_parent_def)
    ultimately have "?q (heap_parent pos) = ?p (heap_parent pos)" "?q j = ?p j"
      using j up [of pos] q by auto
    with g show "heap_le (heap_type h1) (hole_prio h1 (heap_nodes h1 ! pos) pos (heap_parent pos))
        (hole_prio h1 (heap_nodes h1 ! pos) pos j)"
      using heap_le_trans [OF g] by (simp add: ty)
  qed
  show "up_ordered h1 (heap_nodes h1 ! pos) pos" if "\<not> ?le (?p pos) (?q pos)"
  proof -
    have "?le (?q (heap_parent j)) (?q j)" if j: "j \<in> heap_cells h1" "1 < j" "j \<noteq> pos" for j
      using edge [OF j(1,2)] q j up [OF j(1,2)] heap_le_total [OF \<open>\<not> ?le (?p pos) (?q pos)\<close>]
        heap_le_trans [of _ "?q pos" "?p pos" "?p j"]
      by (cases "heap_parent j = pos") auto
    with grand show ?thesis by (simp add: up_ordered_def ty)
  qed
  show "down_ordered h1 (heap_nodes h1 ! pos) pos" if "?le (?p pos) (?q pos)"
  proof -
    have "?le (?q (heap_parent j)) (?q j)" if j: "j \<in> heap_cells h1" "1 < j" "heap_parent j \<noteq> pos" for j
      using edge [OF j(1,2)] q [of j] q [of "heap_parent j"] j up [OF j(1,2)]
        heap_le_trans [OF _ \<open>?le (?p pos) (?q pos)\<close>]
      by (cases "j = pos") auto
    with grand show ?thesis by (simp add: down_ordered_def ty)
  qed
qed

lemma shrink_down:
  assumes inv: "heap_inv h" and pos: "pos \<in> heap_cells h"
    and le: "heap_le (heap_type h) (priority (heap_node h pos)) (priority (heap_node h (heap_num h - 1)))"
  shows "heap_inv (swHeap_percolate_down (heap_shrink h pos) pos)"
    "heap_live (swHeap_percolate_down (heap_shrink h pos) pos) = heap_live h - {heap_nodes h ! pos}"
    "heap_keep P h (swHeap_percolate_down (heap_shrink h pos) pos)"
proof -
  let ?h' = "swHeap_percolate_down (heap_shrink h pos) pos"
  have "pos = heap_num h - 1 \<or> pos < heap_num h - 1"
    using pos by (auto simp: heap_cells_def)
  then consider "pos = heap_num h - 1" | "pos < heap_num h - 1" by blast
  then have "heap_inv ?h' \<and> heap_live ?h' = heap_live h - {heap_nodes h ! pos} \<and> heap_keep P h ?h'"
  proof cases
    case 1
    then show ?thesis using shrink_last [OF inv pos] by simp
  next
    case 2
    note mid = shrink_middle [OF inv pos 2]
    have "down_ordered (heap_shrink h pos) (heap_nodes (heap_shrink h pos) ! pos) pos"
      using shrink_ordered(2) [OF inv pos 2] mid(4) le by simp
    from percolate_down_spec [OF mid(1,2) this] mid(3) show ?thesis
      by (auto simp: heap_same_def heap_keep_def)
  qed
  then show "heap_inv ?h'" "heap_live ?h' = heap_live h - {heap_nodes h ! pos}" "heap_keep P h ?h'"
    by simp_all
qed

lemma remove_spec:
  assumes inv: "heap_inv h" and p: "p \<in> heap_live h"
  shows "heap_inv (fst (swHeap_remove h p))"
    "heap_live (fst (swHeap_remove h p)) = heap_live h - {p}"
    "heap_keep P h (fst (swHeap_remove h p))"
proof -
  define pos where "pos = position (heap_store h p)"
  let ?h1 = "heap_shrink h pos" and ?n = "heap_num h - 1" and ?h' = "fst (swHeap_remove h p)"
  from inv have wf: "heap_wf h" by (simp add: heap_inv_def)
  have pos: "pos \<in> heap_cells h" "heap_nodes h ! pos = p"
    using heap_live_position [OF wf p] by (simp_all add: pos_def)
  then have node: "heap_node h pos = heap_store h p" by (simp add: heap_node_def)
  have pn: "heap_node ?h1 pos = heap_node h ?n"
    using pos wf by (auto simp: heap_node_def heap_shrink_def heap_cells_def heap_wf_def)
  have eq: "?h' = (if swHeap_compare (heap_type h) (prio h p) (priority (heap_node h ?n))
      then swHeap_bubble_up ?h1 pos else swHeap_percolate_down ?h1 pos)"
    using pn by (simp add: swHeap_remove_def heap_shrink_def Let_def pos_def)
  have "heap_inv ?h' \<and> heap_live ?h' = heap_live h - {p} \<and> heap_keep P h ?h'"
  proof (cases "heap_le (heap_type h) (prio h p) (priority (heap_node h ?n))")
    case True
    then show ?thesis using shrink_down [OF inv pos(1)] node pos(2) by (simp add: eq)
  next
    case False
    then have lt: "pos < ?n"
      using pos node by (cases "pos = ?n") (auto simp: heap_cells_def)
    note mid = shrink_middle [OF inv pos(1) lt]
    have "up_ordered ?h1 (heap_nodes ?h1 ! pos) pos"
      using shrink_ordered(1) [OF inv pos(1) lt] mid(4) False node by simp
    from bubble_up_spec [OF mid(1,2) this] mid(3) False pos show ?thesis
      by (auto simp: eq heap_same_def heap_keep_def)
  qed
  then show "heap_inv ?h'" "heap_live ?h' = heap_live h - {p}" "heap_keep P h ?h'" by simp_all
qed

lemma pop_spec:
  assumes inv: "heap_inv h" and ne: "heap_num h \<noteq> 1"
  shows "swHeap_pop h = (swHeap_percolate_down (heap_shrink h 1) 1, Some (data (heap_node h 1)))"
    "heap_nodes h ! 1 \<in> heap_live h"
    "heap_inv (fst (swHeap_pop h))"
    "heap_live (fst (swHeap_pop h)) = heap_live h - {heap_nodes h ! 1}"
    "heap_keep P h (fst (swHeap_pop h))"
proof -
  from inv ne have cell: "1 \<in> heap_cells h" "heap_num h - 1 \<in> heap_cells h"
    by (auto simp: heap_cells_def heap_inv_def heap_wf_def)
  show eq: "swHeap_pop h = (swHeap_percolate_down (heap_shrink h 1) 1, Some (data (heap_node h 1)))"
    using ne by (simp add: swHeap_pop_def heap_shrink_def heap_node_def Let_def)
  have "heap_le (heap_type h) (priority (heap_node h 1)) (priority (heap_node h (heap_num h - 1)))"
    using inv cell by (intro heap_root_first) (auto simp: heap_inv_def)
  note down = shrink_down [OF inv cell(1) this]
  show "heap_inv (fst (swHeap_pop h))" "heap_live (fst (swHeap_pop h)) = heap_live h - {heap_nodes h ! 1}"
    "heap_keep P h (fst (swHeap_pop h))"
    using down by (simp_all add: eq)
  show "heap_nodes h ! 1 \<in> heap_live h" using cell(1) by (auto simp: heap_live_def)
qed

definition heap_reprio :: "'d swHeap \<Rightarrow> ptr \<Rightarrow> u64 \<Rightarrow> 'd swHeap" where
  "heap_reprio h p k = h\<lparr>heap_store := (heap_store h)(p := (heap_store h p)\<lparr>priority := k\<rparr>)\<rparr>"

lemma heap_reprio_fields [simp]:
  "heap_num (heap_reprio h p k) = heap_num h" "heap_size (heap_reprio h p k) = heap_size h"
  "heap_nodes (heap_reprio h p k) = heap_nodes h" "heap_type (heap_reprio h p k) = heap_type h"
  "heap_cells (heap_reprio h p k) = heap_cells h" "heap_live (heap_reprio h p k) = heap_live h"
  "position (heap_store (heap_reprio h p k) q) = position (heap_store h q)"
  "data (heap_store (heap_reprio h p k) q) = data (heap_store h q)"
  "prio (heap_reprio h p k) q = (if q = p then k else prio h q)"
  by (simp_all add: heap_reprio_def heap_cells_def heap_live_def)

lemma heap_node_reprio:
  assumes "heap_wf h" "pos \<in> heap_cells h" "j \<in> heap_cells h"
  shows "priority (heap_node (heap_reprio h (heap_nodes h ! pos) k) j) =
    (if j = pos then k else priority (heap_node h j))"
  using heap_inj [OF assms(1,3,2)] by (auto simp: heap_node_def)

lemma reprio_hole:
  fixes h :: "'d swHeap" and k :: u64
  assumes wf: "heap_wf h" and ord: "heap_ordered h" and pos: "pos \<in> heap_cells h"
  defines "h1 \<equiv> heap_reprio h (heap_nodes h ! pos) k"
  shows "heap_box h1" "hole_wf h1 (heap_nodes h1 ! pos) pos"
    "grand_ordered h1 (heap_nodes h1 ! pos) pos"
proof -
  show "heap_box h1" using wf by (simp add: heap_wf_box heap_box_def h1_def)
  have "inj_on ((!) (heap_nodes h)) (heap_cells h)" by (rule inj_onI) (rule heap_inj [OF wf])
  then show "hole_wf h1 (heap_nodes h1 ! pos) pos"
    using wf pos unfolding hole_wf_def hole_nodes_self by (simp add: heap_wf_def h1_def heap_node_def)
  show "grand_ordered h1 (heap_nodes h1 ! pos) pos"
    unfolding grand_ordered_def
  proof (intro ballI impI)
    fix j assume j: "j \<in> heap_cells h1" "1 < pos \<and> heap_parent j = pos"
    then have "j \<in> heap_cells h" "j \<noteq> pos" "heap_parent pos \<in> heap_cells h" "heap_parent pos \<noteq> pos"
      using heap_parent_cell [OF pos] heap_parent_less [of pos] by (auto simp: heap_parent_def h1_def)
    then show "heap_le (heap_type h1) (hole_prio h1 (heap_nodes h1 ! pos) pos (heap_parent pos))
        (hole_prio h1 (heap_nodes h1 ! pos) pos j)"
      using j heap_le_trans [OF heap_ordered_grand [OF ord, of j pos]] heap_node_reprio [OF wf pos]
      unfolding hole_prio_full by (simp add: h1_def)
  qed
qed

lemma reprio_down:
  fixes h :: "'d swHeap" and k :: u64
  assumes wf: "heap_wf h" and ord: "heap_ordered h" and pos: "pos \<in> heap_cells h"
    and le: "heap_le (heap_type h) (priority (heap_node h pos)) k"
  defines "h1 \<equiv> heap_reprio h (heap_nodes h ! pos) k"
  shows "down_ordered h1 (heap_nodes h1 ! pos) pos"
proof -
  have "heap_le (heap_type h) (priority (heap_node h1 (heap_parent j))) (priority (heap_node h1 j))"
    if j: "j \<in> heap_cells h" "1 < j" "heap_parent j \<noteq> pos" for j
  proof -
    have "heap_le (heap_type h) (priority (heap_node h (heap_parent j))) (priority (heap_node h j))"
      using ord j by (simp add: heap_ordered_def)
    also have "heap_le (heap_type h) (priority (heap_node h j)) (priority (heap_node h1 j))"
      using le heap_node_reprio [OF wf pos j(1)] by (simp add: h1_def)
    finally show ?thesis
      using j heap_node_reprio [OF wf pos heap_parent_cell [OF j(1,2)]] by (simp add: h1_def)
  qed
  with reprio_hole(3) [OF wf ord pos, of k] show ?thesis
    unfolding down_ordered_def hole_prio_full by (simp add: h1_def)
qed

lemma reprio_up:
  fixes h :: "'d swHeap" and k :: u64
  assumes wf: "heap_wf h" and ord: "heap_ordered h" and pos: "pos \<in> heap_cells h"
    and le: "heap_le (heap_type h) k (priority (heap_node h pos))"
  defines "h1 \<equiv> heap_reprio h (heap_nodes h ! pos) k"
  shows "up_ordered h1 (heap_nodes h1 ! pos) pos"
proof -
  have "heap_le (heap_type h) (priority (heap_node h1 (heap_parent j))) (priority (heap_node h1 j))"
    if j: "j \<in> heap_cells h" "1 < j" "j \<noteq> pos" for j
  proof -
    have "heap_le (heap_type h) (priority (heap_node h1 (heap_parent j)))
        (priority (heap_node h (heap_parent j)))"
      using le heap_node_reprio [OF wf pos heap_parent_cell [OF j(1,2)]] by (simp add: h1_def)
    also have "heap_le (heap_type h) (priority (heap_node h (heap_parent j))) (priority (heap_node h j))"
      using ord j by (simp add: heap_ordered_def)
    finally show ?thesis using j heap_node_reprio [OF wf pos j(1)] by (simp add: h1_def)
  qed
  with reprio_hole(3) [OF wf ord pos, of k] show ?thesis
    unfolding up_ordered_def hole_prio_full by (simp add: h1_def)
qed

lemma change_priority_spec:
  fixes h :: "'d swHeap" and k :: u64
  assumes inv: "heap_inv h" and p: "p \<in> heap_live h"
  shows "heap_inv (swHeap_change_priority h k p) \<and>
    heap_live (swHeap_change_priority h k p) = heap_live h \<and>
    heap_same (heap_reprio h p k) (swHeap_change_priority h k p)"
proof -
  define pos where "pos = position (heap_store h p)"
  from inv have wf: "heap_wf h" and ord: "heap_ordered h" by (simp_all add: heap_inv_def)
  have pos: "pos \<in> heap_cells h" "heap_nodes h ! pos = p"
    using heap_live_position [OF wf p] by (simp_all add: pos_def)
  note hole = reprio_hole [OF wf ord pos(1), of k]
  have eq: "swHeap_change_priority h k p = (if heap_le (heap_type h) (prio h p) k
      then swHeap_percolate_down (heap_reprio h p k) pos else swHeap_bubble_up (heap_reprio h p k) pos)"
    by (simp add: swHeap_change_priority_def pos_def heap_reprio_def Let_def)
  show ?thesis
  proof (cases "heap_le (heap_type h) (prio h p) k")
    case True
    with percolate_down_spec [OF hole(1,2) reprio_down [OF wf ord pos(1)]]
    show ?thesis by (simp add: eq pos heap_node_def)
  next
    case False
    with bubble_up_spec [OF hole(1,2) reprio_up [OF wf ord pos(1)]] heap_le_total [OF False]
    show ?thesis by (simp add: eq pos heap_node_def)
  qed
qed

section \<open>Properties\<close>

lemma new_spec:
  assumes "n + 1 \<le> 2 ^ 31" "length cells = n + 1"
  shows "\<exists>h. swHeap_new n ty True (Some cells) st = Some h \<and> heap_inv h \<and> heap_live h = {} \<and>
    heap_type h = ty \<and> swHeap_size h = 0"
  using assms by (simp add: swHeap_new_def heap_inv_def heap_wf_def heap_ordered_def heap_live_def
      heap_cells_def swHeap_size_def)

lemma size_live:
  assumes "heap_inv h"
  shows "finite (heap_live h)" "card (heap_live h) = swHeap_size h"
proof -
  have "inj_on ((!) (heap_nodes h)) (heap_cells h)"
    using assms by (intro inj_onI) (auto simp: heap_inv_def intro: heap_inj)
  then show "finite (heap_live h)" "card (heap_live h) = swHeap_size h"
    by (simp_all add: heap_live_def card_image) (simp_all add: heap_cells_def swHeap_size_def)
qed

lemma top_spec:
  assumes inv: "heap_inv h"
  shows "swHeap_top h = None \<longleftrightarrow> heap_live h = {}"
    "swHeap_top h = Some p \<Longrightarrow> p \<in> heap_live h"
    "swHeap_top h = Some p \<Longrightarrow> q \<in> heap_live h \<Longrightarrow> heap_le (heap_type h) (prio h p) (prio h q)"
    "swHeap_top h = Some p \<Longrightarrow> heap_num h \<noteq> 1 \<and> heap_nodes h ! 1 = p"
proof -
  from inv have num: "1 \<le> heap_num h" by (simp add: heap_inv_def heap_wf_def)
  show "swHeap_top h = None \<longleftrightarrow> heap_live h = {}"
    using num by (auto simp: swHeap_top_def heap_live_def heap_cells_def)
  assume top: "swHeap_top h = Some p"
  then show eq: "heap_num h \<noteq> 1 \<and> heap_nodes h ! 1 = p" by (simp add: swHeap_top_def split: if_splits)
  then show "p \<in> heap_live h" using pop_spec(2) [OF inv] by auto
  assume "q \<in> heap_live h"
  then obtain i where "i \<in> heap_cells h" "q = heap_nodes h ! i" by (auto simp: heap_live_def)
  then show "heap_le (heap_type h) (prio h p) (prio h q)"
    using heap_root_first [of h i] inv eq by (simp add: heap_inv_def heap_node_def)
qed

lemma push_spec:
  assumes inv: "heap_inv h" and mem: "p \<noteq> NULL" "p \<notin> heap_live h"
    and room: "heap_num h < heap_size h \<or>
      extra = Some cells \<and> length cells = heap_size h \<and> heap_size h \<le> 2 ^ 30"
  shows "\<exists>h'. swHeap_push h pri d extra (Some p) = (h', Some p) \<and> heap_inv h' \<and>
    heap_live h' = insert p (heap_live h) \<and> heap_keep (- {p}) h h' \<and> prio h' p = pri \<and>
    data (heap_store h' p) = d"
proof (cases "heap_num h < heap_size h")
  case True
  from push_room [OF inv True mem refl] True show ?thesis
    by (simp add: swHeap_push_def Let_def)
next
  case False
  with room have ex: "extra = Some cells" "length cells = heap_size h" "heap_size h \<le> 2 ^ 30" by auto
  from inv have len: "length (heap_nodes h) = heap_size h" "1 \<le> heap_num h" "heap_num h \<le> heap_size h"
    by (simp_all add: heap_inv_def heap_wf_def)
  let ?g = "h\<lparr>heap_nodes := heap_nodes h @ cells, heap_size := heap_size h * 2\<rparr>"
  have "heap_num ?g < heap_size ?g" using False len by simp
  note g = push_room [OF grow_inv(1) [OF inv ex(2,3)] this mem(1) _ refl, where pri = pri and d = d]
  have size: "(heap_size h * 2) mod 2 ^ 32 = heap_size h * 2" using ex(3) by simp
  from g False len size ex show ?thesis
    using grow_inv(2) [OF inv ex(2,3)] mem(2)
    by (simp add: swHeap_push_def Let_def size heap_keep_def)
qed

definition min_heap :: "'d swHeap \<Rightarrow> bool" where
  "min_heap h \<longleftrightarrow> heap_inv h \<and> heap_type h = SW_MIN_HEAP"

lemma heap_le_min: "heap_le SW_MIN_HEAP a b \<longleftrightarrow> a \<le> b"
  by (simp add: heap_le_def swHeap_compare_def not_less del: compare_iff)

interpretation sq: prio_queue min_heap heap_live "\<lambda>h p. prio h p" "\<lambda>h p. data (heap_store h p)"
  swHeap_top "\<lambda>h. fst (swHeap_pop h)" swHeap_change_priority "\<lambda>h p. fst (swHeap_remove h p)"
proof
  fix q :: "'d swHeap" and p g :: ptr and k :: u64
  assume "min_heap q"
  then have inv: "heap_inv q" and ty: "heap_type q = SW_MIN_HEAP" by (simp_all add: min_heap_def)
  show "finite (heap_live q)" using inv by (rule size_live)
  show "swHeap_top q = None \<longleftrightarrow> heap_live q = {}" using inv by (rule top_spec)
  { assume top: "swHeap_top q = Some p"
    show "p \<in> heap_live q" using inv top by (rule top_spec)
    show "prio q p \<le> prio q g" if "g \<in> heap_live q"
      using top_spec(3) [OF inv top that] ty by (simp add: heap_le_min)
    have ne: "heap_num q \<noteq> 1" and at: "heap_nodes q ! 1 = p" using top_spec(4) [OF inv top] by auto
    note pop = pop_spec(3,4) [OF inv ne] pop_spec(5) [OF inv ne, of UNIV]
    show "min_heap (fst (swHeap_pop q))" using pop ty by (simp add: min_heap_def heap_keep_def)
    show "heap_live (fst (swHeap_pop q)) = heap_live q - {p}" using pop at by simp
    show "prio (fst (swHeap_pop q)) g = prio q g"
      "data (heap_store (fst (swHeap_pop q)) g) = data (heap_store q g)"
      using pop by (simp_all add: heap_keep_def) }
  { assume p: "p \<in> heap_live q"
    note ch = change_priority_spec [OF inv p, of k]
    show "min_heap (swHeap_change_priority q k p)" using ch ty by (simp add: min_heap_def heap_same_def)
    show "heap_live (swHeap_change_priority q k p) = heap_live q" using ch by simp
    show "prio (swHeap_change_priority q k p) g = (if g = p then k else prio q g)"
      "data (heap_store (swHeap_change_priority q k p) g) = data (heap_store q g)"
      using ch by (simp_all add: heap_same_def)
    note rm = remove_spec(1,2) [OF inv p] remove_spec(3) [OF inv p, of UNIV]
    show "min_heap (fst (swHeap_remove q p))" using rm ty by (simp add: min_heap_def heap_keep_def)
    show "heap_live (fst (swHeap_remove q p)) = heap_live q - {p}" using rm by simp
    show "prio (fst (swHeap_remove q p)) g = prio q g"
      "data (heap_store (fst (swHeap_remove q p)) g) = data (heap_store q g)"
      using rm by (simp_all add: heap_keep_def) }
qed

text \<open>A heap of two nodes for the concrete instances below.\<close>

definition heap_demo :: "nat swHeap" where
  "heap_demo = \<lparr>heap_num = 3, heap_size = 4, heap_type = SW_MIN_HEAP, heap_nodes = [0, 16, 32, 0],
     heap_store = (\<lambda>p. if p = 16 then \<lparr>priority = 5, position = 1, data = 100\<rparr>
       else \<lparr>priority = 7, position = 2, data = 200\<rparr>)\<rparr>"

lemma heap_demo_cells: "heap_cells heap_demo = {1, 2}"
  by (auto simp: heap_cells_def heap_demo_def)

lemma heap_demo_inv: "heap_inv heap_demo"
  unfolding heap_inv_def heap_wf_def heap_ordered_def heap_live_def heap_demo_cells
  by (simp add: heap_node_def heap_parent_def heap_le_def swHeap_compare_def heap_demo_def
      del: compare_iff)

lemma heap_demo_live: "heap_live heap_demo = {16, 32}"
  unfolding heap_live_def heap_demo_cells by (simp add: heap_demo_def)

text \<open>C1. \<open>swHeap_pop\<close> on a heap that satisfies the invariant: an empty heap gives nothing and
  stays as it is; otherwise the data returned is that of a live node no live node precedes, the
  result satisfies the invariant, exactly that node has left, and no other priority, data or the
  kind of heap has changed.\<close>

theorem swHeap_pop_correct:
  assumes "heap_inv h"
  shows "case swHeap_pop h of
      (h', None) \<Rightarrow> h' = h \<and> heap_live h = {}
    | (h', Some d) \<Rightarrow> (\<exists>p. p \<in> heap_live h \<and> data (heap_store h p) = d \<and>
        (\<forall>q \<in> heap_live h. heap_le (heap_type h) (prio h p) (prio h q)) \<and>
        heap_inv h' \<and> heap_live h' = heap_live h - {p} \<and> heap_keep UNIV h h')"
proof (cases "heap_num h = 1")
  case True
  then show ?thesis by (simp add: swHeap_pop_def heap_live_def heap_cells_def)
next
  case False
  then have top: "swHeap_top h = Some (heap_nodes h ! 1)" by (simp add: swHeap_top_def)
  note pop = pop_spec(1-4) [OF assms False] pop_spec(5) [OF assms False, of UNIV]
  obtain h' where h': "swHeap_pop h = (h', Some (data (heap_store h (heap_nodes h ! 1))))"
    using pop(1) by (simp add: heap_node_def)
  have "\<forall>q \<in> heap_live h. heap_le (heap_type h) (prio h (heap_nodes h ! 1)) (prio h q)"
    using top_spec(3) [OF assms top] by blast
  with pop(2-5) show ?thesis by (auto simp: h')
qed

theorem swHeap_pop_correct_witness:
  "heap_inv heap_demo \<and> (\<exists>h'. swHeap_pop heap_demo = (h', Some 100) \<and> heap_inv h')"
  using swHeap_pop_correct [OF heap_demo_inv] heap_demo_inv
  by (auto simp: swHeap_pop_def heap_demo_def Let_def split: prod.splits)

text \<open>C2. \<open>swHeap_push\<close> with memory for the node, and for the larger array when it is full, adds
  exactly the new node with its priority and data, keeps the invariant and every other node, and
  returns the node. The wrap-around of the doubled size cannot occur up to \<open>2 ^ 30\<close> cells.\<close>

theorem swHeap_push_correct:
  assumes "heap_inv h" and "p \<noteq> NULL" and "p \<notin> heap_live h"
    and "heap_num h < heap_size h \<or>
      extra = Some cells \<and> length cells = heap_size h \<and> heap_size h \<le> 2 ^ 30"
  shows "\<exists>h'. swHeap_push h pri d extra (Some p) = (h', Some p) \<and> heap_inv h' \<and>
    heap_live h' = insert p (heap_live h) \<and> swHeap_size h' = swHeap_size h + 1 \<and>
    heap_keep (- {p}) h h' \<and> prio h' p = pri \<and> data (heap_store h' p) = d"
proof -
  obtain h' where h': "swHeap_push h pri d extra (Some p) = (h', Some p)" "heap_inv h'"
    "heap_live h' = insert p (heap_live h)" "heap_keep (- {p}) h h'" "prio h' p = pri"
    "data (heap_store h' p) = d"
    using push_spec [OF assms] by blast
  then have "swHeap_size h' = swHeap_size h + 1"
    using size_live [OF assms(1)] size_live(2) [OF h'(2)] assms(3) by simp
  with h' show ?thesis by blast
qed

theorem swHeap_push_correct_witness:
  "\<exists>h'. swHeap_push heap_demo 6 300 None (Some 48) = (h', Some 48) \<and> heap_inv h' \<and>
    heap_live h' = {16, 32, 48} \<and> prio h' 48 = 6"
proof -
  have "48 \<notin> heap_live heap_demo" "heap_num heap_demo < heap_size heap_demo"
    by (simp_all add: heap_demo_live) (simp add: heap_demo_def)
  with swHeap_push_correct [OF heap_demo_inv, of 48 None "[]" 6 300] show ?thesis
    by (auto simp: heap_demo_live)
qed

text \<open>C3. \<open>swHeap_remove\<close> takes exactly the given live node out of the heap, wherever it stands,
  keeps the invariant and returns \<open>SW_OK\<close>.\<close>

theorem swHeap_remove_correct:
  assumes "heap_inv h" and "p \<in> heap_live h"
  shows "\<exists>h'. swHeap_remove h p = (h', SW_OK) \<and> heap_inv h' \<and> heap_live h' = heap_live h - {p} \<and>
    heap_keep UNIV h h'"
proof -
  have "snd (swHeap_remove h p) = SW_OK" by (simp add: swHeap_remove_def Let_def)
  with remove_spec [OF assms] show ?thesis by (metis prod.collapse)
qed

theorem swHeap_remove_correct_witness:
  "\<exists>h'. swHeap_remove heap_demo 16 = (h', SW_OK) \<and> heap_inv h' \<and> heap_live h' = {32}"
  using swHeap_remove_correct [OF heap_demo_inv, of 16] by (auto simp: heap_demo_live)

text \<open>C4. \<open>swHeap_change_priority\<close> gives a live node its new priority, whichever way it moves: the
  invariant holds again, the live nodes are the same and no other priority or data changes.\<close>

theorem swHeap_change_priority_correct:
  assumes "heap_inv h" and "p \<in> heap_live h"
  shows "heap_inv (swHeap_change_priority h k p) \<and>
    heap_live (swHeap_change_priority h k p) = heap_live h \<and>
    (\<forall>q. prio (swHeap_change_priority h k p) q = (if q = p then k else prio h q) \<and>
      data (heap_store (swHeap_change_priority h k p) q) = data (heap_store h q))"
  using change_priority_spec [OF assms, of k] by (auto simp: heap_same_def)

theorem swHeap_change_priority_correct_witness:
  "heap_inv (swHeap_change_priority heap_demo 9 16) \<and> prio (swHeap_change_priority heap_demo 9 16) 16 = 9 \<and>
   heap_live (swHeap_change_priority heap_demo 9 16) = {16, 32}"
  using swHeap_change_priority_correct [OF heap_demo_inv, of 16 9] by (simp add: heap_demo_live)

end
