(* ===== verification/Sw_Timer.thy ===== *)
theory Sw_Timer
  imports Sw_Heap "HOL-Library.Signed_Division"
begin

text \<open>
  The timers of \<open>src/network/Timer.c\<close>: a min heap of pointers to timer nodes, ordered by the
  millisecond at which each is to run. Clock readings are an argument: \<open>clock k\<close> is the answer
  of the \<open>k\<close>-th call of \<open>gettimeofday\<close> (\<open>None\<close> when it fails), and the state counts the calls.
  The user callbacks \<open>onTick\<close> and \<open>onAfter\<close> are functions on the whole timer state.
  The timer is the one of a process with a reactor: \<open>timer->set\<close> is \<open>swReactorTimer_set\<close>.
  Times are mathematical integers; the properties bound them by \<open>2 ^ 63\<close>, the range of
  \<open>int64_t\<close>.
\<close>

section \<open>Data\<close>

record swTimer_node =
  tn_heap_node :: ptr
  tn_data :: ptr
  exec_msec :: int
  interval :: nat
  tn_id :: int
  tn_remove :: bool
  php_used :: nat

type_synonym timeval = "int \<times> int"
type_synonym clock = "nat \<Rightarrow> timeval option"

record swTimer =
  tm_heap :: "ptr swHeap"
  tm_nodes :: "ptr \<Rightarrow> swTimer_node"
  tm_num :: int
  tm_fd :: int
  tm_next_id :: int
  tm_current_id :: int
  tm_next_msec :: int
  tm_basetime :: timeval
  tm_check_timer :: bool
  tm_timeout_msec :: int
  tm_reads :: nat

section \<open>Operations\<close>

definition swTimer_get_relative_msec :: "clock \<Rightarrow> swTimer \<Rightarrow> int \<times> swTimer" where
  "swTimer_get_relative_msec clock t =
     (let t' = t\<lparr>tm_reads := tm_reads t + 1\<rparr> in
      case clock (tm_reads t) of
        None \<Rightarrow> (SW_ERR, t')
      | Some (sec, usec) \<Rightarrow>
          let msec1 = (sec - fst (tm_basetime t)) * 1000;
              msec2 = (usec - snd (tm_basetime t)) sdiv 1000
          in (msec1 + msec2, t'))"

definition swReactorTimer_init :: "int \<Rightarrow> swTimer \<Rightarrow> swTimer" where
  "swReactorTimer_init msec t = t\<lparr>tm_check_timer := True, tm_timeout_msec := msec, tm_fd := -1\<rparr>"

definition swReactorTimer_set :: "swTimer \<Rightarrow> int \<Rightarrow> swTimer" where
  "swReactorTimer_set t msec = t\<lparr>tm_timeout_msec := msec\<rparr>"

text \<open>\<open>swTimer_init\<close>: \<open>barred\<close> is the test for a started server's master or manager process,
  \<open>task\<close> the test for a task worker, which takes its timer from the operating system
  (\<open>system_init\<close>); \<open>ok\<close> and \<open>blk\<close> answer the allocations of \<open>swHeap_new\<close>.\<close>

definition swTimer_init ::
  "int \<Rightarrow> bool \<Rightarrow> bool \<Rightarrow> (int \<Rightarrow> swTimer \<Rightarrow> swTimer) \<Rightarrow> clock \<Rightarrow> bool \<Rightarrow> ptr list option \<Rightarrow>
   swTimer \<Rightarrow> swTimer \<times> int" where
  "swTimer_init msec barred task system_init clock ok blk t =
     (if barred then (t, SW_ERR)
      else case clock (tm_reads t) of
        None \<Rightarrow> (t\<lparr>tm_reads := tm_reads t + 1\<rparr>, SW_ERR)
      | Some base \<Rightarrow>
          let t1 = t\<lparr>tm_reads := tm_reads t + 1, tm_basetime := base, tm_current_id := -1,
                tm_next_msec := msec, tm_next_id := 1\<rparr>
          in case swHeap_new 1024 SW_MIN_HEAP ok blk (heap_store (tm_heap t)) of
            None \<Rightarrow> (t1, SW_ERR)
          | Some hp \<Rightarrow>
              let t2 = t1\<lparr>tm_heap := hp\<rparr>
              in (if task then system_init msec t2 else swReactorTimer_init msec t2, SW_OK))"

text \<open>\<open>swTimer_add\<close>: \<open>mem\<close> is the memory for the timer node, \<open>extra\<close> and \<open>hmem\<close> answer the
  allocations of \<open>swHeap_push\<close>. \<open>ival\<close> is the argument \<open>interval\<close>, a flag.\<close>

definition swTimer_add ::
  "clock \<Rightarrow> swTimer \<Rightarrow> int \<Rightarrow> bool \<Rightarrow> ptr \<Rightarrow> ptr option \<Rightarrow> ptr list option \<Rightarrow> ptr option \<Rightarrow>
   swTimer \<times> ptr option" where
  "swTimer_add clock t msec ival d mem extra hmem =
     (case mem of
        None \<Rightarrow> (t, None)
      | Some tnode \<Rightarrow>
          let (now_msec, t1) = swTimer_get_relative_msec clock t in
          if now_msec < 0 then (t1, None)
          else
            let exec = now_msec + msec;
                n = (tm_nodes t1 tnode)\<lparr>tn_data := d, exec_msec := exec,
                  interval := if ival then nat (msec mod 2 ^ 32) else 0,
                  tn_remove := False, php_used := 1, tn_id := tm_next_id t1\<rparr>;
                t2 = (if tm_next_msec t1 > msec then swReactorTimer_set t1 msec else t1);
                (hp, hn) = swHeap_push (tm_heap t2) (word_of_int exec) tnode extra hmem;
                t3 = t2\<lparr>tm_next_id := tm_next_id t2 + 1, tm_num := tm_num t2 + 1, tm_heap := hp\<rparr>
            in case hn of
                 None \<Rightarrow> (t3, None)
               | Some p \<Rightarrow>
                   (t3\<lparr>tm_nodes := (tm_nodes t3)(tnode := n\<lparr>tn_heap_node := p\<rparr>)\<rparr>, Some tnode))"

definition swTimer_del :: "swTimer \<Rightarrow> ptr \<Rightarrow> swTimer" where
  "swTimer_del t tnode =
     t\<lparr>tm_heap := fst (swHeap_remove (tm_heap t) (tn_heap_node (tm_nodes t tnode)))\<rparr>"

definition set_exec :: "swTimer \<Rightarrow> ptr \<Rightarrow> int \<Rightarrow> swTimer" where
  "set_exec t tnode e = t\<lparr>tm_nodes := (tm_nodes t)(tnode := (tm_nodes t tnode)\<lparr>exec_msec := e\<rparr>)\<rparr>"

text \<open>The loop of \<open>swTimer_select\<close>, with fuel; the result carries the last \<open>tnode\<close>.\<close>

fun swTimer_select_loop ::
  "nat \<Rightarrow> clock \<Rightarrow> (swTimer \<Rightarrow> ptr \<Rightarrow> swTimer) \<Rightarrow> (swTimer \<Rightarrow> ptr \<Rightarrow> swTimer) \<Rightarrow> int \<Rightarrow>
   swTimer \<Rightarrow> ptr option \<Rightarrow> (swTimer \<times> ptr option) option" where
  "swTimer_select_loop 0 clock onTick onAfter now_msec t tn = None"
| "swTimer_select_loop (Suc n) clock onTick onAfter now_msec t tn =
     (case swHeap_top (tm_heap t) of
        None \<Rightarrow> Some (t, tn)
      | Some tmp \<Rightarrow>
          let tnode = data (heap_store (tm_heap t) tmp) in
          if exec_msec (tm_nodes t tnode) > now_msec then Some (t, Some tnode)
          else
            let t1 = (if interval (tm_nodes t tnode) > 0 then onTick t tnode else onAfter t tnode)
            in if interval (tm_nodes t tnode) > 0 \<and> \<not> tn_remove (tm_nodes t1 tnode) then
                 let (now', t2) = swTimer_get_relative_msec clock t1;
                     e = exec_msec (tm_nodes t2 tnode);
                     iv = int (interval (tm_nodes t2 tnode));
                     e' = (if now' \<le> 0 then now_msec + iv
                           else if e + iv < now' then now' + iv
                           else e + iv);
                     t3 = set_exec t2 tnode e';
                     t4 = t3\<lparr>tm_heap := swHeap_change_priority (tm_heap t3) (word_of_int e') tmp\<rparr>
                 in swTimer_select_loop n clock onTick onAfter now_msec t4 (Some tnode)
               else
                 let t2 = t1\<lparr>tm_num := tm_num t1 - 1, tm_heap := fst (swHeap_pop (tm_heap t1))\<rparr>
                 in swTimer_select_loop n clock onTick onAfter now_msec t2 (Some tnode))"

definition swTimer_select ::
  "nat \<Rightarrow> clock \<Rightarrow> (swTimer \<Rightarrow> ptr \<Rightarrow> swTimer) \<Rightarrow> (swTimer \<Rightarrow> ptr \<Rightarrow> swTimer) \<Rightarrow> swTimer \<Rightarrow>
   (swTimer \<times> int) option" where
  "swTimer_select fuel clock onTick onAfter t =
     (let (now_msec, t1) = swTimer_get_relative_msec clock t in
      if now_msec < 0 then Some (t1, SW_ERR)
      else case swTimer_select_loop fuel clock onTick onAfter now_msec t1 None of
        None \<Rightarrow> None
      | Some (t2, None) \<Rightarrow> Some (swReactorTimer_set t2 (-1), SW_OK)
      | Some (t2, Some tnode) \<Rightarrow>
          Some (swReactorTimer_set t2 (exec_msec (tm_nodes t2 tnode) - now_msec), SW_OK))"

declare swTimer_select_loop.simps(2) [simp del]

section \<open>Invariant and the deadline of a timer\<close>

abbreviation timer_node :: "swTimer \<Rightarrow> ptr \<Rightarrow> swTimer_node" where
  "timer_node t p \<equiv> tm_nodes t (data (heap_store (tm_heap t) p))"

text \<open>The heap is a min heap, and every handle in it carries a timer node that points back to it
  and whose deadline is its priority.\<close>

definition timer_linked :: "swTimer \<Rightarrow> ptr \<Rightarrow> bool" where
  "timer_linked t p \<longleftrightarrow> tn_heap_node (timer_node t p) = p \<and>
     prio (tm_heap t) p = word_of_int (exec_msec (timer_node t p)) \<and>
     0 \<le> exec_msec (timer_node t p) \<and> exec_msec (timer_node t p) < 2 ^ 63 \<and>
     interval (timer_node t p) < 2 ^ 32"

definition timer_inv :: "swTimer \<Rightarrow> bool" where
  "timer_inv t \<longleftrightarrow> min_heap (tm_heap t) \<and> (\<forall>p \<in> heap_live (tm_heap t). timer_linked t p)"

definition timer_due :: "int \<Rightarrow> swTimer \<Rightarrow> ptr set" where
  "timer_due now t = {p \<in> heap_live (tm_heap t). exec_msec (timer_node t p) \<le> now}"

text \<open>How far behind the due timers are, in total: the fuel the loop of \<open>swTimer_select\<close> needs.\<close>

definition timer_lag :: "int \<Rightarrow> swTimer \<Rightarrow> nat" where
  "timer_lag now t = (\<Sum>p \<in> heap_live (tm_heap t). nat (now - exec_msec (timer_node t p) + 1))"

text \<open>A callback may do what it likes, add and delete timers included, as long as it keeps the
  invariant, the timer being served and its links stay in place, and it makes no timer due that
  was not due before.\<close>

definition timer_calm :: "int \<Rightarrow> (swTimer \<Rightarrow> ptr \<Rightarrow> swTimer) \<Rightarrow> bool" where
  "timer_calm now cb \<longleftrightarrow> (\<forall>t n. timer_inv t \<longrightarrow>
     timer_inv (cb t n) \<and> tm_basetime (cb t n) = tm_basetime t \<and>
     swHeap_top (tm_heap (cb t n)) = swHeap_top (tm_heap t) \<and>
     timer_due now (cb t n) \<subseteq> timer_due now t \<and>
     (\<forall>p \<in> timer_due now t. p \<in> heap_live (tm_heap (cb t n)) \<longrightarrow>
        data (heap_store (tm_heap (cb t n)) p) = data (heap_store (tm_heap t) p) \<and>
        exec_msec (timer_node (cb t n) p) = exec_msec (timer_node t p) \<and>
        interval (timer_node (cb t n) p) = interval (timer_node t p)))"

text \<open>No clock reading is beyond \<open>2 ^ 62\<close> milliseconds after the base time.\<close>

definition clock_bounded :: "clock \<Rightarrow> timeval \<Rightarrow> bool" where
  "clock_bounded clock base \<longleftrightarrow> (\<forall>k sec usec. clock k = Some (sec, usec) \<longrightarrow>
     (sec - fst base) * 1000 + (usec - snd base) sdiv 1000 < 2 ^ 62)"

lemma timer_deadline_order:
  assumes "timer_linked t p" "timer_linked t q"
  shows "prio (tm_heap t) p \<le> prio (tm_heap t) q \<longleftrightarrow>
    exec_msec (timer_node t p) \<le> exec_msec (timer_node t q)"
  using assms by (simp add: timer_linked_def word_le_def uint_word_of_int)

lemma relative_msec_fields [simp]:
  "swTimer_get_relative_msec clock t = (now, t') \<Longrightarrow> t' = t\<lparr>tm_reads := tm_reads t + 1\<rparr>"
  by (auto simp: swTimer_get_relative_msec_def Let_def split: option.splits)

lemma relative_msec_bounded:
  "swTimer_get_relative_msec clock t = (now, t') \<Longrightarrow> clock_bounded clock (tm_basetime t) \<Longrightarrow> now < 2 ^ 62"
  by (auto simp: swTimer_get_relative_msec_def clock_bounded_def Let_def SW_ERR_def split: option.splits)

lemma timer_reads [simp]:
  "timer_inv (t\<lparr>tm_reads := k\<rparr>) = timer_inv t" "timer_due now (t\<lparr>tm_reads := k\<rparr>) = timer_due now t"
  "timer_lag now (t\<lparr>tm_reads := k\<rparr>) = timer_lag now t"
  by (simp_all add: timer_inv_def timer_linked_def timer_due_def timer_lag_def)

lemma timer_lag_due: "timer_inv t \<Longrightarrow>
    timer_lag now t = (\<Sum>p \<in> timer_due now t. nat (now - exec_msec (timer_node t p) + 1))"
  unfolding timer_lag_def
  by (rule sum.mono_neutral_right) (auto simp: timer_inv_def timer_due_def intro: sq.live_finite)

lemma timer_calm_lag:
  assumes "timer_calm now cb" "timer_inv t"
  shows "timer_lag now (cb t n) \<le> timer_lag now t"
proof -
  have inv: "timer_inv (cb t n)" and sub: "timer_due now (cb t n) \<subseteq> timer_due now t"
    and same: "\<And>p. p \<in> timer_due now (cb t n) \<Longrightarrow>
      exec_msec (timer_node (cb t n) p) = exec_msec (timer_node t p)"
    using assms by (auto simp: timer_calm_def timer_due_def)
  have "finite (timer_due now t)"
    using assms(2) sq.live_finite [of "tm_heap t"] by (simp add: timer_inv_def timer_due_def)
  with sub same show ?thesis
    by (simp add: timer_lag_due [OF inv] timer_lag_due [OF assms(2)] sum_mono2)
qed

section \<open>Steps of the loop\<close>

lemma timer_pop_step:
  assumes inv: "timer_inv t" and top: "swHeap_top (tm_heap t) = Some p"
    and due: "exec_msec (timer_node t p) \<le> now"
    and t2: "t2 = t\<lparr>tm_num := k, tm_heap := fst (swHeap_pop (tm_heap t))\<rparr>"
  shows "timer_inv t2" "timer_lag now t2 < timer_lag now t"
proof -
  from inv have mh: "min_heap (tm_heap t)" by (simp add: timer_inv_def)
  note pop = sq.pop_laws [OF mh top]
  from pop inv show "timer_inv t2" by (simp add: timer_inv_def timer_linked_def t2)
  show "timer_lag now t2 < timer_lag now t"
    using sq.pop_sum_less [OF mh top, of "\<lambda>p. nat (now - exec_msec (timer_node t p) + 1)"] due pop
    by (simp add: timer_lag_def t2)
qed

lemma timer_data_inj:
  assumes "timer_inv t" "p \<in> heap_live (tm_heap t)" "q \<in> heap_live (tm_heap t)"
    "data (heap_store (tm_heap t) p) = data (heap_store (tm_heap t) q)"
  shows "p = q"
  using assms by (metis timer_inv_def timer_linked_def)

lemma timer_tick_step:
  assumes inv: "timer_inv t" and p: "p \<in> heap_live (tm_heap t)"
    and e: "exec_msec (timer_node t p) \<le> now" "exec_msec (timer_node t p) < e" "e < 2 ^ 63"
    and t3: "t3 = set_exec t (data (heap_store (tm_heap t) p)) e"
    and t4: "t4 = t3\<lparr>tm_heap := swHeap_change_priority (tm_heap t3) (word_of_int e) p\<rparr>"
  shows "timer_inv t4" "timer_lag now t4 < timer_lag now t"
proof -
  from inv have mh: "min_heap (tm_heap t)" by (simp add: timer_inv_def)
  note change = sq.change_laws [OF mh p, of "word_of_int e"]
  have heap: "tm_heap t4 = swHeap_change_priority (tm_heap t) (word_of_int e) p"
    by (simp add: t3 t4 set_exec_def)
  have node: "timer_node t4 q = (timer_node t q)\<lparr>exec_msec := if q = p then e else exec_msec (timer_node t q)\<rparr>"
    if "q \<in> heap_live (tm_heap t)" for q
    using timer_data_inj [OF inv that p] change(4) by (auto simp: t3 t4 set_exec_def)
  have "0 \<le> exec_msec (timer_node t p)" using inv p by (simp add: timer_inv_def timer_linked_def)
  with inv change node e show "timer_inv t4" unfolding timer_inv_def timer_linked_def heap by simp
  show "timer_lag now t4 < timer_lag now t"
    using sq.change_sum_less [OF mh p, of "\<lambda>q. nat (now - exec_msec (timer_node t4 q) + 1)"
        "\<lambda>q. nat (now - exec_msec (timer_node t q) + 1)"] e node p
    by (simp add: timer_lag_def heap)
qed

text \<open>The new deadline of a tick timer is later than its old one and within range, whatever the
  second clock reading is.\<close>

lemma tick_deadline:
  fixes now now' e :: int and iv :: nat
  assumes "e \<le> now" "0 < iv" "iv < 2 ^ 32" "now < 2 ^ 62" "now' < 2 ^ 62"
  defines "e' \<equiv> (if now' \<le> 0 then now + int iv else if e + int iv < now' then now' + int iv else e + int iv)"
  shows "e < e'" "e' < 2 ^ 63"
  using assms by auto

lemma timer_calmD:
  assumes calm: "timer_calm now cb" and inv: "timer_inv t" and top: "swHeap_top (tm_heap t) = Some p"
    and due: "exec_msec (timer_node t p) \<le> now"
  shows "timer_inv (cb t n)" "tm_basetime (cb t n) = tm_basetime t"
    "swHeap_top (tm_heap (cb t n)) = Some p" "p \<in> heap_live (tm_heap (cb t n))"
    "data (heap_store (tm_heap (cb t n)) p) = data (heap_store (tm_heap t) p)"
    "exec_msec (timer_node (cb t n) p) = exec_msec (timer_node t p)"
    "interval (timer_node (cb t n) p) = interval (timer_node t p)"
proof -
  have p: "p \<in> timer_due now t"
    using sq.top_live [OF _ top] inv due by (simp add: timer_due_def timer_inv_def)
  from calm inv show cb: "timer_inv (cb t n)" "tm_basetime (cb t n) = tm_basetime t"
    "swHeap_top (tm_heap (cb t n)) = Some p" using top by (simp_all add: timer_calm_def)
  then show live: "p \<in> heap_live (tm_heap (cb t n))" by (auto simp: timer_inv_def intro: sq.top_live)
  have "data (heap_store (tm_heap (cb t n)) p) = data (heap_store (tm_heap t) p) \<and>
    exec_msec (timer_node (cb t n) p) = exec_msec (timer_node t p) \<and>
    interval (timer_node (cb t n) p) = interval (timer_node t p)"
    using calm inv p live unfolding timer_calm_def by blast
  then show "data (heap_store (tm_heap (cb t n)) p) = data (heap_store (tm_heap t) p)"
    "exec_msec (timer_node (cb t n) p) = exec_msec (timer_node t p)"
    "interval (timer_node (cb t n) p) = interval (timer_node t p)" by blast+
qed

text \<open>One iteration with a due timer on top goes on from a state that satisfies the invariant and
  is less behind.\<close>

lemma select_loop_step:
  assumes inv: "timer_inv t" and top: "swHeap_top (tm_heap t) = Some p"
    and due: "exec_msec (timer_node t p) \<le> now" and calm: "timer_calm now onTick" "timer_calm now onAfter"
    and clk: "clock_bounded clock (tm_basetime t)" "now < 2 ^ 62"
  shows "\<exists>t' tn'. swTimer_select_loop (Suc fuel) clock onTick onAfter now t tn =
      swTimer_select_loop fuel clock onTick onAfter now t' tn' \<and>
    timer_inv t' \<and> timer_lag now t' < timer_lag now t \<and> tm_basetime t' = tm_basetime t"
proof -
  let ?tn = "data (heap_store (tm_heap t) p)" and ?iv = "interval (timer_node t p)"
  define t1 where "t1 = (if ?iv > 0 then onTick t ?tn else onAfter t ?tn)"
  note c1 = timer_calmD [OF calm(1) inv top due, of ?tn] and c2 = timer_calmD [OF calm(2) inv top due, of ?tn]
  have t1: "timer_inv t1" "tm_basetime t1 = tm_basetime t" "swHeap_top (tm_heap t1) = Some p"
    "p \<in> heap_live (tm_heap t1)" "data (heap_store (tm_heap t1) p) = ?tn"
    "exec_msec (timer_node t1 p) = exec_msec (timer_node t p)" "interval (timer_node t1 p) = ?iv"
    "timer_lag now t1 \<le> timer_lag now t"
    using c1 c2 timer_calm_lag [OF calm(1) inv] timer_calm_lag [OF calm(2) inv]
    unfolding t1_def by (simp_all split del: if_split split: if_split)
  show ?thesis
  proof (cases "?iv > 0 \<and> \<not> tn_remove (tm_nodes t1 ?tn)")
    case True
    obtain now' t2 where rd: "swTimer_get_relative_msec clock t1 = (now', t2)" by fastforce
    note t2 = relative_msec_fields [OF rd]
    define e where "e = (if now' \<le> 0 then now + int ?iv
      else if exec_msec (timer_node t p) + int ?iv < now' then now' + int ?iv
      else exec_msec (timer_node t p) + int ?iv)"
    define t3 where "t3 = set_exec t2 ?tn e"
    define t4 where "t4 = t3\<lparr>tm_heap := swHeap_change_priority (tm_heap t3) (word_of_int e) p\<rparr>"
    have "now' < 2 ^ 62" using relative_msec_bounded [OF rd] clk t1 by simp
    moreover have "?iv < 2 ^ 32" using t1 by (auto simp: timer_inv_def timer_linked_def)
    ultimately have e: "exec_msec (timer_node t p) < e" "e < 2 ^ 63"
      using tick_deadline [OF due, of ?iv now'] True clk(2) by (simp_all add: e_def)
    have "timer_inv t4 \<and> timer_lag now t4 < timer_lag now t2"
      using timer_tick_step [of t2 p now e t3 t4] t1 t2 e due by (simp add: t3_def t4_def)
    moreover have "onTick t ?tn = t1" using True by (simp add: t1_def)
    then have "swTimer_select_loop (Suc fuel) clock onTick onAfter now t tn =
        swTimer_select_loop fuel clock onTick onAfter now t4 (Some ?tn)"
      using top due True rd t1 t2
      by (simp add: swTimer_select_loop.simps t4_def t3_def e_def Let_def split del: if_split cong: if_cong)
    ultimately show ?thesis using t1 t2 by (intro exI [of _ t4]) (auto simp: t4_def t3_def set_exec_def)
  next
    case False
    define t2 where "t2 = t1\<lparr>tm_num := tm_num t1 - 1, tm_heap := fst (swHeap_pop (tm_heap t1))\<rparr>"
    have "timer_inv t2 \<and> timer_lag now t2 < timer_lag now t1"
      using timer_pop_step [OF t1(1,3) _ t2_def, of now] t1 due by simp
    moreover have "swTimer_select_loop (Suc fuel) clock onTick onAfter now t tn =
        swTimer_select_loop fuel clock onTick onAfter now t2 (Some ?tn)"
      using top due False by (auto simp: swTimer_select_loop.simps t2_def t1_def Let_def)
    ultimately show ?thesis using t1 by (intro exI [of _ t2]) (auto simp: t2_def)
  qed
qed

lemma select_loop_ok:
  assumes "timer_inv t" "timer_lag now t < fuel" "timer_calm now onTick" "timer_calm now onAfter"
    "clock_bounded clock (tm_basetime t)" "now < 2 ^ 62"
  shows "\<exists>t' tn'. swTimer_select_loop fuel clock onTick onAfter now t tn = Some (t', tn') \<and>
    timer_inv t' \<and> timer_due now t' = {} \<and>
    (\<forall>p. swHeap_top (tm_heap t') = Some p \<longrightarrow> tn' = Some (data (heap_store (tm_heap t') p)))"
  using assms
proof (induction fuel arbitrary: t tn)
  case (Suc fuel)
  note inv = Suc.prems(1)
  from inv have mh: "min_heap (tm_heap t)" by (simp add: timer_inv_def)
  show ?case
  proof (cases "swHeap_top (tm_heap t)")
    case None
    with sq.top_None [OF mh] inv show ?thesis by (simp add: swTimer_select_loop.simps timer_due_def)
  next
    case top: (Some p)
    have p: "p \<in> heap_live (tm_heap t)" using sq.top_live [OF mh top] .
    show ?thesis
    proof (cases "exec_msec (timer_node t p) \<le> now")
      case True
      obtain t' tn' where "swTimer_select_loop (Suc fuel) clock onTick onAfter now t tn =
          swTimer_select_loop fuel clock onTick onAfter now t' tn'" "timer_inv t'"
          "timer_lag now t' < timer_lag now t" "tm_basetime t' = tm_basetime t"
        using select_loop_step [OF inv top True Suc.prems(3-6)] by blast
      with Suc show ?thesis by simp
    next
      case False
      have "timer_due now t = {}"
        using False sq.top_least [OF mh top] timer_deadline_order [of t p] inv p
        by (fastforce simp: timer_due_def timer_inv_def)
      with False top inv show ?thesis by (simp add: swTimer_select_loop.simps Let_def)
    qed
  qed
qed simp

section \<open>Properties\<close>

text \<open>A timer with two one-shot timers, due at 5 and 7 milliseconds.\<close>

definition timer_demo :: swTimer where
  "timer_demo = \<lparr>tm_heap = heap_demo,
     tm_nodes = (\<lambda>n. \<lparr>tn_heap_node = if n = 100 then 16 else 32, tn_data = 0,
        exec_msec = if n = 100 then 5 else 7, interval = 0, tn_id = 1, tn_remove = False, php_used = 1\<rparr>),
     tm_num = 2, tm_fd = -1, tm_next_id = 3, tm_current_id = -1, tm_next_msec = 5,
     tm_basetime = (0, 0), tm_check_timer = True, tm_timeout_msec = 5, tm_reads = 0\<rparr>"

definition clock_demo :: clock where
  "clock_demo k = Some (0, 6000)"

lemma timer_demo_live: "heap_live (tm_heap timer_demo) = {16, 32}"
  using heap_demo_live by (simp add: timer_demo_def)

lemma timer_demo_inv: "timer_inv timer_demo"
  unfolding timer_inv_def timer_demo_live using heap_demo_inv
  by (simp add: timer_demo_def min_heap_def timer_linked_def) (simp add: heap_demo_def)

lemma timer_demo_clock: "swTimer_get_relative_msec clock_demo timer_demo = (6, timer_demo\<lparr>tm_reads := 1\<rparr>)"
  by (simp add: swTimer_get_relative_msec_def clock_demo_def timer_demo_def)

lemma clock_demo_bounded: "clock_bounded clock_demo (tm_basetime timer_demo)"
  by (simp add: clock_bounded_def clock_demo_def timer_demo_def)

text \<open>C5. \<open>swTimer_select\<close> returns, and when it does nothing that was due is left waiting: the loop
  ends within the total lag of the due timers, \<open>SW_OK\<close> is returned, the invariant holds, every
  timer still in the heap is due later than the time of the call, and if there is one, the
  reactor's timeout is the (positive) time to the first of them. The callbacks may change the
  timers as \<open>timer_calm\<close> allows.\<close>

theorem swTimer_select_complete:
  assumes "timer_inv t" and "swTimer_get_relative_msec clock t = (now, t1)" and "0 \<le> now"
    and "timer_calm now onTick" and "timer_calm now onAfter"
    and "clock_bounded clock (tm_basetime t)" and "timer_lag now t < fuel"
  shows "\<exists>t'. swTimer_select fuel clock onTick onAfter t = Some (t', SW_OK) \<and> timer_inv t' \<and>
    timer_due now t' = {} \<and>
    (\<forall>p. swHeap_top (tm_heap t') = Some p \<longrightarrow>
       tm_timeout_msec t' = exec_msec (timer_node t' p) - now \<and> 0 < tm_timeout_msec t')"
proof -
  note t1 = relative_msec_fields [OF assms(2)]
  obtain t2 tn where loop: "swTimer_select_loop fuel clock onTick onAfter now t1 None = Some (t2, tn)"
    and t2: "timer_inv t2" "timer_due now t2 = {}"
      "\<And>p. swHeap_top (tm_heap t2) = Some p \<Longrightarrow> tn = Some (data (heap_store (tm_heap t2) p))"
    using select_loop_ok [of t1 now fuel onTick onAfter clock None] assms
      relative_msec_bounded [OF assms(2,6)] t1 by auto
  define t' where "t' = swReactorTimer_set t2
    (case tn of None \<Rightarrow> -1 | Some n \<Rightarrow> exec_msec (tm_nodes t2 n) - now)"
  have "swTimer_select fuel clock onTick onAfter t = Some (t', SW_OK)"
    using loop assms(2,3) by (cases tn) (simp_all add: swTimer_select_def t'_def)
  moreover have "timer_inv t'" "timer_due now t' = {}"
    using t2 by (simp_all add: t'_def swReactorTimer_set_def timer_inv_def timer_linked_def timer_due_def)
  moreover have "exec_msec (timer_node t2 p) > now" if "swHeap_top (tm_heap t2) = Some p" for p
    using t2(1,2) sq.top_live [of "tm_heap t2" p] that by (force simp: timer_due_def timer_inv_def)
  ultimately show ?thesis using t2(3) by (auto simp: t'_def swReactorTimer_set_def)
qed

theorem swTimer_select_complete_witness:
  "\<exists>t'. swTimer_select 3 clock_demo (\<lambda>t n. t) (\<lambda>t n. t) timer_demo = Some (t', SW_OK) \<and> timer_inv t' \<and>
     timer_due 6 t' = {}"
proof -
  have calm: "timer_calm 6 (\<lambda>t n. t)" by (simp add: timer_calm_def)
  have "timer_lag 6 timer_demo < 3"
    unfolding timer_lag_def timer_demo_live by (simp add: timer_demo_def heap_demo_def)
  from swTimer_select_complete [OF timer_demo_inv timer_demo_clock _ calm calm clock_demo_bounded this]
  show ?thesis by auto
qed

text \<open>C6. \<open>swTimer_add\<close>, given fresh memory and room in the heap, registers exactly one more timer: the invariant holds
  again, the new node runs \<open>msec\<close> after the clock reading and repeats with that period if asked
  to, it carries the next id, and no other timer node or handle changes.\<close>

theorem swTimer_add_correct:
  assumes inv: "timer_inv t" and clk: "swTimer_get_relative_msec clock t = (now, t1)" "0 \<le> now" "now < 2 ^ 62"
    and msec: "0 \<le> msec" "msec < 2 ^ 31"
    and new: "tnode \<notin> (\<lambda>p. data (heap_store (tm_heap t) p)) ` heap_live (tm_heap t)"
    and p: "p \<noteq> NULL" "p \<notin> heap_live (tm_heap t)"
    and room: "heap_num (tm_heap t) < heap_size (tm_heap t)"
  shows "\<exists>t'. swTimer_add clock t msec ival d (Some tnode) extra (Some p) = (t', Some tnode) \<and>
    timer_inv t' \<and> heap_live (tm_heap t') = insert p (heap_live (tm_heap t)) \<and>
    timer_node t' p = tm_nodes t' tnode \<and>
    exec_msec (tm_nodes t' tnode) = now + msec \<and>
    interval (tm_nodes t' tnode) = (if ival then nat msec else 0) \<and>
    tn_id (tm_nodes t' tnode) = tm_next_id t \<and> tm_num t' = tm_num t + 1 \<and>
    (\<forall>n. n \<noteq> tnode \<longrightarrow> tm_nodes t' n = tm_nodes t n)"
proof -
  note t1 = relative_msec_fields [OF clk(1)]
  from inv have hi: "heap_inv (tm_heap t)" and ty: "heap_type (tm_heap t) = SW_MIN_HEAP"
    by (simp_all add: timer_inv_def min_heap_def)
  obtain hp where push: "swHeap_push (tm_heap t) (word_of_int (now + msec)) tnode extra (Some p) = (hp, Some p)"
    and hp: "heap_inv hp" "heap_live hp = insert p (heap_live (tm_heap t))" "heap_keep (- {p}) (tm_heap t) hp"
      "prio hp p = word_of_int (now + msec)" "data (heap_store hp p) = tnode"
    using push_spec [OF hi p disjI1 [OF room]] by metis
  obtain t' where add: "swTimer_add clock t msec ival d (Some tnode) extra (Some p) = (t', Some tnode)"
    and t': "tm_heap t' = hp" "tm_num t' = tm_num t + 1"
      "exec_msec (tm_nodes t' tnode) = now + msec" "tn_heap_node (tm_nodes t' tnode) = p"
      "interval (tm_nodes t' tnode) = (if ival then nat (msec mod 2 ^ 32) else 0)"
      "tn_id (tm_nodes t' tnode) = tm_next_id t" "\<And>n. n \<noteq> tnode \<Longrightarrow> tm_nodes t' n = tm_nodes t n"
    using clk push t1
    by (cases "msec < tm_next_msec t") (simp_all add: swTimer_add_def Let_def swReactorTimer_set_def)
  have "timer_linked t' p"
    using t' hp clk(2,3) msec by (simp add: timer_linked_def nat_less_iff)
  moreover have "timer_linked t' q" if "q \<in> heap_live (tm_heap t)" for q
  proof -
    have "q \<noteq> p" using that p by auto
    moreover have "data (heap_store (tm_heap t) q) \<noteq> tnode" using new that by blast
    ultimately show ?thesis
      using inv that hp(3) t' by (simp add: timer_inv_def timer_linked_def heap_keep_def)
  qed
  ultimately have "timer_inv t'"
    using hp t'(1) ty by (simp add: timer_inv_def min_heap_def heap_keep_def)
  with add t' hp msec show ?thesis by auto
qed

theorem swTimer_add_correct_witness:
  "\<exists>t'. swTimer_add clock_demo timer_demo 50 True 7 (Some 300) None (Some 48) = (t', Some 300) \<and>
     timer_inv t' \<and> exec_msec (tm_nodes t' 300) = 56 \<and> interval (tm_nodes t' 300) = 50"
proof -
  have "300 \<notin> (\<lambda>p. data (heap_store (tm_heap timer_demo) p)) ` heap_live (tm_heap timer_demo)"
    "heap_num (tm_heap timer_demo) < heap_size (tm_heap timer_demo)" "48 \<notin> heap_live (tm_heap timer_demo)"
    unfolding timer_demo_live by (simp_all add: timer_demo_def heap_demo_def)
  with swTimer_add_correct [OF timer_demo_inv timer_demo_clock, of 50 300 48 True 7 None]
  show ?thesis by auto
qed

text \<open>C7. \<open>swTimer_del\<close> on a registered timer takes it, and nothing else, out of the heap and keeps
  the invariant; it leaves the counter \<open>num\<close> as it was, so \<open>num\<close> no longer counts the
  registered timers once a timer is deleted this way.\<close>

theorem swTimer_del_correct:
  assumes "timer_inv t" and "p \<in> heap_live (tm_heap t)" and "tnode = data (heap_store (tm_heap t) p)"
  shows "timer_inv (swTimer_del t tnode) \<and>
    heap_live (tm_heap (swTimer_del t tnode)) = heap_live (tm_heap t) - {p} \<and>
    swHeap_size (tm_heap (swTimer_del t tnode)) + 1 = swHeap_size (tm_heap t) \<and>
    tm_num (swTimer_del t tnode) = tm_num t"
proof -
  from assms have mh: "min_heap (tm_heap t)" and link: "tn_heap_node (tm_nodes t tnode) = p"
    by (auto simp: timer_inv_def timer_linked_def)
  note del = sq.del_laws [OF mh assms(2)]
  have inv: "timer_inv (swTimer_del t tnode)"
    using assms(1) del by (simp add: timer_inv_def timer_linked_def swTimer_del_def link)
  have "card (heap_live (tm_heap t) - {p}) + 1 = card (heap_live (tm_heap t))"
    using card_Suc_Diff1 [OF sq.live_finite [OF mh] assms(2)] by simp
  then have "swHeap_size (tm_heap (swTimer_del t tnode)) + 1 = swHeap_size (tm_heap t)"
    using mh del(1,2) size_live(2) [of "tm_heap t"] size_live(2) [of "fst (swHeap_remove (tm_heap t) p)"]
    by (simp add: swTimer_del_def link min_heap_def)
  with inv del show ?thesis by (simp add: swTimer_del_def link)
qed

theorem swTimer_del_correct_witness:
  "timer_inv (swTimer_del timer_demo 100) \<and> heap_live (tm_heap (swTimer_del timer_demo 100)) = {32}"
proof -
  have "data (heap_store (tm_heap timer_demo) 16) = 100" by (simp add: timer_demo_def heap_demo_def)
  with swTimer_del_correct [OF timer_demo_inv, of 16 100] show ?thesis by (auto simp: timer_demo_live)
qed

end
