(* ===== verification/Sw_Dll.thy ===== *)
theory Sw_Dll
  imports Sw_Prelude
begin

text \<open>
  Doubly linked lists in a store, shared by the fixed-size pool and by the linked list: stores
  are partial maps from addresses, an access to an address outside the domain (the null
  pointer among them) has the value \<open>None\<close>, and \<open>dlist n p xs\<close> says that following \<open>n\<close> forwards
  and \<open>p\<close> backwards visits exactly the addresses \<open>xs\<close>.
\<close>

section \<open>Stores\<close>

definition mod_at :: "ptr \<Rightarrow> ('v \<Rightarrow> 'v) \<Rightarrow> (ptr \<rightharpoonup> 'v) \<Rightarrow> (ptr \<rightharpoonup> 'v) option" where
  "mod_at p f m = (case m p of None \<Rightarrow> None | Some v \<Rightarrow> Some (m(p \<mapsto> f v)))"

definition wr :: "ptr \<Rightarrow> ('v \<Rightarrow> 'v) \<Rightarrow> (ptr \<rightharpoonup> 'v) \<Rightarrow> (ptr \<rightharpoonup> 'v)" where
  "wr p f m = m(p \<mapsto> f (the (m p)))"

lemma mod_at_in [simp]: "p \<in> dom m \<Longrightarrow> mod_at p f m = Some (wr p f m)"
  by (auto simp: mod_at_def wr_def)

lemma mod_at_out [simp]: "p \<notin> dom m \<Longrightarrow> mod_at p f m = None"
  by (auto simp: mod_at_def split: option.splits)

lemma dom_wr [simp]: "dom (wr p f m) = insert p (dom m)"
  by (auto simp: wr_def)

lemma the_wr: "the (wr p f m x) = (if x = p then f (the (m p)) else the (m x))"
  by (simp add: wr_def)

lemma lookup_in: "p \<in> dom m \<Longrightarrow> m p = Some (the (m p))"
  by auto

section \<open>Segments\<close>

fun dseg :: "(ptr \<Rightarrow> ptr) \<Rightarrow> (ptr \<Rightarrow> ptr) \<Rightarrow> ptr \<Rightarrow> ptr list \<Rightarrow> ptr \<Rightarrow> bool" where
  "dseg n p a [] b \<longleftrightarrow> True"
| "dseg n p a (x # xs) b \<longleftrightarrow> x \<noteq> NULL \<and> p x = a \<and> n x = hd (xs @ [b]) \<and> dseg n p x xs b"

lemma dseg_append:
  "dseg n p a (xs @ ys) b \<longleftrightarrow> dseg n p a xs (hd (ys @ [b])) \<and> dseg n p (last (a # xs)) ys b"
proof (induction xs arbitrary: a)
  case (Cons x xs)
  have "hd ((xs @ ys) @ [b]) = hd (xs @ [hd (ys @ [b])])" by (cases xs) auto
  with Cons show ?case by auto
qed simp

lemma dseg_cong:
  "(\<And>x. x \<in> set xs \<Longrightarrow> n x = n' x \<and> p x = p' x) \<Longrightarrow> dseg n p a xs b = dseg n' p' a xs b"
  by (induction xs arbitrary: a) auto

lemma dseg_not_null: "dseg n p a xs b \<Longrightarrow> NULL \<notin> set xs"
  by (induction xs arbitrary: a) auto

text \<open>Changing what stands before or after a segment touches its first or last element only.\<close>

lemma dseg_relink_first:
  assumes "dseg n p a xs b" "distinct xs" "\<And>x. x \<in> set xs \<Longrightarrow> n' x = n x"
    "\<And>x. x \<in> set xs \<Longrightarrow> x \<noteq> hd xs \<Longrightarrow> p' x = p x" "xs \<noteq> [] \<Longrightarrow> p' (hd xs) = a'"
  shows "dseg n' p' a' xs b"
proof (cases xs)
  case (Cons x ys)
  have "dseg n p x ys b = dseg n' p' x ys b"
  proof (rule dseg_cong)
    fix y assume "y \<in> set ys"
    moreover from this have "y \<noteq> hd xs" using assms(2) Cons by auto
    ultimately show "n y = n' y \<and> p y = p' y" using assms(3,4) Cons by simp
  qed
  with assms Cons show ?thesis by auto
qed simp

lemma dseg_relink_last:
  assumes "dseg n p a xs b" "distinct xs" "\<And>x. x \<in> set xs \<Longrightarrow> p' x = p x"
    "\<And>x. x \<in> set xs \<Longrightarrow> x \<noteq> last xs \<Longrightarrow> n' x = n x" "xs \<noteq> [] \<Longrightarrow> n' (last xs) = b'"
  shows "dseg n' p' a xs b'"
  using assms
proof (induction xs arbitrary: a)
  case (Cons x xs)
  show ?case
  proof (cases "xs = []")
    case False
    then have "x \<noteq> last xs" using Cons.prems(2) by auto
    with Cons False show ?thesis by (auto simp: hd_append)
  qed (use Cons in auto)
qed simp

section \<open>Whole lists\<close>

definition dlist :: "(ptr \<Rightarrow> ptr) \<Rightarrow> (ptr \<Rightarrow> ptr) \<Rightarrow> ptr list \<Rightarrow> bool" where
  "dlist n p xs \<longleftrightarrow> distinct xs \<and> dseg n p NULL xs NULL"

lemma dlist_distinct: "dlist n p xs \<Longrightarrow> distinct xs"
  by (simp add: dlist_def)

lemma dlist_not_null: "dlist n p xs \<Longrightarrow> NULL \<notin> set xs"
  by (auto simp: dlist_def dest: dseg_not_null)

lemma dlist_Nil [simp]: "dlist n p []"
  by (simp add: dlist_def)

lemma dlist_at:
  assumes "dlist n p (as @ x # bs)"
  shows "x \<noteq> NULL" "p x = last (NULL # as)" "n x = hd (bs @ [NULL])" "x \<notin> set as" "x \<notin> set bs"
  using assms by (auto simp: dlist_def dseg_append)

lemma dlist_push_front:
  assumes "dlist n p xs" "x \<noteq> NULL" "x \<notin> set xs"
    and "n' x = hd (xs @ [NULL])" "p' x = NULL" "xs \<noteq> [] \<Longrightarrow> p' (hd xs) = x"
    and "\<And>y. y \<in> set xs \<Longrightarrow> n' y = n y" "\<And>y. y \<in> set xs \<Longrightarrow> y \<noteq> hd xs \<Longrightarrow> p' y = p y"
  shows "dlist n' p' (x # xs)"
  using assms dseg_relink_first [of n p NULL xs NULL n' p' x] by (auto simp: dlist_def)

lemma dlist_push_back:
  assumes "dlist n p xs" "x \<noteq> NULL" "x \<notin> set xs"
    and "p' x = last (NULL # xs)" "n' x = NULL" "xs \<noteq> [] \<Longrightarrow> n' (last xs) = x"
    and "\<And>y. y \<in> set xs \<Longrightarrow> p' y = p y" "\<And>y. y \<in> set xs \<Longrightarrow> y \<noteq> last xs \<Longrightarrow> n' y = n y"
  shows "dlist n' p' (xs @ [x])"
  using assms dseg_relink_last [of n p NULL xs NULL p' n' x] by (auto simp: dlist_def dseg_append)

lemma dlist_remove:
  assumes "dlist n p (as @ x # bs)"
    and "as \<noteq> [] \<Longrightarrow> n' (last as) = hd (bs @ [NULL])" "bs \<noteq> [] \<Longrightarrow> p' (hd bs) = last (NULL # as)"
    and "\<And>y. y \<in> set as \<union> set bs \<Longrightarrow> (as = [] \<or> y \<noteq> last as) \<Longrightarrow> n' y = n y"
    and "\<And>y. y \<in> set as \<union> set bs \<Longrightarrow> (bs = [] \<or> y \<noteq> hd bs) \<Longrightarrow> p' y = p y"
  shows "dlist n' p' (as @ bs)"
proof -
  from assms(1) have d: "distinct as" "distinct bs" "set as \<inter> set bs = {}"
    and s: "dseg n p NULL as x" "dseg n p x bs NULL" by (auto simp: dlist_def dseg_append)
  have "dseg n' p' NULL as (hd (bs @ [NULL]))"
    using dseg_relink_last [OF s(1) d(1), of p' n'] assms(2,4,5) d
    by (metis UnI1 disjoint_iff hd_in_set)
  moreover have "dseg n' p' (last (NULL # as)) bs NULL"
    using dseg_relink_first [OF s(2) d(2), of n' p'] assms(3,4,5) d
    by (metis UnI2 disjoint_iff last_in_set)
  ultimately show ?thesis using d by (simp add: dlist_def dseg_append)
qed

end
