(* ===== verification/Sw_FixedPool.thy ===== *)
theory Sw_FixedPool
  imports Sw_Interfaces Sw_Dll
begin

text \<open>
  The pool of fixed-size slices of \<open>src/memory/FixedPool.c\<close>. The slices of the block are linked
  into one doubly linked list, the idle ones before the busy ones; an allocation takes the
  first and moves it to the end, a release moves a slice to the front. Slice headers live in a
  store at their addresses; \<open>None\<close> is an access outside the block or through a null pointer, or
  a failed assertion. The size of a header is that of a 64-bit build.
\<close>

section \<open>Data\<close>

record swFixedPool_slice =
  sl_lock :: nat
  sl_next :: ptr
  sl_pre :: ptr

record swFixedPool =
  fp_memory :: ptr
  fp_size :: nat
  fp_head :: ptr
  fp_tail :: ptr
  fp_slice_num :: nat
  fp_slice_use :: nat
  fp_slice_size :: nat
  fp_shared :: bool
  fp_slices :: "ptr \<rightharpoonup> swFixedPool_slice"

definition sizeof_slice :: nat where
  "sizeof_slice = 24"

definition fp_stride :: "swFixedPool \<Rightarrow> nat" where
  "fp_stride q = sizeof_slice + fp_slice_size q"

section \<open>Operations\<close>

text \<open>One iteration of the loop of \<open>swFixedPool_init\<close> at the address \<open>cur\<close>.\<close>

definition swFixedPool_init_step :: "swFixedPool \<Rightarrow> ptr \<Rightarrow> ptr \<Rightarrow> swFixedPool option" where
  "swFixedPool_init_step q cur lim = (if cur + sizeof_slice > lim then None else do {
     let m0 = (fp_slices q)(cur \<mapsto> \<lparr>sl_lock = 0, sl_next = NULL, sl_pre = NULL\<rparr>);
     q1 \<leftarrow> (if fp_head q \<noteq> NULL then do {
              m1 \<leftarrow> mod_at (fp_head q) (sl_pre_update (\<lambda>_. cur)) m0;
              m2 \<leftarrow> mod_at cur (sl_next_update (\<lambda>_. fp_head q)) m1;
              Some (q\<lparr>fp_slices := m2\<rparr>) }
            else Some (q\<lparr>fp_tail := cur, fp_slices := m0\<rparr>));
     let next_cur = cur + (sizeof_slice + fp_slice_size q);
     m3 \<leftarrow> mod_at cur (sl_pre_update (\<lambda>_. if next_cur < lim then next_cur else NULL)) (fp_slices q1);
     Some (q1\<lparr>fp_head := cur, fp_slices := m3\<rparr>) })"

function swFixedPool_init_loop :: "swFixedPool \<Rightarrow> ptr \<Rightarrow> ptr \<Rightarrow> swFixedPool option" where
  "swFixedPool_init_loop q cur lim =
     (case swFixedPool_init_step q cur lim of
        None \<Rightarrow> None
      | Some q' \<Rightarrow>
          let next_cur = cur + (sizeof_slice + fp_slice_size q)
          in if next_cur < lim then swFixedPool_init_loop q' next_cur lim else Some q')"
  by pat_completeness auto
termination
  by (relation "measure (\<lambda>(q, cur, lim). lim - cur)") (auto simp: sizeof_slice_def)

definition swFixedPool_init :: "swFixedPool \<Rightarrow> swFixedPool option" where
  "swFixedPool_init q = swFixedPool_init_loop q (fp_memory q) (fp_memory q + fp_size q)"

text \<open>\<open>swFixedPool_new\<close>: \<open>mem\<close> is where the slices begin in the block the allocator returned. The
  product \<open>slice_size * slice_num\<close> is computed in 32 bits.\<close>

definition swFixedPool_new :: "nat \<Rightarrow> nat \<Rightarrow> bool \<Rightarrow> ptr \<Rightarrow> swFixedPool option" where
  "swFixedPool_new slice_num slice_size shared mem =
     swFixedPool_init \<lparr>fp_memory = mem,
       fp_size = ((slice_size * slice_num) mod 2 ^ 32 + slice_num * sizeof_slice) mod 2 ^ 64,
       fp_head = NULL, fp_tail = NULL, fp_slice_num = slice_num, fp_slice_use = 0,
       fp_slice_size = slice_size, fp_shared = shared, fp_slices = Map.empty\<rparr>"

text \<open>\<open>swFixedPool_new2\<close> in \<open>sz0\<close> bytes given by the caller; \<open>hdr\<close> is the size of the two
  structures at the front (\<open>swMemoryPool\<close> and \<open>swFixedPool\<close>), \<open>mem\<close> the address after them.\<close>

definition swFixedPool_new2 :: "nat \<Rightarrow> nat \<Rightarrow> ptr \<Rightarrow> nat \<Rightarrow> swFixedPool option" where
  "swFixedPool_new2 slice_size hdr mem sz0 =
     (let sz = sz0 - hdr in
      swFixedPool_init \<lparr>fp_memory = mem, fp_size = sz, fp_head = NULL, fp_tail = NULL,
       fp_slice_num = sz div (slice_size + sizeof_slice), fp_slice_use = 0,
       fp_slice_size = slice_size, fp_shared = False, fp_slices = Map.empty\<rparr>)"

definition swFixedPool_alloc :: "swFixedPool \<Rightarrow> (swFixedPool \<times> ptr option) option" where
  "swFixedPool_alloc q = do {
     let slice = fp_head q;
     s \<leftarrow> fp_slices q slice;
     if sl_lock s = 0 then do {
       m1 \<leftarrow> mod_at slice (sl_lock_update (\<lambda>_. 1)) (fp_slices q);
       m2 \<leftarrow> mod_at (sl_next s) (sl_pre_update (\<lambda>_. NULL)) m1;
       m3 \<leftarrow> mod_at (fp_tail q) (sl_next_update (\<lambda>_. slice)) m2;
       m4 \<leftarrow> mod_at slice (sl_next_update (\<lambda>_. NULL) \<circ> sl_pre_update (\<lambda>_. fp_tail q)) m3;
       Some (q\<lparr>fp_slice_use := fp_slice_use q + 1, fp_head := sl_next s, fp_tail := slice,
         fp_slices := m4\<rparr>, Some (slice + sizeof_slice)) }
     else Some (q, None) }"

definition swFixedPool_free :: "swFixedPool \<Rightarrow> ptr \<Rightarrow> swFixedPool option" where
  "swFixedPool_free q p =
     (if \<not> (fp_memory q < p \<and> p < fp_memory q + fp_size q) then None
      else do {
        let slice = p - sizeof_slice;
        s \<leftarrow> fp_slices q slice;
        m1 \<leftarrow> mod_at slice (sl_lock_update (\<lambda>_. 0)) (fp_slices q);
        let q1 = q\<lparr>fp_slice_use := if sl_lock s \<noteq> 0 then fp_slice_use q - 1 else fp_slice_use q,
          fp_slices := m1\<rparr>;
        if sl_pre s = NULL then Some q1
        else do {
          q2 \<leftarrow> (if sl_next s = NULL then do {
                   m2 \<leftarrow> mod_at (sl_pre s) (sl_next_update (\<lambda>_. NULL)) m1;
                   Some (q1\<lparr>fp_tail := sl_pre s, fp_slices := m2\<rparr>) }
                 else do {
                   m2 \<leftarrow> mod_at (sl_pre s) (sl_next_update (\<lambda>_. sl_next s)) m1;
                   m3 \<leftarrow> mod_at (sl_next s) (sl_pre_update (\<lambda>_. sl_pre s)) m2;
                   Some (q1\<lparr>fp_slices := m3\<rparr>) });
          m4 \<leftarrow> mod_at slice (sl_pre_update (\<lambda>_. NULL) \<circ> sl_next_update (\<lambda>_. fp_head q2)) (fp_slices q2);
          m5 \<leftarrow> mod_at (fp_head q2) (sl_pre_update (\<lambda>_. slice)) m4;
          Some (q2\<lparr>fp_head := slice, fp_slices := m5\<rparr>) } })"

declare swFixedPool_init_loop.simps [simp del]

section \<open>Invariant\<close>

abbreviation sl_nx :: "(ptr \<rightharpoonup> swFixedPool_slice) \<Rightarrow> ptr \<Rightarrow> ptr" where
  "sl_nx m x \<equiv> sl_next (the (m x))"

abbreviation sl_pv :: "(ptr \<rightharpoonup> swFixedPool_slice) \<Rightarrow> ptr \<Rightarrow> ptr" where
  "sl_pv m x \<equiv> sl_pre (the (m x))"

abbreviation sl_lk :: "(ptr \<rightharpoonup> swFixedPool_slice) \<Rightarrow> ptr \<Rightarrow> nat" where
  "sl_lk m x \<equiv> sl_lock (the (m x))"

text \<open>\<open>fp_rep q fr bs\<close>: the list is the idle slices \<open>fr\<close> followed by the busy slices \<open>bs\<close>.\<close>

definition fp_rep :: "swFixedPool \<Rightarrow> ptr list \<Rightarrow> ptr list \<Rightarrow> bool" where
  "fp_rep q fr bs \<longleftrightarrow> dlist (sl_nx (fp_slices q)) (sl_pv (fp_slices q)) (fr @ bs) \<and>
     2 \<le> length (fr @ bs) \<and> fp_head q = hd (fr @ bs) \<and> fp_tail q = last (fr @ bs) \<and>
     dom (fp_slices q) = set (fr @ bs) \<and>
     (\<forall>x \<in> set fr. sl_lk (fp_slices q) x = 0) \<and> (\<forall>x \<in> set bs. sl_lk (fp_slices q) x \<noteq> 0) \<and>
     fp_slice_use q = length bs \<and>
     (\<forall>x \<in> set (fr @ bs). fp_memory q \<le> x \<and> x + sizeof_slice < fp_memory q + fp_size q)"

definition fp_inv :: "swFixedPool \<Rightarrow> bool" where
  "fp_inv q \<longleftrightarrow> (\<exists>fr bs. fp_rep q fr bs)"

definition fp_blocks :: "swFixedPool \<Rightarrow> ptr set" where
  "fp_blocks q = (\<lambda>x. x + sizeof_slice) ` dom (fp_slices q)"

definition fp_used :: "swFixedPool \<Rightarrow> ptr set" where
  "fp_used q = (\<lambda>x. x + sizeof_slice) ` {x \<in> dom (fp_slices q). sl_lk (fp_slices q) x \<noteq> 0}"

lemma fp_rep_used:
  assumes "fp_rep q fr bs"
  shows "fp_used q = (\<lambda>x. x + sizeof_slice) ` set bs"
    "fp_blocks q = (\<lambda>x. x + sizeof_slice) ` set (fr @ bs)"
proof -
  have "{x \<in> dom (fp_slices q). sl_lk (fp_slices q) x \<noteq> 0} = set bs"
    using assms by (auto simp: fp_rep_def)
  then show "fp_used q = (\<lambda>x. x + sizeof_slice) ` set bs" by (simp add: fp_used_def)
  show "fp_blocks q = (\<lambda>x. x + sizeof_slice) ` set (fr @ bs)"
    using assms by (simp add: fp_blocks_def fp_rep_def)
qed

lemma alloc_rep_full:
  assumes "fp_rep q [] bs"
  shows "swFixedPool_alloc q = Some (q, None)"
proof -
  have "fp_head q \<in> set bs" using assms by (cases bs) (auto simp: fp_rep_def)
  with assms obtain s where "fp_slices q (fp_head q) = Some s" "sl_lock s \<noteq> 0"
    by (fastforce simp: fp_rep_def)
  then show ?thesis by (simp add: swFixedPool_alloc_def)
qed

text \<open>Relinking the same slices.\<close>

lemma fp_rep_relink:
  assumes "fp_rep q fr0 bs0"
    and "set (fr @ bs) = set (fr0 @ bs0)" "length (fr @ bs) = length (fr0 @ bs0)"
    and "dlist (sl_nx m) (sl_pv m) (fr @ bs)" "dom m = dom (fp_slices q)"
    and "\<And>x. x \<in> set fr \<Longrightarrow> sl_lk m x = 0" "\<And>x. x \<in> set bs \<Longrightarrow> sl_lk m x \<noteq> 0"
    and "h = hd (fr @ bs)" "t = last (fr @ bs)" "u = length bs"
  shows "fp_rep (q\<lparr>fp_slice_use := u, fp_head := h, fp_tail := t, fp_slices := m\<rparr>) fr bs"
  using assms(1) unfolding fp_rep_def assms(2,3) using assms(4-10) by simp

lemma alloc_rep:
  assumes rep: "fp_rep q (h # fr) bs"
  shows "\<exists>q'. swFixedPool_alloc q = Some (q', Some (h + sizeof_slice)) \<and> fp_rep q' fr (bs @ [h])"
proof -
  define m where "m = fp_slices q"
  obtain g ys where ys: "fr @ bs = g # ys" using rep by (cases "fr @ bs") (auto simp: fp_rep_def)
  define t where "t = last (g # ys)"
  have dl: "dlist (sl_nx m) (sl_pv m) ([] @ h # g # ys)" and dm: "dom m = set (h # g # ys)"
    using rep ys by (simp_all add: fp_rep_def m_def)
  note hd = dlist_at [OF dl]
  then have hg: "h \<noteq> g" "h \<notin> set ys" "sl_nx m h = g" and ht: "h \<noteq> t" by (auto simp: t_def)
  have g0: "g \<noteq> NULL" using dlist_not_null [OF dl] by auto
  have head: "fp_head q = h" "fp_tail q = t" "fp_slices q = m" "sl_lk m h = 0"
    using rep ys by (auto simp: fp_rep_def m_def t_def)
  define m' where "m' = wr h (sl_next_update (\<lambda>_. NULL) \<circ> sl_pre_update (\<lambda>_. t))
    (wr t (sl_next_update (\<lambda>_. h)) (wr g (sl_pre_update (\<lambda>_. NULL)) (wr h (sl_lock_update (\<lambda>_. 1)) m)))"
  have dom: "h \<in> dom m" "g \<in> dom m" "t \<in> dom m" unfolding dm t_def by simp_all
  then obtain sh where sh: "m h = Some sh" by auto
  have m': "dom m' = dom m" "\<And>x. sl_lk m' x = (if x = h then 1 else sl_lk m x)"
    "\<And>x. sl_nx m' x = (if x = h then NULL else if x = t then h else sl_nx m x)"
    "\<And>x. sl_pv m' x = (if x = h then t else if x = g then NULL else sl_pv m x)"
    using dom hg by (auto simp: m'_def the_wr)
  define q' where "q' = q\<lparr>fp_slice_use := fp_slice_use q + 1, fp_head := g, fp_tail := h, fp_slices := m'\<rparr>"
  have "swFixedPool_alloc q = Some (q', Some (h + sizeof_slice))"
    using dom sh head(4) hg by (simp add: swFixedPool_alloc_def head q'_def m'_def)
  moreover have "dlist (sl_nx m') (sl_pv m') ((g # ys) @ [h])"
  proof (rule dlist_push_back)
    show "dlist (sl_nx m) (\<lambda>x. if x = g then NULL else sl_pv m x) (g # ys)"
      using dlist_remove [OF dl, of "sl_nx m" "\<lambda>x. if x = g then NULL else sl_pv m x"] by simp
  qed (use m' hd ht in \<open>auto simp: t_def\<close>)
  then have "fp_rep q' fr (bs @ [h])" unfolding q'_def
  proof (intro fp_rep_relink [OF rep])
    show "dlist (sl_nx m') (sl_pv m') (fr @ bs @ [h])"
      using \<open>dlist (sl_nx m') (sl_pv m') ((g # ys) @ [h])\<close> ys by (metis append_assoc)
    show "g = hd (fr @ bs @ [h])" using ys by (metis append_assoc append_Cons list.sel(1))
    show "sl_lk m' x = 0" if "x \<in> set fr" for x
    proof -
      have "x \<noteq> h" using that dlist_distinct [OF dl] ys by (metis UnCI append_Nil distinct.simps(2) set_append)
      then show ?thesis using m'(2) rep that by (simp add: fp_rep_def m_def)
    qed
    show "sl_lk m' x \<noteq> 0" if "x \<in> set (bs @ [h])" for x
      using m'(2) rep that by (auto simp: fp_rep_def m_def)
    show "dom m' = dom (fp_slices q)" using m' by (simp add: m_def)
  qed (use rep in \<open>auto simp: fp_rep_def\<close>)
  ultimately show ?thesis by blast
qed

lemma remove1_parts:
  assumes "distinct (fr @ bs)" "fr @ bs = as @ x # cs"
  shows "remove1 x fr @ remove1 x bs = as @ cs"
proof -
  have "remove1 x (fr @ bs) = as @ cs"
    using assms by (simp add: remove1_append)
  then show ?thesis
  proof (cases "x \<in> set fr")
    case True
    then have "x \<notin> set bs" using assms(1) by auto
    with True \<open>remove1 x (fr @ bs) = as @ cs\<close> show ?thesis by (simp add: remove1_append remove1_idem)
  qed (simp add: remove1_append remove1_idem)
qed

text \<open>The three ways \<open>swFixedPool_free\<close> relinks: not at all, at the end of the list, in the middle.\<close>

lemma free_store:
  assumes dl: "dlist (sl_nx m) (sl_pv m) (as @ x # cs)" and dm: "dom m = set (as @ x # cs)"
    and q: "fp_slices q = m" "fp_head q = hd (as @ x # cs)" "fp_tail q = last (as @ x # cs)"
    and pos: "fp_memory q \<le> x" "x + sizeof_slice < fp_memory q + fp_size q"
  shows "\<exists>m'. swFixedPool_free q (x + sizeof_slice) = Some (q\<lparr>fp_slice_use :=
        (if sl_lk m x \<noteq> 0 then fp_slice_use q - 1 else fp_slice_use q),
        fp_head := x, fp_tail := last (x # as @ cs), fp_slices := m'\<rparr>) \<and>
      dom m' = dom m \<and> (\<forall>y. sl_lk m' y = (if y = x then 0 else sl_lk m y)) \<and>
      dlist (sl_nx m') (sl_pv m') (x # as @ cs)"
proof (cases as rule: rev_cases)
  case Nil
  let ?m = "wr x (sl_lock_update (\<lambda>_. 0)) m"
  have xin: "x \<in> dom m" using dm by simp
  then obtain sx where sx: "m x = Some sx" by auto
  then have "sl_pre sx = NULL" using dlist_at(2) [OF dl] Nil by simp
  with sx xin q pos Nil have "swFixedPool_free q (x + sizeof_slice) = Some (q\<lparr>fp_slice_use :=
        (if sl_lk m x \<noteq> 0 then fp_slice_use q - 1 else fp_slice_use q),
        fp_head := x, fp_tail := last (x # as @ cs), fp_slices := ?m\<rparr>)"
    by (simp add: swFixedPool_free_def sizeof_slice_def Let_def)
  moreover have "sl_nx ?m = sl_nx m" "sl_pv ?m = sl_pv m" "dom ?m = dom m"
    "\<And>y. sl_lk ?m y = (if y = x then 0 else sl_lk m y)"
    using xin by (auto simp: the_wr)
  ultimately show ?thesis using dl Nil by (intro exI [of _ ?m]) simp
next
  case (snoc as' l)
  define h where "h = hd as"
  have h: "fp_head q = h" "h \<in> set as" "hd (as @ cs) = h" "hd (as @ x # cs) = h" using snoc q by (cases as'; auto simp: h_def)+
  have ne: "as \<noteq> []" "last as = l" "l \<in> set as" using snoc by auto
  note at = dlist_at [OF dl]
  have xin: "x \<in> dom m" "l \<in> dom m" "h \<in> dom m" using dm ne h by auto
  then obtain sx where sx: "m x = Some sx" by auto
  have l0: "l \<noteq> NULL" using ne(3) dlist_not_null [OF dl] by (metis UnCI set_append)
  have links: "sl_pre sx = l" "sl_next sx = hd (cs @ [NULL])" "l \<noteq> x" "h \<noteq> x"
    using at sx ne h dlist_not_null [OF dl] by auto
  define m2 where "m2 = wr l (sl_next_update (\<lambda>_. hd (cs @ [NULL]))) (wr x (sl_lock_update (\<lambda>_. 0)) m)"
  define m3 where "m3 = (if cs = [] then m2 else wr (hd cs) (sl_pre_update (\<lambda>_. l)) m2)"
  define m' where "m' = wr h (sl_pre_update (\<lambda>_. x))
    (wr x (sl_pre_update (\<lambda>_. NULL) \<circ> sl_next_update (\<lambda>_. h)) m3)"
  have cs: "cs \<noteq> [] \<Longrightarrow> hd cs \<in> dom m" "cs \<noteq> [] \<Longrightarrow> hd cs \<noteq> x" "cs \<noteq> [] \<Longrightarrow> hd cs \<noteq> h" "cs \<noteq> [] \<Longrightarrow> hd cs \<noteq> NULL"
    using dm at h dlist_distinct [OF dl] dlist_not_null [OF dl] by (cases cs; auto)+
  have "swFixedPool_free q (x + sizeof_slice) = Some (q\<lparr>fp_slice_use :=
        (if sl_lk m x \<noteq> 0 then fp_slice_use q - 1 else fp_slice_use q),
        fp_head := x, fp_tail := last (x # as @ cs), fp_slices := m'\<rparr>)"
    using sx xin q(1,3) pos links l0 cs h ne
    by (cases cs) (auto simp: swFixedPool_free_def sizeof_slice_def Let_def m'_def m3_def m2_def)
  moreover have "dom m' = dom m" using xin cs by (auto simp: m'_def m3_def m2_def)
  moreover have m': "sl_lk m' y = (if y = x then 0 else sl_lk m y)"
    "sl_nx m' y = (if y = x then h else if y = l then hd (cs @ [NULL]) else sl_nx m y)"
    "sl_pv m' y = (if y = h then x else if y = x then NULL else if cs \<noteq> [] \<and> y = hd cs then l else sl_pv m y)" for y
    using links l0 cs by (auto simp: m'_def m3_def m2_def the_wr)
  moreover have "dlist (sl_nx m') (sl_pv m') (x # as @ cs)"
  proof (rule dlist_push_front)
    show "dlist (\<lambda>y. if y = l then hd (cs @ [NULL]) else sl_nx m y)
        (\<lambda>y. if cs \<noteq> [] \<and> y = hd cs then l else sl_pv m y) (as @ cs)"
      by (rule dlist_remove [OF dl]) (use ne in auto)
  qed (use m' at h ne links in auto)
  ultimately show ?thesis by blast
qed

lemma free_rep:
  assumes rep: "fp_rep q fr bs" and x: "x \<in> set (fr @ bs)"
  shows "\<exists>q'. swFixedPool_free q (x + sizeof_slice) = Some q' \<and>
    fp_rep q' (x # remove1 x fr) (remove1 x bs)"
proof -
  obtain as cs where xs: "fr @ bs = as @ x # cs" using split_list [OF x] by auto
  have d: "distinct (fr @ bs)" using rep by (auto simp: fp_rep_def dest: dlist_distinct)
  note parts = remove1_parts [OF d xs]
  have lk: "sl_lk (fp_slices q) x \<noteq> 0 \<longleftrightarrow> x \<in> set bs" using rep x d by (auto simp: fp_rep_def)
  obtain m' where m': "swFixedPool_free q (x + sizeof_slice) = Some (q\<lparr>fp_slice_use :=
        (if x \<in> set bs then fp_slice_use q - 1 else fp_slice_use q),
        fp_head := x, fp_tail := last (x # as @ cs), fp_slices := m'\<rparr>)"
      "dom m' = dom (fp_slices q)" "\<And>y. sl_lk m' y = (if y = x then 0 else sl_lk (fp_slices q) y)"
      "dlist (sl_nx m') (sl_pv m') (x # as @ cs)"
    using free_store [of "fp_slices q" as x cs q] rep xs x lk by (auto simp: fp_rep_def)
  have "fp_rep (q\<lparr>fp_slice_use := (if x \<in> set bs then fp_slice_use q - 1 else fp_slice_use q),
        fp_head := x, fp_tail := last (x # as @ cs), fp_slices := m'\<rparr>) (x # remove1 x fr) (remove1 x bs)"
  proof (rule fp_rep_relink [OF rep])
    show "set ((x # remove1 x fr) @ remove1 x bs) = set (fr @ bs)" unfolding append_Cons parts xs by auto
    show "length ((x # remove1 x fr) @ remove1 x bs) = length (fr @ bs)" unfolding append_Cons parts xs by simp
    show "dlist (sl_nx m') (sl_pv m') ((x # remove1 x fr) @ remove1 x bs)" using m'(4) parts by simp
    show "last (x # as @ cs) = last ((x # remove1 x fr) @ remove1 x bs)" using parts by simp
    show "(if x \<in> set bs then fp_slice_use q - 1 else fp_slice_use q) = length (remove1 x bs)"
      using rep by (simp add: fp_rep_def length_remove1)
    show "sl_lk m' y = 0" if "y \<in> set (x # remove1 x fr)" for y
      using m'(3) rep that set_remove1_subset [of x fr] by (auto simp: fp_rep_def)
    show "sl_lk m' y \<noteq> 0" if "y \<in> set (remove1 x bs)" for y
      using m'(3) rep that d by (auto simp: fp_rep_def)
  qed (use m' in auto)
  with m'(1) show ?thesis by blast
qed

section \<open>Initialisation\<close>

text \<open>After \<open>k\<close> iterations the slices at the first \<open>k\<close> strides are linked, the last one first; its
  \<open>pre\<close> already holds the address \<open>a\<close> of the next slice.\<close>

definition fp_addrs :: "swFixedPool \<Rightarrow> nat \<Rightarrow> ptr list" where
  "fp_addrs q k = rev (map (\<lambda>i. fp_memory q + i * fp_stride q) [0..<k])"

definition fp_part :: "swFixedPool \<Rightarrow> nat \<Rightarrow> ptr \<Rightarrow> bool" where
  "fp_part q k a \<longleftrightarrow> dseg (sl_nx (fp_slices q)) (sl_pv (fp_slices q)) a (fp_addrs q k) NULL \<and>
     dom (fp_slices q) = set (fp_addrs q k) \<and> (\<forall>x \<in> set (fp_addrs q k). sl_lk (fp_slices q) x = 0) \<and>
     fp_head q = hd (fp_addrs q k @ [NULL]) \<and> fp_tail q = last (NULL # fp_addrs q k) \<and> fp_slice_use q = 0"

lemma fp_addrs_Suc: "fp_addrs q (Suc k) = (fp_memory q + k * fp_stride q) # fp_addrs q k"
  by (simp add: fp_addrs_def)

lemma fp_stride_pos: "0 < fp_stride q"
  by (simp add: fp_stride_def sizeof_slice_def)

lemma fp_addrs_below: "x \<in> set (fp_addrs q k) \<Longrightarrow> fp_memory q \<le> x \<and> x < fp_memory q + k * fp_stride q"
  using fp_stride_pos [of q] by (auto simp: fp_addrs_def)

lemma fp_addrs_distinct: "distinct (fp_addrs q k)"
  using fp_stride_pos [of q] by (auto simp: fp_addrs_def distinct_map inj_on_def)

lemma init_step_part:
  assumes part: "fp_part q k cur" and cur: "cur = fp_memory q + k * fp_stride q" "fp_memory q \<noteq> NULL"
    and fits: "cur + sizeof_slice \<le> lim"
  defines "nc \<equiv> cur + fp_stride q"
  shows "\<exists>q'. swFixedPool_init_step q cur lim = Some q' \<and> fp_part q' (Suc k) (if nc < lim then nc else NULL) \<and>
    fp_memory q' = fp_memory q \<and> fp_size q' = fp_size q \<and> fp_slice_size q' = fp_slice_size q \<and>
    fp_slice_num q' = fp_slice_num q"
proof -
  define m where "m = fp_slices q"
  define m0 where "m0 = m(cur \<mapsto> \<lparr>sl_lock = 0, sl_next = NULL, sl_pre = NULL\<rparr>)"
  define xs where "xs = fp_addrs q k"
  define nn where "nn = (if nc < lim then nc else NULL)"
  define m1 where "m1 = (if xs = [] then m0 else
    wr cur (sl_next_update (\<lambda>_. hd xs)) (wr (hd xs) (sl_pre_update (\<lambda>_. cur)) m0))"
  define m' where "m' = wr cur (sl_pre_update (\<lambda>_. nn)) m1"
  define q' where "q' = q\<lparr>fp_tail := if xs = [] then cur else fp_tail q, fp_head := cur, fp_slices := m'\<rparr>"
  have fresh: "cur \<notin> set xs" "cur \<noteq> NULL" using fp_addrs_below [of cur q k] cur by (auto simp: xs_def)
  have part': "dseg (sl_nx m) (sl_pv m) cur xs NULL" "dom m = set xs" "fp_head q = hd (xs @ [NULL])"
    using part by (simp_all add: fp_part_def m_def xs_def)
  have h: "hd xs \<in> dom m" "hd xs \<noteq> NULL" "hd xs \<noteq> cur" "sl_pv m (hd xs) = cur" if "xs \<noteq> []"
    using that part' dseg_not_null [OF part'(1)] fresh by (cases xs; auto)+
  have eq: "swFixedPool_init_step q cur lim = Some q'"
  proof -
    have "cur \<in> dom m0" "cur \<in> dom m1" "xs \<noteq> [] \<Longrightarrow> hd xs \<in> dom m0"
      using h(1) by (auto simp: m0_def m1_def)
    with fits part'(3) h show ?thesis
      by (cases "xs = []") (simp_all add: swFixedPool_init_step_def m0_def [symmetric] m_def [symmetric]
          q'_def m'_def m1_def nn_def nc_def fp_stride_def)
  qed
  have m': "dom m' = insert cur (set xs)" "\<And>y. sl_lk m' y = (if y = cur then 0 else sl_lk m y)"
    "\<And>y. sl_nx m' y = (if y = cur then hd (xs @ [NULL]) else sl_nx m y)"
    "\<And>y. sl_pv m' y = (if y = cur then nn else sl_pv m y)"
    using h part'(2) by (auto simp: m'_def m1_def m0_def the_wr)
  have "dseg (sl_nx m') (sl_pv m') cur xs NULL"
    using part'(1) fresh m' by (subst dseg_cong [of xs _ "sl_nx m" _ "sl_pv m"]) auto
  then have "fp_part q' (Suc k) nn"
    using part m' fresh cur xs_def
    by (auto simp: fp_part_def fp_addrs_def fp_stride_def q'_def m_def)
  with eq show ?thesis by (auto simp: q'_def nn_def)
qed

text \<open>The loop makes a slice at every stride that begins before the end of the block, whole or not;
  it overruns the block when the header of the last one does not fit.\<close>

lemma init_loop_part:
  assumes "fp_part q k (fp_memory q + k * fp_stride q)" "k < N" "fp_memory q \<noteq> NULL"
    and "fp_memory q + (N - 1) * fp_stride q < lim" "lim \<le> fp_memory q + N * fp_stride q"
  shows "if fp_memory q + (N - 1) * fp_stride q + sizeof_slice \<le> lim
    then \<exists>q'. swFixedPool_init_loop q (fp_memory q + k * fp_stride q) lim = Some q' \<and> fp_part q' N NULL \<and>
      fp_memory q' = fp_memory q \<and> fp_size q' = fp_size q \<and> fp_slice_size q' = fp_slice_size q \<and>
      fp_slice_num q' = fp_slice_num q
    else swFixedPool_init_loop q (fp_memory q + k * fp_stride q) lim = None"
  using assms
proof (induction "N - k" arbitrary: q k)
  case (Suc d)
  let ?cur = "fp_memory q + k * fp_stride q"
  show ?case
  proof (cases "?cur + sizeof_slice \<le> lim")
    case True
    obtain q' where q': "swFixedPool_init_step q ?cur lim = Some q'"
      "fp_part q' (Suc k) (if ?cur + fp_stride q < lim then ?cur + fp_stride q else NULL)"
      "fp_memory q' = fp_memory q" "fp_size q' = fp_size q" "fp_slice_size q' = fp_slice_size q"
      "fp_slice_num q' = fp_slice_num q"
      using init_step_part [OF Suc.prems(1) refl Suc.prems(3) True] by blast
    then have st: "fp_stride q' = fp_stride q" by (simp add: fp_stride_def)
    have rec: "swFixedPool_init_loop q ?cur lim =
        (if ?cur + fp_stride q < lim then swFixedPool_init_loop q' (?cur + fp_stride q) lim else Some q')"
      by (subst swFixedPool_init_loop.simps) (simp add: q'(1) Let_def flip: fp_stride_def)
    show ?thesis
    proof (cases "Suc k = N")
      case True
      then have "\<not> ?cur + fp_stride q < lim" "N - 1 = k" using Suc.prems(5) by auto
      then show ?thesis using q' True rec \<open>?cur + sizeof_slice \<le> lim\<close> by simp
    next
      case False
      then have k: "Suc k < N" using Suc.prems(2) by simp
      have "Suc k * fp_stride q \<le> (N - 1) * fp_stride q" using k by (intro mult_right_mono) auto
      then have lt: "?cur + fp_stride q < lim" using Suc.prems(4) by simp
      have next_cur: "?cur + fp_stride q = fp_memory q' + Suc k * fp_stride q'" using q' st by simp
      have d: "d = N - Suc k" using Suc.hyps(2) by simp
      have part: "fp_part q' (Suc k) (fp_memory q' + Suc k * fp_stride q')" using q'(2) lt next_cur by simp
      from Suc.hyps(1) [OF d part k] Suc.prems(3-5) have
        "if fp_memory q + (N - 1) * fp_stride q + sizeof_slice \<le> lim
         then \<exists>r. swFixedPool_init_loop q' (?cur + fp_stride q) lim = Some r \<and> fp_part r N NULL \<and>
           fp_memory r = fp_memory q \<and> fp_size r = fp_size q \<and> fp_slice_size r = fp_slice_size q \<and>
           fp_slice_num r = fp_slice_num q
         else swFixedPool_init_loop q' (?cur + fp_stride q) lim = None"
        unfolding next_cur by (simp only: q'(3-6) st simp_thms True_implies_equals)
      with rec lt show ?thesis by simp
    qed
  next
    case False
    have "N - 1 = k"
    proof (rule ccontr)
      assume "N - 1 \<noteq> k"
      then have "Suc k * fp_stride q \<le> (N - 1) * fp_stride q" using Suc.prems(2) by (intro mult_right_mono) auto
      with Suc.prems(4) False show False by (simp add: fp_stride_def)
    qed
    with False show ?thesis
      by (subst swFixedPool_init_loop.simps) (simp add: swFixedPool_init_step_def)
  qed
qed simp

lemma fp_part_rep:
  assumes "fp_part q N NULL" "2 \<le> N" "fp_size q = N * fp_stride q" "0 < fp_slice_size q"
  shows "fp_rep q (fp_addrs q N) []"
proof -
  have "x + sizeof_slice < fp_memory q + N * fp_stride q" if "x \<in> set (fp_addrs q N)" for x
  proof -
    have "x \<in> (\<lambda>i. fp_memory q + i * fp_stride q) ` {0..<N}" using that by (simp add: fp_addrs_def)
    then obtain i where i: "i < N" "x = fp_memory q + i * fp_stride q" by auto
    then have "Suc i * fp_stride q \<le> N * fp_stride q" by (intro mult_right_mono) auto
    with i assms(4) show ?thesis by (simp add: fp_stride_def)
  qed
  moreover have "length (fp_addrs q N) = N" "fp_addrs q N \<noteq> []" using assms(2) by (auto simp: fp_addrs_def)
  ultimately show ?thesis
    using assms fp_addrs_below [of _ q N] fp_addrs_distinct [of q N]
    by (auto simp: fp_rep_def fp_part_def dlist_def)
qed

lemma init_rep:
  assumes n: "2 \<le> n" and sz: "0 < sz" and mem: "mem \<noteq> NULL"
    and q0: "q0 = \<lparr>fp_memory = mem, fp_size = n * (sz + 24), fp_head = NULL, fp_tail = NULL, fp_slice_num = num,
      fp_slice_use = 0, fp_slice_size = sz, fp_shared = shared, fp_slices = Map.empty\<rparr>"
  shows "\<exists>q. swFixedPool_init q0 = Some q \<and> fp_rep q (fp_addrs q n) [] \<and> fp_memory q = mem \<and> fp_stride q = sz + 24"
proof -
  have part: "fp_part q0 0 (fp_memory q0 + 0 * fp_stride q0)"
    by (simp add: fp_part_def fp_addrs_def q0)
  have st: "fp_stride q0 = sz + 24" "fp_memory q0 = mem" "fp_size q0 = n * (sz + 24)"
    by (simp_all add: fp_stride_def sizeof_slice_def q0)
  have "(n - 1) * (sz + 24) + (sz + 24) = n * (sz + 24)" using n by (cases n) simp_all
  then obtain q where "swFixedPool_init q0 = Some q" "fp_part q n NULL" "fp_memory q = mem"
    "fp_size q = n * (sz + 24)" "fp_slice_size q = sz"
    using init_loop_part [OF part, of n "mem + n * (sz + 24)"] n mem st
    by (auto simp: swFixedPool_init_def sizeof_slice_def q0)
  moreover from this have "fp_stride q = sz + 24" by (simp add: fp_stride_def sizeof_slice_def)
  ultimately show ?thesis using fp_part_rep [of q n] n sz by auto
qed

lemma new_rep:
  assumes n: "2 \<le> n" and sz: "0 < sz" "sz * n < 2 ^ 32" and mem: "mem \<noteq> NULL"
  shows "\<exists>q. swFixedPool_new n sz shared mem = Some q \<and> fp_rep q (fp_addrs q n) [] \<and>
    fp_memory q = mem \<and> fp_stride q = sz + 24"
proof -
  have "n \<le> sz * n" using sz(1) by simp
  with sz(2) have "n < 2 ^ 32" by (rule le_less_trans [rotated])
  then have "n * sizeof_slice < 2 ^ 32 * 24" by (simp add: sizeof_slice_def)
  then have size: "((sz * n) mod 2 ^ 32 + n * sizeof_slice) mod 2 ^ 64 = n * (sz + 24)"
    using sz(2) by (simp add: sizeof_slice_def algebra_simps)
  show ?thesis unfolding swFixedPool_new_def size by (rule init_rep [OF n sz(1) mem refl])
qed

text \<open>The same for a pool in memory of the caller that holds \<open>n\<close> whole slices.\<close>

lemma new2_rep:
  assumes "2 \<le> n" "0 < sz" "mem \<noteq> NULL"
  shows "\<exists>q. swFixedPool_new2 sz hdr mem (n * (sz + 24) + hdr) = Some q \<and> fp_rep q (fp_addrs q n) [] \<and>
    fp_memory q = mem \<and> fp_stride q = sz + 24"
  unfolding swFixedPool_new2_def Let_def add_diff_cancel_right' by (rule init_rep [OF assms refl])

interpretation fpool: mem_pool fp_inv fp_used fp_blocks swFixedPool_alloc swFixedPool_free
proof
  fix q :: swFixedPool and b :: ptr
  assume "fp_inv q"
  then obtain fr bs where rep: "fp_rep q fr bs" by (auto simp: fp_inv_def)
  note ub = fp_rep_used [OF rep]
  have d: "distinct (fr @ bs)" using rep by (auto simp: fp_rep_def dest: dlist_distinct)
  show "finite (fp_blocks q)" using ub by simp
  show "fp_used q \<subseteq> fp_blocks q" using ub by auto
  { assume "fp_used q \<noteq> fp_blocks q"
    then obtain h fr' where fr: "fr = h # fr'" using ub by (cases fr) auto
    obtain q' where q': "swFixedPool_alloc q = Some (q', Some (h + sizeof_slice))" "fp_rep q' fr' (bs @ [h])"
      using alloc_rep rep fr by blast
    with fp_rep_used [OF q'(2)] ub fr d show "\<exists>q' b. swFixedPool_alloc q = Some (q', Some b) \<and> fp_inv q' \<and>
        fp_blocks q' = fp_blocks q \<and> b \<in> fp_blocks q - fp_used q \<and> fp_used q' = insert b (fp_used q)"
      by (intro exI [of _ q'] exI [of _ "h + sizeof_slice"]) (auto simp: fp_inv_def) }
  { assume eq: "fp_used q = fp_blocks q"
    have "set bs = set (fr @ bs)"
      using eq unfolding ub by (simp add: inj_image_eq_iff)
    then have "fr = []" using d by (cases fr) auto
    then show "swFixedPool_alloc q = Some (q, None)" using alloc_rep_full rep by simp }
  { assume "b \<in> fp_blocks q"
    then obtain x where x: "x \<in> set (fr @ bs)" "b = x + sizeof_slice" using ub by auto
    obtain q' where q': "swFixedPool_free q b = Some q'" "fp_rep q' (x # remove1 x fr) (remove1 x bs)"
      using free_rep [OF rep x(1)] x(2) by blast
    have "set (x # remove1 x fr @ remove1 x bs) = set (fr @ bs)" "set (remove1 x bs) = set bs - {x}"
      using d x(1) by auto
    with fp_rep_used [OF q'(2)] q' ub x show "\<exists>q'. swFixedPool_free q b = Some q' \<and> fp_inv q' \<and>
        fp_blocks q' = fp_blocks q \<and> fp_used q' = fp_used q - {b}"
      by (intro exI [of _ q']) (auto simp: fp_inv_def) }
qed

section \<open>Properties\<close>

lemma new2_blocks:
  assumes "2 \<le> n" "0 < sz" "mem \<noteq> NULL"
  shows "\<exists>q. swFixedPool_new2 sz hdr mem (n * (sz + 24) + hdr) = Some q \<and> fp_inv q \<and> fp_used q = {} \<and>
    fp_blocks q = (\<lambda>i. mem + i * (sz + 24) + 24) ` {0..<n}"
proof -
  obtain q where q: "swFixedPool_new2 sz hdr mem (n * (sz + 24) + hdr) = Some q" "fp_rep q (fp_addrs q n) []"
    "fp_memory q = mem" "fp_stride q = sz + 24" using new2_rep [OF assms] by blast
  with fp_rep_used [OF q(2)] show ?thesis
    by (auto simp: fp_inv_def fp_addrs_def sizeof_slice_def image_image)
qed

lemma new_blocks:
  assumes "2 \<le> n" "0 < sz" "sz * n < 2 ^ 32" "mem \<noteq> NULL"
  shows "\<exists>q. swFixedPool_new n sz shared mem = Some q \<and> fp_inv q \<and> fp_used q = {} \<and>
    fp_blocks q = (\<lambda>i. mem + i * (sz + 24) + 24) ` {0..<n}"
proof -
  obtain q where q: "swFixedPool_new n sz shared mem = Some q" "fp_rep q (fp_addrs q n) []"
    "fp_memory q = mem" "fp_stride q = sz + 24" using new_rep [OF assms] by blast
  with fp_rep_used [OF q(2)] show ?thesis
    by (auto simp: fp_inv_def fp_addrs_def sizeof_slice_def image_image)
qed

text \<open>C8. A pool made by \<open>swFixedPool_new\<close> with \<open>n\<close> slices of \<open>sz\<close> bytes serves \<open>n\<close> allocations with
  \<open>n\<close> different blocks, each of them the \<open>sz\<close> bytes after one slice header inside the memory of
  the pool, without ever following an invalid pointer, and answers the next one with \<open>NULL\<close>.
  (The total size must fit the 32-bit product of the code, and there must be two slices.)\<close>

theorem swFixedPool_serves_all:
  assumes "2 \<le> n" "0 < sz" "sz * n < 2 ^ 32" "mem \<noteq> NULL"
  shows "\<exists>q q' bs. swFixedPool_new n sz shared mem = Some q \<and>
    pool_run swFixedPool_alloc swFixedPool_free (replicate n Alloc) q = Some (q', map Some bs) \<and>
    length bs = n \<and> distinct bs \<and> set bs = (\<lambda>i. mem + i * (sz + 24) + 24) ` {0..<n} \<and>
    swFixedPool_alloc q' = Some (q', None)"
proof -
  obtain q where q: "swFixedPool_new n sz shared mem = Some q" "fp_inv q" "fp_used q = {}"
    "fp_blocks q = (\<lambda>i. mem + i * (sz + 24) + 24) ` {0..<n}"
    using new_blocks [OF assms] by blast
  have "inj_on (\<lambda>i. mem + i * (sz + 24) + 24) {0..<n}" by (auto simp: inj_on_def)
  then have card: "card (fp_blocks q) = n" using q(4) by (simp add: card_image)
  then obtain q' bs where run: "pool_run swFixedPool_alloc swFixedPool_free (replicate n Alloc) q = Some (q', map Some bs)"
    "fp_inv q'" "length bs = n" "distinct bs" "set bs \<subseteq> fp_blocks q" "fp_used q' = set bs" "fp_blocks q' = fp_blocks q"
    using fpool.allocs_distinct [OF q(2), of n] q(3) by auto
  have "set bs = fp_blocks q"
    using run(3-5) card fpool.blocks_finite [OF q(2)] by (metis card_subset_eq distinct_card)
  with fpool.alloc_full [OF run(2)] run q show ?thesis by auto
qed

theorem swFixedPool_serves_all_witness:
  "\<exists>q q' bs. swFixedPool_new 3 8 True 1000 = Some q \<and>
    pool_run swFixedPool_alloc swFixedPool_free (replicate 3 Alloc) q = Some (q', map Some bs) \<and>
    length bs = 3 \<and> distinct bs \<and> swFixedPool_alloc q' = Some (q', None)"
  using swFixedPool_serves_all [of 3 8 1000 True] by auto

text \<open>C9. Whatever a client does with a pool of at least two slices, any number of allocations and returns of its blocks
  in any order (blocks that are idle already included), the pool follows no invalid pointer and
  keeps its invariant: the idle and the busy slices form one list, and the blocks stay the same.\<close>

theorem swFixedPool_never_crashes:
  assumes "fp_inv q" and "\<And>b. Release b \<in> set ops \<Longrightarrow> b \<in> fp_blocks q"
  shows "\<exists>q' rs. pool_run swFixedPool_alloc swFixedPool_free ops q = Some (q', rs) \<and>
    fp_inv q' \<and> fp_blocks q' = fp_blocks q"
  using fpool.run_ok [OF assms] by blast

theorem swFixedPool_never_crashes_witness:
  "\<exists>q q' rs. swFixedPool_new 2 8 False 1000 = Some q \<and>
    pool_run swFixedPool_alloc swFixedPool_free [Alloc, Release 1024, Release 1024, Alloc] q = Some (q', rs) \<and>
    fp_inv q'"
proof -
  obtain q where q: "swFixedPool_new 2 8 False 1000 = Some q" "fp_inv q"
    "fp_blocks q = (\<lambda>i. 1000 + i * (8 + 24) + 24) ` {0..<2}"
    using new_blocks [of 2 8 1000 False] by auto
  have "1000 + 0 * (8 + 24) + 24 \<in> fp_blocks q" unfolding q(3) by (rule image_eqI [of _ _ 0]) simp_all
  then have "b \<in> fp_blocks q" if "Release b \<in> set [Alloc, Release 1024, Release 1024, Alloc]" for b
    using that by auto
  from swFixedPool_never_crashes [OF q(2) this] q(1) show ?thesis by blast
qed

text \<open>C10. A pool of a single slice cannot serve it: \<open>swFixedPool_alloc\<close> writes through
  \<open>slice->next\<close>, which is the null pointer.\<close>

theorem swFixedPool_single_slice_crashes:
  assumes "dlist (sl_nx (fp_slices q)) (sl_pv (fp_slices q)) [x]" and "dom (fp_slices q) = {x}"
    and "fp_head q = x" and "sl_lk (fp_slices q) x = 0"
  shows "swFixedPool_alloc q = None"
proof -
  have "x \<noteq> NULL" "sl_nx (fp_slices q) x = NULL" using assms(1) by (auto simp: dlist_def)
  moreover obtain s where "fp_slices q x = Some s" using assms(2) by auto
  ultimately show ?thesis using assms by (simp add: swFixedPool_alloc_def)
qed

theorem swFixedPool_single_slice_crashes_witness:
  "\<exists>q. swFixedPool_new 1 8 False 1000 = Some q \<and> swFixedPool_alloc q = None"
proof -
  let ?s = "\<lparr>sl_lock = 0, sl_next = 0, sl_pre = 0\<rparr>"
  define q where "q = \<lparr>fp_memory = 1000, fp_size = 32, fp_head = 1000, fp_tail = 1000, fp_slice_num = 1,
    fp_slice_use = 0, fp_slice_size = 8, fp_shared = False, fp_slices = [1000 \<mapsto> ?s]\<rparr>"
  have "swFixedPool_new 1 8 False 1000 = Some q"
    by (simp add: swFixedPool_new_def swFixedPool_init_def swFixedPool_init_loop.simps
        swFixedPool_init_step_def sizeof_slice_def wr_def q_def)
  moreover have "swFixedPool_alloc q = None"
    by (rule swFixedPool_single_slice_crashes [of _ 1000]) (simp_all add: q_def dlist_def)
  ultimately show ?thesis by blast
qed

end
