(* ===== verification/Sw_RingBuffer.thy ===== *)
theory Sw_RingBuffer
  imports Sw_Prelude
begin

text \<open>
  The ring-buffer pool of \<open>src/memory/RingBuffer.c\<close>: blocks of any size carved one after the
  other out of one piece of memory, each behind a header, and reclaimed in the order in which they
  were carved. Headers are kept by their offset from the start of the memory. Writing a block
  destroys every header it overlaps, so a header that is read has to be intact: \<open>None\<close> is the read
  of a destroyed header or a failed assertion. The header has 8 bytes.
\<close>

section \<open>Data\<close>

record swRingBuffer_item =
  ri_lock :: nat
  ri_index :: nat
  ri_length :: nat

record swRingBuffer =
  rb_shared :: bool
  rb_status :: nat
  rb_size :: nat
  rb_alloc_offset :: nat
  rb_collect_offset :: nat
  rb_alloc_count :: nat
  rb_free_count :: nat
  rb_items :: "nat \<rightharpoonup> swRingBuffer_item"

definition sizeof_item :: nat where
  "sizeof_item = 8"

text \<open>Writing \<open>n\<close> bytes at offset \<open>i\<close>, a header first.\<close>

definition rb_write :: "nat \<Rightarrow> nat \<Rightarrow> swRingBuffer_item \<Rightarrow> (nat \<rightharpoonup> swRingBuffer_item) \<Rightarrow> (nat \<rightharpoonup> swRingBuffer_item)" where
  "rb_write i n it m = (\<lambda>x. if x = i then Some it
     else if i < x + sizeof_item \<and> x < i + n then None else m x)"

section \<open>Operations\<close>

text \<open>\<open>swRingBuffer_new\<close>: \<open>hdr\<close> is the size of the two structures at the front of the block, \<open>ok\<close>
  the answer of the allocator.\<close>

definition swRingBuffer_new :: "nat \<Rightarrow> bool \<Rightarrow> nat \<Rightarrow> bool \<Rightarrow> swRingBuffer option" where
  "swRingBuffer_new sz shared hdr ok =
     (if \<not> ok then None
      else Some \<lparr>rb_shared = shared, rb_status = 0, rb_size = sz - hdr, rb_alloc_offset = 0,
        rb_collect_offset = 0, rb_alloc_count = 0, rb_free_count = 0, rb_items = Map.empty\<rparr>)"

text \<open>The loop of \<open>swRingBuffer_collect\<close>, \<open>count\<close> iterations at most.\<close>

fun swRingBuffer_collect_loop :: "nat \<Rightarrow> swRingBuffer \<Rightarrow> swRingBuffer option" where
  "swRingBuffer_collect_loop 0 r = Some r"
| "swRingBuffer_collect_loop (Suc count) r =
     (case rb_items r (rb_collect_offset r) of
        None \<Rightarrow> None
      | Some item \<Rightarrow>
          if ri_lock item = 0 then
            let n_size = ri_length item + sizeof_item;
                off = rb_collect_offset r + n_size;
                r1 = (if off + sizeof_item > rb_size r \<or> off \<ge> rb_size r
                      then r\<lparr>rb_collect_offset := 0, rb_status := 0\<rparr>
                      else r\<lparr>rb_collect_offset := off\<rparr>)
            in swRingBuffer_collect_loop count (r1\<lparr>rb_free_count := rb_free_count r - 1\<rparr>)
          else Some r)"

definition swRingBuffer_collect :: "swRingBuffer \<Rightarrow> swRingBuffer option" where
  "swRingBuffer_collect r = swRingBuffer_collect_loop (rb_free_count r) r"

text \<open>What \<open>swRingBuffer_alloc\<close> does after the collection. The result is the offset of the data.
  The sums of 32-bit values wrap. The index of the block that fills the end of the memory is not
  written by the code and never read.\<close>

definition swRingBuffer_place :: "swRingBuffer \<Rightarrow> nat \<Rightarrow> swRingBuffer \<times> nat option" where
  "swRingBuffer_place r sz =
     (let alloc_size = (sz + sizeof_item) mod 2 ^ 32;
          (r1, capacity) =
            (if rb_status r = 0 then
               (if (rb_alloc_offset r + alloc_size) mod 2 ^ 32 \<ge> rb_size r - sizeof_item then
                  let skip_n = rb_size r - rb_alloc_offset r;
                      r0 = (if skip_n \<ge> sizeof_item then
                              r\<lparr>rb_items := rb_write (rb_alloc_offset r) sizeof_item
                                  \<lparr>ri_lock = 0, ri_index = 0, ri_length = skip_n - sizeof_item\<rparr> (rb_items r),
                                rb_free_count := rb_free_count r + 1\<rparr>
                            else r)
                  in (r0\<lparr>rb_alloc_offset := 0, rb_status := 1\<rparr>, rb_collect_offset r)
                else (r, rb_size r - rb_alloc_offset r))
             else (r, rb_collect_offset r - rb_alloc_offset r))
      in if capacity < alloc_size then (r1, None)
         else
           let i = rb_alloc_offset r1 in
           (r1\<lparr>rb_items := rb_write i alloc_size
                 \<lparr>ri_lock = 1, ri_index = rb_alloc_count r1 mod 2 ^ 16, ri_length = sz\<rparr> (rb_items r1),
               rb_alloc_offset := i + alloc_size, rb_alloc_count := rb_alloc_count r1 + 1\<rparr>,
            Some (i + sizeof_item)))"

definition swRingBuffer_alloc :: "swRingBuffer \<Rightarrow> nat \<Rightarrow> (swRingBuffer \<times> nat option) option" where
  "swRingBuffer_alloc r sz =
     (if sz = 0 then None
      else case (if rb_free_count r > 0 then swRingBuffer_collect r else Some r) of
        None \<Rightarrow> None
      | Some r1 \<Rightarrow> Some (swRingBuffer_place r1 sz))"

definition swRingBuffer_free :: "swRingBuffer \<Rightarrow> nat \<Rightarrow> swRingBuffer option" where
  "swRingBuffer_free r p =
     (if p > rb_size r \<or> p < sizeof_item then None
      else case rb_items r (p - sizeof_item) of
        None \<Rightarrow> None
      | Some item \<Rightarrow>
          if ri_lock item \<noteq> 1 then None
          else Some (r\<lparr>rb_items := (rb_items r)(p - sizeof_item \<mapsto> item\<lparr>ri_lock := 0\<rparr>),
            rb_free_count := rb_free_count r + 1\<rparr>))"

section \<open>Invariant\<close>

text \<open>\<open>rb_chain m a xs b\<close>: the blocks \<open>xs\<close> lie one after the other from offset \<open>a\<close> to \<open>b\<close>.\<close>

fun rb_chain :: "(nat \<rightharpoonup> swRingBuffer_item) \<Rightarrow> nat \<Rightarrow> swRingBuffer_item list \<Rightarrow> nat \<Rightarrow> bool" where
  "rb_chain m a [] b \<longleftrightarrow> a = b"
| "rb_chain m a (x # xs) b \<longleftrightarrow> m a = Some x \<and> rb_chain m (a + (ri_length x + sizeof_item)) xs b"

fun rb_offs :: "nat \<Rightarrow> swRingBuffer_item list \<Rightarrow> nat set" where
  "rb_offs a [] = {}"
| "rb_offs a (x # xs) = insert a (rb_offs (a + (ri_length x + sizeof_item)) xs)"

definition rb_idle :: "swRingBuffer_item list \<Rightarrow> nat" where
  "rb_idle xs = length (filter (\<lambda>x. ri_lock x = 0) xs)"

text \<open>\<open>rb_rep r xs ys\<close>: \<open>xs\<close> are the blocks from the collecting end on, \<open>ys\<close> those at the front of the
  memory once the allocating end has wrapped (\<open>status\<close> 1); a block that is still locked is one of
  them, and \<open>free_count\<close> counts the others.\<close>

definition rb_rep :: "swRingBuffer \<Rightarrow> swRingBuffer_item list \<Rightarrow> swRingBuffer_item list \<Rightarrow> bool" where
  "rb_rep r xs ys \<longleftrightarrow> sizeof_item \<le> rb_size r \<and> rb_free_count r = rb_idle (xs @ ys) \<and>
     (\<forall>i it. rb_items r i = Some it \<and> ri_lock it \<noteq> 0 \<longrightarrow>
        ri_lock it = 1 \<and> i \<in> rb_offs (rb_collect_offset r) xs \<union> rb_offs 0 ys) \<and>
     (if rb_status r = 0
      then rb_chain (rb_items r) (rb_collect_offset r) xs (rb_alloc_offset r) \<and> ys = [] \<and>
        rb_alloc_offset r + sizeof_item \<le> rb_size r
      else rb_chain (rb_items r) (rb_collect_offset r) xs (rb_size r) \<and> xs \<noteq> [] \<and>
        rb_chain (rb_items r) 0 ys (rb_alloc_offset r) \<and> rb_alloc_offset r \<le> rb_collect_offset r)"

definition rb_inv :: "swRingBuffer \<Rightarrow> bool" where
  "rb_inv r \<longleftrightarrow> (\<exists>xs ys. rb_rep r xs ys)"

text \<open>The blocks in use, as offset and length of their data.\<close>

definition rb_live :: "swRingBuffer \<Rightarrow> (nat \<times> nat) set" where
  "rb_live r = {(i + sizeof_item, ri_length it) | i it. rb_items r i = Some it \<and> ri_lock it \<noteq> 0}"

definition rb_apart :: "nat \<times> nat \<Rightarrow> nat \<times> nat \<Rightarrow> bool" where
  "rb_apart b c \<longleftrightarrow> fst b + snd b \<le> fst c \<or> fst c + snd c \<le> fst b"

lemma rb_chain_le: "rb_chain m a xs b \<Longrightarrow> a \<le> b"
  by (induction xs arbitrary: a) (auto dest: add_leD1)

lemma rb_chain_append:
  "rb_chain m a (xs @ ys) b \<longleftrightarrow> (\<exists>c. rb_chain m a xs c \<and> rb_chain m c ys b)"
  by (induction xs arbitrary: a) auto

lemma rb_chain_offs:
  assumes "rb_chain m a xs b" "i \<in> rb_offs a xs"
  shows "a \<le> i \<and> (m i = Some t \<longrightarrow> i + sizeof_item + ri_length t \<le> b)"
  using assms
proof (induction xs arbitrary: a)
  case (Cons x xs)
  then have le: "a + (ri_length x + sizeof_item) \<le> b" using rb_chain_le by auto
  show ?case
  proof (cases "i = a")
    case True
    with Cons.prems le show ?thesis by auto
  next
    case False
    with Cons.IH [of "a + (ri_length x + sizeof_item)"] Cons.prems show ?thesis by auto
  qed
qed auto

text \<open>A write outside the span of a chain leaves it alone.\<close>

lemma rb_chain_write:
  assumes "rb_chain m a xs b" "b \<le> i \<or> i + n \<le> a" "0 < n"
  shows "rb_chain (rb_write i n it m) a xs b"
  using assms
proof (induction xs arbitrary: a)
  case (Cons x xs)
  have le: "a + (ri_length x + sizeof_item) \<le> b" using Cons.prems(1) rb_chain_le by auto
  then have "rb_write i n it m a = Some x"
    using Cons.prems by (auto simp: rb_write_def sizeof_item_def)
  moreover have "rb_chain (rb_write i n it m) (a + (ri_length x + sizeof_item)) xs b"
    using Cons.prems by (intro Cons.IH) auto
  ultimately show ?case by simp
qed auto

lemma rb_write_self [simp]: "rb_write i n it m i = Some it"
  by (simp add: rb_write_def)

section \<open>Collection\<close>

lemma rb_offs_chain_item:
  "rb_chain m a xs b \<Longrightarrow> it \<in> set xs \<Longrightarrow> \<exists>i \<in> rb_offs a xs. m i = Some it"
  by (induction xs arbitrary: a) auto

lemma collect_step:
  assumes rep: "rb_rep r xs ys" and pos: "0 < rb_free_count r"
    and it: "rb_items r (rb_collect_offset r) = Some item" "ri_lock item = 0"
  defines "off \<equiv> rb_collect_offset r + (ri_length item + sizeof_item)"
  shows "\<exists>xs' ys'. rb_rep ((if off + sizeof_item > rb_size r \<or> off \<ge> rb_size r
      then r\<lparr>rb_collect_offset := 0, rb_status := 0\<rparr> else r\<lparr>rb_collect_offset := off\<rparr>)
      \<lparr>rb_free_count := rb_free_count r - 1\<rparr>) xs' ys' \<and> length (xs' @ ys') < length (xs @ ys)"
    (is "\<exists>xs' ys'. rb_rep ?r xs' ys' \<and> ?less xs' ys'")
proof -
  have "xs \<noteq> []" using rep pos by (auto simp: rb_rep_def rb_idle_def split: if_splits)
  then obtain zs where xs: "xs = item # zs" using rep it by (cases xs) (auto simp: rb_rep_def split: if_splits)
  have locked: "i \<in> rb_offs off zs \<union> rb_offs 0 ys" "ri_lock t = 1" if "rb_items r i = Some t" "ri_lock t \<noteq> 0" for i t
  proof -
    have "ri_lock t = 1 \<and> i \<in> rb_offs (rb_collect_offset r) xs \<union> rb_offs 0 ys"
      using rep that by (simp add: rb_rep_def)
    moreover have "i \<noteq> rb_collect_offset r" using that it by auto
    ultimately show "i \<in> rb_offs off zs \<union> rb_offs 0 ys" "ri_lock t = 1" by (simp_all add: xs off_def)
  qed
  have cnt: "rb_free_count r - 1 = rb_idle (zs @ ys)" using rep it by (simp add: rb_rep_def xs rb_idle_def)
  show ?thesis
  proof (cases "rb_status r = 0")
    case True
    then have ch: "rb_chain (rb_items r) off zs (rb_alloc_offset r)" "ys = []"
      "rb_alloc_offset r + sizeof_item \<le> rb_size r" "sizeof_item \<le> rb_size r"
      using rep by (auto simp: rb_rep_def xs off_def)
    with rb_chain_le [OF ch(1)] have "\<not> (off + sizeof_item > rb_size r \<or> off \<ge> rb_size r)"
      by (simp add: sizeof_item_def)
    with ch locked cnt True have "rb_rep ?r zs [] \<and> ?less zs []" by (auto simp: rb_rep_def xs)
    then show ?thesis by blast
  next
    case False
    then have ch: "rb_chain (rb_items r) off zs (rb_size r)" "rb_chain (rb_items r) 0 ys (rb_alloc_offset r)"
      "rb_alloc_offset r \<le> rb_collect_offset r" "sizeof_item \<le> rb_size r"
      using rep by (auto simp: rb_rep_def xs off_def)
    show ?thesis
    proof (cases zs)
      case Nil
      then have "off = rb_size r" using ch(1) by simp
      then have "rb_alloc_offset r + sizeof_item \<le> rb_size r" using ch(3) by (simp add: off_def)
      with ch locked cnt Nil \<open>off = rb_size r\<close> have "rb_rep ?r ys [] \<and> ?less ys []"
        by (auto simp: rb_rep_def xs sizeof_item_def)
      then show ?thesis by blast
    next
      case (Cons z zs')
      then have "off + sizeof_item \<le> rb_size r" using ch(1) rb_chain_le by fastforce
      moreover from this have "\<not> off \<ge> rb_size r" by (simp add: sizeof_item_def)
      moreover have "rb_alloc_offset r \<le> off" using ch(3) by (simp add: off_def)
      ultimately have "rb_rep ?r zs ys \<and> ?less zs ys"
        using ch locked cnt Cons False by (auto simp: rb_rep_def xs)
      then show ?thesis by blast
    qed
  qed
qed

lemma collect_loop_rep:
  assumes "rb_rep r xs ys" "n \<le> rb_free_count r"
  shows "\<exists>r' xs' ys'. swRingBuffer_collect_loop n r = Some r' \<and> rb_rep r' xs' ys' \<and>
    rb_items r' = rb_items r \<and> rb_size r' = rb_size r"
  using assms
proof (induction n arbitrary: r xs ys)
  case (Suc n)
  have "xs \<noteq> []" using Suc.prems by (auto simp: rb_rep_def rb_idle_def split: if_splits)
  then obtain item where it: "rb_items r (rb_collect_offset r) = Some item"
    using Suc.prems(1) by (cases xs) (auto simp: rb_rep_def split: if_splits)
  show ?case
  proof (cases "ri_lock item = 0")
    case True
    from collect_step [OF Suc.prems(1) _ it True] Suc.prems(2) obtain xs' ys' where
      "rb_rep ((if rb_collect_offset r + (ri_length item + sizeof_item) + sizeof_item > rb_size r \<or>
          rb_collect_offset r + (ri_length item + sizeof_item) \<ge> rb_size r
        then r\<lparr>rb_collect_offset := 0, rb_status := 0\<rparr>
        else r\<lparr>rb_collect_offset := rb_collect_offset r + (ri_length item + sizeof_item)\<rparr>)
        \<lparr>rb_free_count := rb_free_count r - 1\<rparr>) xs' ys'" (is "rb_rep ?r _ _") by auto
    from Suc.IH [OF this] Suc.prems(2) it True show ?thesis by (auto simp: Let_def)
  qed (use it Suc.prems in auto)
qed auto

lemma collect_rep:
  assumes "rb_inv r"
  shows "\<exists>r'. (if rb_free_count r > 0 then swRingBuffer_collect r else Some r) = Some r' \<and> rb_inv r' \<and>
    rb_items r' = rb_items r \<and> rb_size r' = rb_size r"
  using assms collect_loop_rep by (fastforce simp: rb_inv_def swRingBuffer_collect_def)

section \<open>Placing a block\<close>

lemma locked_span:
  assumes rep: "rb_rep r xs ys" and it: "rb_items r j = Some t" "ri_lock t \<noteq> 0"
  shows "if rb_status r = 0 then rb_collect_offset r \<le> j \<and> j + sizeof_item + ri_length t \<le> rb_alloc_offset r
    else rb_collect_offset r \<le> j \<and> j + sizeof_item + ri_length t \<le> rb_size r \<or>
      j + sizeof_item + ri_length t \<le> rb_alloc_offset r"
proof -
  have j: "j \<in> rb_offs (rb_collect_offset r) xs \<or> j \<in> rb_offs 0 ys"
    using rep it unfolding rb_rep_def by blast
  show ?thesis
  proof (cases "rb_status r = 0")
    case True
    then have "rb_chain (rb_items r) (rb_collect_offset r) xs (rb_alloc_offset r)" "ys = []"
      using rep by (simp_all add: rb_rep_def)
    with rb_chain_offs [OF this(1), of j t] j it True show ?thesis by auto
  next
    case False
    then have "rb_chain (rb_items r) (rb_collect_offset r) xs (rb_size r)" "rb_chain (rb_items r) 0 ys (rb_alloc_offset r)"
      using rep by (simp_all add: rb_rep_def)
    with rb_chain_offs [OF this(1), of j t] rb_chain_offs [OF this(2), of j t] j it False show ?thesis by auto
  qed
qed

text \<open>A write clear of every locked block adds the new block, if it is locked, to those in use.\<close>

lemma write_locked:
  assumes "\<And>j t. m j = Some t \<Longrightarrow> ri_lock t \<noteq> 0 \<Longrightarrow> j + sizeof_item + ri_length t \<le> i \<or> i + n \<le> j" "0 < n"
  shows "rb_write i n it m j = Some t \<and> ri_lock t \<noteq> 0 \<longleftrightarrow>
    j = i \<and> t = it \<and> ri_lock it \<noteq> 0 \<or> m j = Some t \<and> ri_lock t \<noteq> 0"
proof (cases "j = i")
  case True
  then show ?thesis using assms(1) [of i t] assms(2) by (auto simp: rb_write_def sizeof_item_def)
next
  case False
  then show ?thesis using assms(1) [of j t] by (cases "ri_lock t = 0") (auto simp: rb_write_def)
qed

lemma write_live:
  assumes "\<And>j t. rb_items r j = Some t \<Longrightarrow> ri_lock t \<noteq> 0 \<Longrightarrow> j + sizeof_item + ri_length t \<le> i \<or> i + n \<le> j" "0 < n"
    and "rb_items r' = rb_write i n it (rb_items r)"
  shows "rb_live r' = (if ri_lock it \<noteq> 0 then insert (i + sizeof_item, ri_length it) (rb_live r) else rb_live r)"
  using write_locked [OF assms(1,2), where it = it] by (auto simp: rb_live_def assms(3))

lemma skip_rep:
  assumes rep: "rb_rep r xs ys" and st: "rb_status r = 0"
    and r': "r' = r\<lparr>rb_items := rb_write (rb_alloc_offset r) sizeof_item
        \<lparr>ri_lock = 0, ri_index = 0, ri_length = rb_size r - rb_alloc_offset r - sizeof_item\<rparr> (rb_items r),
      rb_free_count := rb_free_count r + 1, rb_alloc_offset := 0, rb_status := 1\<rparr>"
  shows "\<exists>xs'. rb_rep r' xs' []" "rb_live r' = rb_live r"
proof -
  let ?a = "rb_alloc_offset r" and ?it = "\<lparr>ri_lock = 0, ri_index = 0, ri_length = rb_size r - rb_alloc_offset r - sizeof_item\<rparr>"
  from rep st have ch: "rb_chain (rb_items r) (rb_collect_offset r) xs ?a" "ys = []" "?a + sizeof_item \<le> rb_size r"
    by (simp_all add: rb_rep_def)
  have clear: "j + sizeof_item + ri_length t \<le> ?a \<or> ?a + sizeof_item \<le> j"
    if "rb_items r j = Some t" "ri_lock t \<noteq> 0" for j t
    using locked_span [OF rep that] st by simp
  have pos: "0 < sizeof_item" by (simp add: sizeof_item_def)
  show "rb_live r' = rb_live r" using write_live [OF clear pos, where r' = r' and it = ?it] by (simp add: r')
  have "rb_chain (rb_items r') (rb_collect_offset r) (xs @ [?it]) (rb_size r)"
    using rb_chain_write [OF ch(1), where i = ?a and n = sizeof_item and it = ?it] ch(3) pos
    by (auto simp: rb_chain_append r')
  moreover have "ri_lock t = 1 \<and> j \<in> rb_offs (rb_collect_offset r) (xs @ [?it])"
    if "rb_items r' j = Some t" "ri_lock t \<noteq> 0" for j t
  proof -
    have "rb_items r j = Some t" using write_locked [OF clear pos, where it = ?it and j = j and t = t] that by (simp add: r')
    with rep that(2) ch(2) have "ri_lock t = 1" "j \<in> rb_offs (rb_collect_offset r) xs"
      unfolding rb_rep_def by auto
    moreover have "rb_offs a zs \<subseteq> rb_offs a (zs @ [?it])" for a zs by (induction zs arbitrary: a) auto
    ultimately show ?thesis by blast
  qed
  ultimately have "rb_rep r' (xs @ [?it]) []"
    using rep ch by (auto simp: rb_rep_def r' rb_idle_def)
  then show "\<exists>xs'. rb_rep r' xs' []" by blast
qed

lemma rb_offs_snoc: "rb_chain m a xs b \<Longrightarrow> rb_offs a (xs @ [x]) = insert b (rb_offs a xs)"
  by (induction xs arbitrary: a) auto

text \<open>\<open>free_at r i n\<close>: the \<open>n\<close> bytes at the allocating end are outside every block.\<close>

lemma put_rep:
  assumes rep: "rb_rep r xs ys" and n: "n = sz + sizeof_item"
    and room: "if rb_status r = 0 then rb_alloc_offset r + n + sizeof_item \<le> rb_size r
      else rb_alloc_offset r + n \<le> rb_collect_offset r"
    and it: "ri_lock it = 1" "ri_length it = sz"
    and r': "r' = r\<lparr>rb_items := rb_write (rb_alloc_offset r) n it (rb_items r),
      rb_alloc_offset := rb_alloc_offset r + n, rb_alloc_count := k\<rparr>"
  shows "rb_inv r'" "rb_live r' = insert (rb_alloc_offset r + sizeof_item, sz) (rb_live r)"
    "\<forall>b \<in> rb_live r. rb_apart b (rb_alloc_offset r + sizeof_item, sz)"
    "rb_alloc_offset r + n \<le> rb_size r"
proof -
  let ?a = "rb_alloc_offset r"
  have pos: "0 < n" using n by (simp add: sizeof_item_def)
  have clear: "j + sizeof_item + ri_length t \<le> ?a \<or> ?a + n \<le> j"
    if "rb_items r j = Some t" "ri_lock t \<noteq> 0" for j t
    using locked_span [OF rep that] room by (auto split: if_splits)
  show live: "rb_live r' = insert (?a + sizeof_item, sz) (rb_live r)"
    using write_live [OF clear pos, where r' = r' and it = it] it by (simp add: r')
  show "\<forall>b \<in> rb_live r. rb_apart b (?a + sizeof_item, sz)"
    using clear n by (fastforce simp: rb_live_def rb_apart_def)
  have cle: "rb_status r \<noteq> 0 \<Longrightarrow> rb_collect_offset r \<le> rb_size r"
    using rep rb_chain_le by (auto simp: rb_rep_def)
  then show "?a + n \<le> rb_size r" using room by (auto split: if_splits)
  have old: "ri_lock t = 1 \<and> (j = ?a \<or> j \<in> rb_offs (rb_collect_offset r) xs \<union> rb_offs 0 ys)"
    if "rb_items r' j = Some t" "ri_lock t \<noteq> 0" for j t
    using write_locked [OF clear pos, where it = it and j = j and t = t] that rep it unfolding rb_rep_def r' by auto
  show "rb_inv r'"
  proof (cases "rb_status r = 0")
    case True
    then have ch: "rb_chain (rb_items r) (rb_collect_offset r) xs ?a" "ys = []" using rep by (simp_all add: rb_rep_def)
    have "rb_rep r' (xs @ [it]) []"
      using rb_chain_write [OF ch(1), where i = ?a and n = n and it = it] rb_offs_snoc [OF ch(1), of it] rep ch old True room pos it n
      by (auto simp: rb_rep_def rb_chain_append r' rb_idle_def)
    then show ?thesis by (auto simp: rb_inv_def)
  next
    case False
    then have ch: "rb_chain (rb_items r) (rb_collect_offset r) xs (rb_size r)" "rb_chain (rb_items r) 0 ys ?a"
      using rep by (simp_all add: rb_rep_def)
    have "rb_rep r' xs (ys @ [it])"
      using rb_chain_write [OF ch(1), where i = ?a and n = n and it = it] rb_chain_write [OF ch(2), where i = ?a and n = n and it = it]
        rb_offs_snoc [OF ch(2), of it] rep ch old False room pos it n
      by (auto simp: rb_rep_def rb_chain_append r' rb_idle_def)
    then show ?thesis by (auto simp: rb_inv_def)
  qed
qed

section \<open>Unlocking a block\<close>

lemma chain_other:
  "rb_chain m a xs b \<Longrightarrow> i \<notin> rb_offs a xs \<Longrightarrow> rb_chain (m(i \<mapsto> it)) a xs b"
  by (induction xs arbitrary: a) auto

lemma chain_unlock:
  assumes "rb_chain m a xs b" "i \<in> rb_offs a xs" "m i = Some it" "ri_lock it \<noteq> 0"
  shows "\<exists>xs'. rb_chain (m(i \<mapsto> it\<lparr>ri_lock := 0\<rparr>)) a xs' b \<and> rb_offs a xs' = rb_offs a xs \<and>
    rb_idle xs' = rb_idle xs + 1"
  using assms
proof (induction xs arbitrary: a)
  case (Cons x xs)
  let ?c = "a + (ri_length x + sizeof_item)"
  have rest: "rb_chain m ?c xs b" and x: "m a = Some x" using Cons.prems(1) by auto
  show ?case
  proof (cases "i = a")
    case True
    have "a \<notin> rb_offs ?c xs" using rb_chain_offs [OF rest, of a] by (auto simp: sizeof_item_def)
    from chain_other [OF rest this, of "x\<lparr>ri_lock := 0\<rparr>"] True x Cons.prems(3)
    have "rb_chain (m(i \<mapsto> it\<lparr>ri_lock := 0\<rparr>)) a (x\<lparr>ri_lock := 0\<rparr> # xs) b" by simp
    moreover have "rb_offs a (x\<lparr>ri_lock := 0\<rparr> # xs) = rb_offs a (x # xs)" by simp
    moreover have "rb_idle (x\<lparr>ri_lock := 0\<rparr> # xs) = rb_idle (x # xs) + 1"
      using True x Cons.prems(3,4) by (simp add: rb_idle_def)
    ultimately show ?thesis by blast
  next
    case False
    then have "i \<in> rb_offs ?c xs" using Cons.prems(2) by simp
    then obtain xs' where xs': "rb_chain (m(i \<mapsto> it\<lparr>ri_lock := 0\<rparr>)) ?c xs' b" "rb_offs ?c xs' = rb_offs ?c xs"
      "rb_idle xs' = rb_idle xs + 1" using Cons.IH [OF rest _ Cons.prems(3,4)] by blast
    then have "rb_chain (m(i \<mapsto> it\<lparr>ri_lock := 0\<rparr>)) a (x # xs') b" "rb_offs a (x # xs') = rb_offs a (x # xs)"
      "rb_idle (x # xs') = rb_idle (x # xs) + 1" using False x by (simp_all add: rb_idle_def)
    then show ?thesis by blast
  qed
qed simp

section \<open>Properties\<close>

lemma place_ok:
  assumes inv: "rb_inv r" and sz: "0 < sz" "sz + rb_size r + sizeof_item < 2 ^ 32"
  shows "\<exists>r' res. swRingBuffer_place r sz = (r', res) \<and> rb_inv r' \<and> rb_size r' = rb_size r \<and>
    (case res of None \<Rightarrow> rb_live r' = rb_live r
     | Some p \<Rightarrow> rb_live r' = insert (p, sz) (rb_live r) \<and> p + sz \<le> rb_size r \<and> sizeof_item \<le> p \<and>
         (\<forall>b \<in> rb_live r. rb_apart b (p, sz)))"
proof -
  obtain xs ys where rep: "rb_rep r xs ys" using inv by (auto simp: rb_inv_def)
  define n where "n = sz + sizeof_item"
  have a: "rb_alloc_offset r \<le> rb_size r"
    using rep rb_chain_le by (fastforce simp: rb_rep_def split: if_splits)
  have n: "(sz + sizeof_item) mod 2 ^ 32 = n" "(rb_alloc_offset r + n) mod 2 ^ 32 = rb_alloc_offset r + n"
    using sz a by (simp_all add: n_def)
  let ?put = "\<lambda>r. r\<lparr>rb_items := rb_write (rb_alloc_offset r) n
      \<lparr>ri_lock = 1, ri_index = rb_alloc_count r mod 2 ^ 16, ri_length = sz\<rparr> (rb_items r),
      rb_alloc_offset := rb_alloc_offset r + n, rb_alloc_count := rb_alloc_count r + 1\<rparr>"
  have put: "rb_inv (?put r)" "rb_live (?put r) = insert (rb_alloc_offset r + sizeof_item, sz) (rb_live r)"
    "\<forall>b \<in> rb_live r. rb_apart b (rb_alloc_offset r + sizeof_item, sz)" "rb_alloc_offset r + n \<le> rb_size r"
    if inv': "rb_inv r" and room: "if rb_status r = 0 then rb_alloc_offset r + n + sizeof_item \<le> rb_size r
      else rb_alloc_offset r + n \<le> rb_collect_offset r" for r
  proof -
    obtain us vs where u: "rb_rep r us vs" using inv' by (auto simp: rb_inv_def)
    show "rb_inv (?put r)" "rb_live (?put r) = insert (rb_alloc_offset r + sizeof_item, sz) (rb_live r)"
      "\<forall>b \<in> rb_live r. rb_apart b (rb_alloc_offset r + sizeof_item, sz)" "rb_alloc_offset r + n \<le> rb_size r"
      using put_rep [OF u n_def room _ _ refl, where it = "\<lparr>ri_lock = 1, ri_index = rb_alloc_count r mod 2 ^ 16,
        ri_length = sz\<rparr>"] by simp_all
  qed
  show ?thesis
  proof (cases "rb_status r = 0")
    case True
    show ?thesis
    proof (cases "rb_alloc_offset r + n \<ge> rb_size r - sizeof_item")
      case skip: True
      define r1 where "r1 = r\<lparr>rb_items := rb_write (rb_alloc_offset r) sizeof_item
          \<lparr>ri_lock = 0, ri_index = 0, ri_length = rb_size r - rb_alloc_offset r - sizeof_item\<rparr> (rb_items r),
        rb_free_count := rb_free_count r + 1, rb_alloc_offset := 0, rb_status := 1\<rparr>"
      have r1: "rb_inv r1" "rb_live r1 = rb_live r" "rb_size r1 = rb_size r" "rb_collect_offset r1 = rb_collect_offset r"
        "rb_status r1 = 1" "rb_alloc_offset r1 = 0"
        using skip_rep [OF rep True r1_def] by (auto simp: rb_inv_def) (simp_all add: r1_def)
      have "sizeof_item \<le> rb_size r - rb_alloc_offset r" using rep True by (auto simp: rb_rep_def)
      then have "swRingBuffer_place r sz = (if rb_collect_offset r < n then (r1, None) else (?put r1, Some sizeof_item))"
        using True skip n by (simp add: swRingBuffer_place_def Let_def r1_def)
      then show ?thesis using put [OF r1(1)] r1 n_def by (cases "rb_collect_offset r < n") auto
    next
      case False
      then have room: "rb_alloc_offset r + n + sizeof_item \<le> rb_size r" by simp
      then have "swRingBuffer_place r sz = (?put r, Some (rb_alloc_offset r + sizeof_item))"
        using True False n by (simp add: swRingBuffer_place_def Let_def)
      then show ?thesis using put [OF inv] room True n_def by auto
    qed
  next
    case False
    then have "rb_alloc_offset r \<le> rb_collect_offset r" using rep by (simp add: rb_rep_def)
    moreover have "swRingBuffer_place r sz = (if rb_collect_offset r - rb_alloc_offset r < n then (r, None)
        else (?put r, Some (rb_alloc_offset r + sizeof_item)))"
      using False n by (simp add: swRingBuffer_place_def Let_def)
    moreover have "rb_collect_offset r \<le> rb_size r" using rep False rb_chain_le by (auto simp: rb_rep_def)
    ultimately show ?thesis
    proof (cases "rb_collect_offset r - rb_alloc_offset r < n")
      case no: False
      with False \<open>rb_alloc_offset r \<le> rb_collect_offset r\<close> have
        room: "if rb_status r = 0 then rb_alloc_offset r + n + sizeof_item \<le> rb_size r
          else rb_alloc_offset r + n \<le> rb_collect_offset r" by simp
      have "swRingBuffer_place r sz = (?put r, Some (rb_alloc_offset r + sizeof_item))"
        using False no n by (simp add: swRingBuffer_place_def Let_def)
      with put [OF inv room] show ?thesis by (simp add: n_def)
    qed (use inv in simp)
  qed
qed

text \<open>C11. \<open>swRingBuffer_alloc\<close> reads no header that a block has overwritten, keeps the invariant, and
  the block it returns lies inside the memory and overlaps no block in use; the blocks in use are
  then the old ones and the new one, and stay as they are when it returns \<open>NULL\<close>. (The sizes must
  not overflow 32 bits.)\<close>

theorem swRingBuffer_alloc_correct:
  assumes "rb_inv r" and "0 < sz" and "sz + rb_size r + sizeof_item < 2 ^ 32"
  shows "\<exists>r' res. swRingBuffer_alloc r sz = Some (r', res) \<and> rb_inv r' \<and> rb_size r' = rb_size r \<and>
    (case res of None \<Rightarrow> rb_live r' = rb_live r
     | Some p \<Rightarrow> rb_live r' = insert (p, sz) (rb_live r) \<and> p + sz \<le> rb_size r \<and>
         (\<forall>b \<in> rb_live r. rb_apart b (p, sz)))"
proof -
  obtain r1 where r1: "(if rb_free_count r > 0 then swRingBuffer_collect r else Some r) = Some r1" "rb_inv r1"
    "rb_items r1 = rb_items r" "rb_size r1 = rb_size r" using collect_rep [OF assms(1)] by blast
  then have "rb_live r1 = rb_live r" by (simp add: rb_live_def)
  moreover obtain r' res where "swRingBuffer_place r1 sz = (r', res)" "rb_inv r'" "rb_size r' = rb_size r1"
    "case res of None \<Rightarrow> rb_live r' = rb_live r1
     | Some p \<Rightarrow> rb_live r' = insert (p, sz) (rb_live r1) \<and> p + sz \<le> rb_size r1 \<and> sizeof_item \<le> p \<and>
         (\<forall>b \<in> rb_live r1. rb_apart b (p, sz))"
    using place_ok [OF r1(2) assms(2)] assms(3) r1(4) by auto
  moreover from this have "swRingBuffer_alloc r sz = Some (r', res)"
    using assms(2) r1(1) by (simp add: swRingBuffer_alloc_def)
  ultimately show ?thesis using r1(4) by (cases res) auto
qed

definition rb_demo :: swRingBuffer where
  "rb_demo = \<lparr>rb_shared = False, rb_status = 0, rb_size = 100, rb_alloc_offset = 0, rb_collect_offset = 0,
     rb_alloc_count = 0, rb_free_count = 0, rb_items = Map.empty\<rparr>"

lemma rb_demo_inv: "rb_inv rb_demo"
proof -
  have "rb_rep rb_demo [] []" by (simp add: rb_rep_def rb_demo_def sizeof_item_def rb_idle_def)
  then show ?thesis by (auto simp: rb_inv_def)
qed

theorem swRingBuffer_alloc_correct_witness:
  "\<exists>r' res. swRingBuffer_alloc rb_demo 16 = Some (r', res) \<and> rb_inv r' \<and> rb_size r' = 100"
  using swRingBuffer_alloc_correct [OF rb_demo_inv, of 16] by (auto simp: rb_demo_def sizeof_item_def)

text \<open>C12. \<open>swRingBuffer_free\<close> on a block in use succeeds, takes exactly that block out of use and keeps
  the invariant.\<close>

theorem swRingBuffer_free_correct:
  assumes inv: "rb_inv r" and live: "(p, sz) \<in> rb_live r"
  shows "\<exists>r'. swRingBuffer_free r p = Some r' \<and> rb_inv r' \<and> rb_live r' = rb_live r - {(p, sz)} \<and>
    rb_size r' = rb_size r"
proof -
  obtain xs ys where rep: "rb_rep r xs ys" using inv by (auto simp: rb_inv_def)
  obtain i it where i: "rb_items r i = Some it" "ri_lock it \<noteq> 0" "p = i + sizeof_item" "sz = ri_length it"
    using live by (auto simp: rb_live_def)
  let ?m = "(rb_items r)(i \<mapsto> it\<lparr>ri_lock := 0\<rparr>)"
  define r' where "r' = r\<lparr>rb_items := ?m, rb_free_count := rb_free_count r + 1\<rparr>"
  have lock: "ri_lock it = 1" and at: "i \<in> rb_offs (rb_collect_offset r) xs \<or> i \<in> rb_offs 0 ys"
    using rep i unfolding rb_rep_def by blast+
  have "rb_alloc_offset r \<le> rb_size r"
    using rep rb_chain_le by (fastforce simp: rb_rep_def split: if_splits)
  then have "p \<le> rb_size r" using locked_span [OF rep i(1,2)] i(3) by (auto split: if_splits)
  then have eq: "swRingBuffer_free r p = Some r'"
    using i lock by (simp add: swRingBuffer_free_def r'_def)
  have keep: "ri_lock t = 1 \<and> j \<in> rb_offs (rb_collect_offset r) xs \<union> rb_offs 0 ys"
    if "?m j = Some t" "ri_lock t \<noteq> 0" for j t
    using that rep unfolding rb_rep_def by (auto split: if_splits)
  obtain xs' ys' where rep': "rb_rep r' xs' ys'"
  proof (cases "rb_status r = 0")
    case True
    then have ch: "rb_chain (rb_items r) (rb_collect_offset r) xs (rb_alloc_offset r)" "ys = []"
      using rep by (simp_all add: rb_rep_def)
    with at obtain xs' where "rb_chain ?m (rb_collect_offset r) xs' (rb_alloc_offset r)"
      "rb_offs (rb_collect_offset r) xs' = rb_offs (rb_collect_offset r) xs" "rb_idle xs' = rb_idle xs + 1"
      using chain_unlock [OF ch(1) _ i(1,2)] by auto
    then have "rb_rep r' xs' []" using rep keep True ch by (auto simp: rb_rep_def r'_def)
    then show ?thesis by (rule that)
  next
    case False
    then have ch: "rb_chain (rb_items r) (rb_collect_offset r) xs (rb_size r)" "xs \<noteq> []"
      "rb_chain (rb_items r) 0 ys (rb_alloc_offset r)" "rb_alloc_offset r \<le> rb_collect_offset r"
      using rep by (simp_all add: rb_rep_def)
    show ?thesis
    proof (cases "i \<in> rb_offs 0 ys")
      case True
      then have "i + sizeof_item + ri_length it \<le> rb_alloc_offset r" using rb_chain_offs [OF ch(3), of i it] i by simp
      then have "i \<notin> rb_offs (rb_collect_offset r) xs"
        using rb_chain_offs [OF ch(1), of i it] ch(4) by (auto simp: sizeof_item_def)
      note xs = chain_other [OF ch(1) this, of "it\<lparr>ri_lock := 0\<rparr>"]
      obtain ys' where "rb_chain ?m 0 ys' (rb_alloc_offset r)" "rb_offs 0 ys' = rb_offs 0 ys" "rb_idle ys' = rb_idle ys + 1"
        using chain_unlock [OF ch(3) True i(1,2)] by auto
      then have "rb_rep r' xs ys'" using rep keep False ch xs by (auto simp: rb_rep_def r'_def rb_idle_def)
      then show ?thesis by (rule that)
    next
      case no: False
      with at have yes: "i \<in> rb_offs (rb_collect_offset r) xs" by simp
      note ys = chain_other [OF ch(3) no, of "it\<lparr>ri_lock := 0\<rparr>"]
      obtain xs' where "rb_chain ?m (rb_collect_offset r) xs' (rb_size r)" "rb_idle xs' = rb_idle xs + 1"
        "rb_offs (rb_collect_offset r) xs' = rb_offs (rb_collect_offset r) xs"
        using chain_unlock [OF ch(1) yes i(1,2)] by auto
      moreover from this have "xs' \<noteq> []" using yes by auto
      ultimately have "rb_rep r' xs' ys" using rep keep False ch ys by (auto simp: rb_rep_def r'_def rb_idle_def)
      then show ?thesis by (rule that)
    qed
  qed
  have "rb_live r' = rb_live r - {(p, sz)}"
  proof (rule set_eqI, rule iffI)
    fix b assume "b \<in> rb_live r - {(p, sz)}"
    then obtain j t where j: "b = (j + sizeof_item, ri_length t)" "rb_items r j = Some t" "ri_lock t \<noteq> 0"
      and b: "b \<noteq> (p, sz)" by (auto simp: rb_live_def)
    have "j \<noteq> i" using j b i by auto
    with j have "rb_items r' j = Some t" by (simp add: r'_def)
    with j show "b \<in> rb_live r'" by (auto simp: rb_live_def)
  qed (use i in \<open>auto simp: rb_live_def r'_def split: if_splits\<close>)
  with eq rep' show ?thesis by (auto simp: rb_inv_def r'_def)
qed

theorem swRingBuffer_free_correct_witness:
  "\<exists>r r'. swRingBuffer_alloc rb_demo 16 = Some (r, Some 8) \<and> swRingBuffer_free r 8 = Some r' \<and> rb_inv r'"
proof -
  obtain r where r: "swRingBuffer_alloc rb_demo 16 = Some (r, Some 8)"
    by (simp add: swRingBuffer_alloc_def swRingBuffer_place_def rb_demo_def sizeof_item_def)
  moreover have "rb_inv r \<and> (8, 16) \<in> rb_live r"
    using place_ok [OF rb_demo_inv, of 16] r by (auto simp: swRingBuffer_alloc_def rb_demo_def sizeof_item_def)
  ultimately show ?thesis using swRingBuffer_free_correct [of r 8 16] by blast
qed

end
