(* ===== verification/Sw_MemoryGlobal.thy ===== *)
theory Sw_MemoryGlobal
  imports Sw_Prelude
begin

text \<open>
  The global memory pool of \<open>src/memory/MemoryGlobal.c\<close>: memory that is only ever handed out, cut
  from pages that are linked through their first eight bytes. The state of the mutex is part of
  the model, because two of the returns of \<open>swMemoryGlobal_alloc\<close> leave it locked: \<open>None\<close> is a
  thread that waits for it for ever, or a failed assertion. New pages are the answers of the
  allocator.
\<close>

section \<open>Data\<close>

record swMemoryGlobal =
  mg_size :: nat
  mg_mem :: ptr
  mg_offset :: nat
  mg_shared :: bool
  mg_pagesize :: nat
  mg_locked :: bool
  mg_root_page :: ptr
  mg_cur_page :: ptr
  mg_next :: "ptr \<rightharpoonup> ptr"

definition SW_PAGE_SIZE :: nat where
  "SW_PAGE_SIZE = 256"

definition sizeof_ptr :: nat where
  "sizeof_ptr = 8"

section \<open>Operations\<close>

definition swMemoryGlobal_new_page :: "swMemoryGlobal \<Rightarrow> ptr option \<Rightarrow> swMemoryGlobal \<times> ptr option" where
  "swMemoryGlobal_new_page gm answer =
     (case answer of
        None \<Rightarrow> (gm, None)
      | Some page \<Rightarrow>
          (gm\<lparr>mg_next := (mg_next gm)(page \<mapsto> NULL), mg_offset := 0,
             mg_size := mg_pagesize gm - sizeof_ptr, mg_mem := page + sizeof_ptr\<rparr>, Some page))"

text \<open>\<open>swMemoryGlobal_new\<close>: \<open>hdr_gm\<close> and \<open>hdr_pool\<close> are the sizes of \<open>swMemoryGlobal\<close> and
  \<open>swMemoryPool\<close>, which it puts at the front of the first page; \<open>mutex_ok\<close> is the outcome of
  \<open>swMutex_create\<close>. The outer \<open>None\<close> is the assertion.\<close>

definition swMemoryGlobal_new ::
  "nat \<Rightarrow> bool \<Rightarrow> nat \<Rightarrow> nat \<Rightarrow> ptr option \<Rightarrow> bool \<Rightarrow> swMemoryGlobal option option" where
  "swMemoryGlobal_new pagesize shared hdr_gm hdr_pool answer mutex_ok =
     (if pagesize < SW_PAGE_SIZE then None
      else
        let gm = \<lparr>mg_size = 0, mg_mem = NULL, mg_offset = 0, mg_shared = shared, mg_pagesize = pagesize,
              mg_locked = False, mg_root_page = NULL, mg_cur_page = NULL, mg_next = Map.empty\<rparr>
        in case swMemoryGlobal_new_page gm answer of
          (_, None) \<Rightarrow> Some None
        | (gm1, Some page) \<Rightarrow>
            if \<not> mutex_ok then Some None
            else Some (Some (gm1\<lparr>mg_root_page := page, mg_cur_page := page,
              mg_offset := mg_offset gm1 + hdr_gm + hdr_pool\<rparr>)))"

definition swMemoryGlobal_alloc :: "swMemoryGlobal \<Rightarrow> nat \<Rightarrow> ptr option \<Rightarrow> (swMemoryGlobal \<times> ptr option) option" where
  "swMemoryGlobal_alloc gm sz answer =
     (if mg_locked gm then None
      else
        let gm0 = gm\<lparr>mg_locked := True\<rparr> in
        if sz > mg_pagesize gm0 then Some (gm0, None)
        else
          let (gm1, ok) =
            (if mg_offset gm0 + sz > mg_size gm0 then
               (case swMemoryGlobal_new_page gm0 answer of
                  (g, None) \<Rightarrow> (g, False)
                | (g, Some page) \<Rightarrow>
                    (g\<lparr>mg_next := (mg_next g)(mg_cur_page g \<mapsto> page), mg_cur_page := page\<rparr>, True))
             else (gm0, True))
          in if \<not> ok then Some (gm1, None)
             else Some (gm1\<lparr>mg_offset := mg_offset gm1 + sz, mg_locked := False\<rparr>,
                Some (mg_mem gm1 + mg_offset gm1)))"

text \<open>The loop of \<open>swMemoryGlobal_destroy\<close> over the pages after the first; the result is the list of
  the addresses given to \<open>sw_shm_free\<close>. Fuel bounds the walk.\<close>

fun swMemoryGlobal_destroy_loop :: "nat \<Rightarrow> (ptr \<rightharpoonup> ptr) \<Rightarrow> ptr \<Rightarrow> ptr \<Rightarrow> ptr list option" where
  "swMemoryGlobal_destroy_loop 0 nx page next = None"
| "swMemoryGlobal_destroy_loop (Suc n) nx page next =
     (if next = NULL then Some []
      else case nx next of
        None \<Rightarrow> None
      | Some next' \<Rightarrow>
          (case swMemoryGlobal_destroy_loop n nx page next' of
             None \<Rightarrow> None
           | Some freed \<Rightarrow> Some (page # freed)))"

definition swMemoryGlobal_destroy :: "nat \<Rightarrow> swMemoryGlobal \<Rightarrow> ptr list option" where
  "swMemoryGlobal_destroy fuel gm =
     (case mg_next gm (mg_root_page gm) of
        None \<Rightarrow> None
      | Some next \<Rightarrow> swMemoryGlobal_destroy_loop fuel (mg_next gm) (mg_root_page gm) next)"

section \<open>Properties\<close>

text \<open>\<open>apart\<close>: two pieces of memory, given by address and length, have no byte in common.
  \<open>mg_clear gm B\<close>: what is left of the current page is clear of the blocks \<open>B\<close> handed out.\<close>

definition apart :: "ptr \<times> nat \<Rightarrow> ptr \<times> nat \<Rightarrow> bool" where
  "apart b c \<longleftrightarrow> fst b + snd b \<le> fst c \<or> fst c + snd c \<le> fst b"

definition mg_ok :: "swMemoryGlobal \<Rightarrow> bool" where
  "mg_ok gm \<longleftrightarrow> \<not> mg_locked gm \<and> SW_PAGE_SIZE \<le> mg_pagesize gm \<and>
     mg_size gm = mg_pagesize gm - sizeof_ptr \<and> mg_mem gm = mg_cur_page gm + sizeof_ptr"

definition mg_clear :: "swMemoryGlobal \<Rightarrow> (ptr \<times> nat) set \<Rightarrow> bool" where
  "mg_clear gm B \<longleftrightarrow>
     (\<forall>b \<in> B. mg_offset gm \<le> mg_size gm \<longrightarrow> apart b (mg_mem gm + mg_offset gm, mg_size gm - mg_offset gm))"

lemma apart_inside:
  "apart b (p, n) \<Longrightarrow> p \<le> q \<Longrightarrow> q + k \<le> p + n \<Longrightarrow> apart b (q, k)"
  by (auto simp: apart_def)

lemma page_room:
  assumes "mg_ok gm" "sz \<le> mg_pagesize gm - sizeof_ptr"
  shows "page \<le> page + sizeof_ptr" "page + sizeof_ptr + sz \<le> page + mg_pagesize gm"
  using assms by (auto simp: mg_ok_def sizeof_ptr_def SW_PAGE_SIZE_def)

text \<open>C13. A request that fits the usable part of a page gets a block that lies inside the current
  page behind the link, and overlaps no block handed out before; the mutex is released and the
  invariant kept. The page the allocator supplies, when one is needed, is clear of all blocks.\<close>

theorem swMemoryGlobal_alloc_correct:
  assumes ok: "mg_ok gm" "mg_clear gm B" and sz: "sz \<le> mg_pagesize gm - sizeof_ptr"
    and page: "\<And>b. b \<in> B \<Longrightarrow> apart b (page, mg_pagesize gm)"
  shows "\<exists>gm' p. swMemoryGlobal_alloc gm sz (Some page) = Some (gm', Some p) \<and> mg_ok gm' \<and>
    mg_pagesize gm' = mg_pagesize gm \<and> mg_clear gm' (insert (p, sz) B) \<and>
    (\<forall>b \<in> B. apart b (p, sz)) \<and>
    mg_cur_page gm' + sizeof_ptr \<le> p \<and> p + sz \<le> mg_cur_page gm' + mg_pagesize gm'"
proof (cases "mg_offset gm + sz > mg_size gm")
  note st = ok(1) [unfolded mg_ok_def]
  have fits: "\<not> sz > mg_pagesize gm" using sz by simp
  case True
  define gm' where "gm' = gm\<lparr>mg_next := (mg_next gm)(page \<mapsto> NULL, mg_cur_page gm \<mapsto> page), mg_offset := sz,
    mg_size := mg_pagesize gm - sizeof_ptr, mg_mem := page + sizeof_ptr, mg_cur_page := page, mg_locked := False\<rparr>"
  have "swMemoryGlobal_alloc gm sz (Some page) = Some (gm', Some (page + sizeof_ptr))"
    using True st fits by (simp add: swMemoryGlobal_alloc_def swMemoryGlobal_new_page_def gm'_def Let_def)
  moreover have "mg_clear gm' (insert (page + sizeof_ptr, sz) B)"
    unfolding mg_clear_def
  proof (intro ballI impI)
    fix b assume "b \<in> insert (page + sizeof_ptr, sz) B"
    then show "apart b (mg_mem gm' + mg_offset gm', mg_size gm' - mg_offset gm')"
      using apart_inside [OF page, of b "page + sizeof_ptr + sz" "mg_pagesize gm - sizeof_ptr - sz"]
        page_room [OF ok(1) sz, of page] by (auto simp: gm'_def) (simp add: apart_def)
  qed
  moreover have "\<forall>b \<in> B. apart b (page + sizeof_ptr, sz)"
    using page_room [OF ok(1) sz] by (blast intro: apart_inside [OF page])
  ultimately show ?thesis using ok(1) page_room [OF ok(1) sz, of page] by (simp add: mg_ok_def gm'_def)
next
  note st = ok(1) [unfolded mg_ok_def]
  have fits: "\<not> sz > mg_pagesize gm" using sz by simp
  case False
  let ?p = "mg_mem gm + mg_offset gm"
  define gm' where "gm' = gm\<lparr>mg_offset := mg_offset gm + sz\<rparr>"
  have "swMemoryGlobal_alloc gm sz (Some page) = Some (gm', Some ?p)"
    using False st fits by (simp add: swMemoryGlobal_alloc_def gm'_def Let_def)
  moreover have "mg_clear gm' (insert (?p, sz) B)" "\<forall>b \<in> B. apart b (?p, sz)"
    using ok(2) False unfolding mg_clear_def by (auto simp: gm'_def apart_def)
  moreover have "?p + sz \<le> mg_cur_page gm + mg_pagesize gm"
    using st False by (auto simp: sizeof_ptr_def SW_PAGE_SIZE_def)
  ultimately show ?thesis using st by (simp add: mg_ok_def gm'_def)
qed

definition mg_demo :: swMemoryGlobal where
  "mg_demo = \<lparr>mg_size = 248, mg_mem = 1008, mg_offset = 200, mg_shared = False, mg_pagesize = 256,
     mg_locked = False, mg_root_page = 1000, mg_cur_page = 1000, mg_next = [1000 \<mapsto> 0]\<rparr>"

theorem swMemoryGlobal_alloc_correct_witness:
  "\<exists>gm' p. swMemoryGlobal_alloc mg_demo 100 (Some 5000) = Some (gm', Some p) \<and> mg_ok gm' \<and> apart (1008, 200) (p, 100)"
proof -
  have "mg_ok mg_demo" "mg_clear mg_demo {(1008, 200)}" "100 \<le> mg_pagesize mg_demo - sizeof_ptr"
    "\<And>b. b \<in> {(1008, 200)} \<Longrightarrow> apart b (5000, mg_pagesize mg_demo)"
    by (simp_all add: mg_ok_def mg_clear_def mg_demo_def apart_def SW_PAGE_SIZE_def sizeof_ptr_def)
  from swMemoryGlobal_alloc_correct [OF this] show ?thesis by auto
qed

text \<open>C14. A request for more than a page is refused with the mutex still locked, and every later
  request, of whatever size, waits for ever.\<close>

theorem swMemoryGlobal_oversize_deadlock:
  assumes "\<not> mg_locked gm" and "mg_pagesize gm < sz"
  shows "\<exists>gm'. swMemoryGlobal_alloc gm sz answer = Some (gm', None) \<and>
    (\<forall>sz' answer'. swMemoryGlobal_alloc gm' sz' answer' = None)"
  using assms by (simp add: swMemoryGlobal_alloc_def)

theorem swMemoryGlobal_oversize_deadlock_witness:
  "\<exists>gm'. swMemoryGlobal_alloc mg_demo 300 None = Some (gm', None) \<and> swMemoryGlobal_alloc gm' 8 None = None"
  using swMemoryGlobal_oversize_deadlock [of mg_demo 300 None] by (auto simp: mg_demo_def)

end
