(* ===== verification/Sw_Base64.thy ===== *)
theory Sw_Base64
  imports Sw_Prelude
begin

unbundle bit_operations_syntax

text \<open>
  Base64 of \<open>src/protocol/Base64.c\<close>. Characters and bytes are \<open>unsigned char\<close> values; table
  indices are computed as natural numbers with the bit operations of the code. The decoder's
  output is a buffer with arbitrary contents, a function from indices, because it assembles a byte
  in place.
\<close>

section \<open>Tables\<close>

definition base64en :: bytes where
  "base64en = map (\<lambda>c. of_char c)
     ''ABCDEFGHIJKLMNOPQRSTUVWXYZabcdefghijklmnopqrstuvwxyz0123456789+/''"

definition BASE64_PAD :: u8 where "BASE64_PAD = 61"
definition BASE64DE_FIRST :: u8 where "BASE64DE_FIRST = 43"
definition BASE64DE_LAST :: u8 where "BASE64DE_LAST = 122"

definition BASE64_OK :: int where "BASE64_OK = 0"
definition BASE64_INVALID :: int where "BASE64_INVALID = 1"

definition base64de :: "int list" where
  "base64de =
    [62, -1, -1, -1, 63, 52, 53, 54,
     55, 56, 57, 58, 59, 60, 61, -1,
     -1, -1, -1, -1, -1, -1, 0, 1,
     2, 3, 4, 5, 6, 7, 8, 9,
     10, 11, 12, 13, 14, 15, 16, 17,
     18, 19, 20, 21, 22, 23, 24, 25,
     -1, -1, -1, -1, -1, -1, 26, 27,
     28, 29, 30, 31, 32, 33, 34, 35,
     36, 37, 38, 39, 40, 41, 42, 43,
     44, 45, 46, 47, 48, 49, 50, 51]"

section \<open>Operations\<close>

text \<open>The loop of \<open>swBase64_encode\<close> from index \<open>i\<close>, with the output so far.\<close>

function swBase64_encode_loop :: "bytes \<Rightarrow> nat \<Rightarrow> bytes \<Rightarrow> bytes" where
  "swBase64_encode_loop inp i out =
     (if i < length inp then
        let x = unat (inp ! i); p = unat (inp ! (i - 1));
            out' = (if i mod 3 = 0 then out @ [base64en ! (drop_bit 2 x AND 63)]
                    else if i mod 3 = 1 then
                      out @ [base64en ! (push_bit 4 (p AND 3) + (drop_bit 4 x AND 15))]
                    else out @ [base64en ! (push_bit 2 (p AND 15) + (drop_bit 6 x AND 3)),
                                base64en ! (x AND 63)])
        in swBase64_encode_loop inp (i + 1) out'
      else out)"
  by pat_completeness auto
termination by (relation "measure (\<lambda>(inp, i, out). length inp - i)") auto

text \<open>After the loop the code looks at \<open>(inlen - 1) % 3\<close>, which is \<open>-1\<close> for an empty input.\<close>

definition swBase64_encode :: "bytes \<Rightarrow> bytes" where
  "swBase64_encode inp =
     (let out = swBase64_encode_loop inp 0 []; i = length inp - 1; x = unat (inp ! i) in
      if length inp = 0 then out
      else if i mod 3 = 0 then out @ [base64en ! push_bit 4 (x AND 3), BASE64_PAD, BASE64_PAD]
      else if i mod 3 = 1 then out @ [base64en ! push_bit 2 (x AND 15), BASE64_PAD]
      else out)"

text \<open>One character of \<open>swBase64_decode\<close> that is neither padding nor invalid: \<open>c\<close> is its value,
  \<open>j\<close> the output index.\<close>

definition swBase64_decode_step ::
  "bytes \<Rightarrow> nat \<Rightarrow> nat \<Rightarrow> nat \<Rightarrow> (nat \<Rightarrow> u8) \<Rightarrow> nat \<times> (nat \<Rightarrow> u8)" where
  "swBase64_decode_step inp i c j out =
     (let s = i mod 4; n = length inp in
      if s = 0 then (j, out(j := of_nat (push_bit 2 c)))
      else if s = 1 then
        (let out1 = out(j := out j + of_nat (drop_bit 4 c AND 3)) in
         (j + 1, if i + 3 < n \<or> inp ! (n - 2) \<noteq> BASE64_PAD
                 then out1(j + 1 := of_nat (push_bit 4 (c AND 15))) else out1))
      else if s = 2 then
        (let out1 = out(j := out j + of_nat (drop_bit 2 c AND 15)) in
         (j + 1, if i + 2 < n \<or> inp ! (n - 1) \<noteq> BASE64_PAD
                 then out1(j + 1 := of_nat (push_bit 6 (c AND 3))) else out1))
      else (j + 1, out(j := out j + of_nat c)))"

function swBase64_decode_loop :: "bytes \<Rightarrow> nat \<Rightarrow> nat \<Rightarrow> (nat \<Rightarrow> u8) \<Rightarrow> int \<times> (nat \<Rightarrow> u8)" where
  "swBase64_decode_loop inp i j out =
     (if i < length inp then
        (if inp ! i = BASE64_PAD then (BASE64_OK, out)
         else if inp ! i < BASE64DE_FIRST \<or> inp ! i > BASE64DE_LAST \<or>
            base64de ! unat (inp ! i - BASE64DE_FIRST) = -1
         then (BASE64_INVALID, out)
         else
           let c = nat (base64de ! unat (inp ! i - BASE64DE_FIRST));
               (j', out') = swBase64_decode_step inp i c j out
           in swBase64_decode_loop inp (i + 1) j' out')
      else (BASE64_OK, out))"
  by pat_completeness auto
termination by (relation "measure (\<lambda>(inp, i, j, out). length inp - i)") auto

definition swBase64_decode :: "bytes \<Rightarrow> (nat \<Rightarrow> u8) \<Rightarrow> int \<times> (nat \<Rightarrow> u8)" where
  "swBase64_decode inp out = swBase64_decode_loop inp 0 0 out"

declare swBase64_encode_loop.simps [simp del] swBase64_decode_loop.simps [simp del]

section \<open>The encoding by blocks\<close>

text \<open>What the encoder writes, three bytes at a time.\<close>

fun b64 :: "bytes \<Rightarrow> bytes" where
  "b64 [] = []"
| "b64 [a] = [base64en ! (unat a div 4), base64en ! (unat a mod 4 * 16), BASE64_PAD, BASE64_PAD]"
| "b64 [a, b] = [base64en ! (unat a div 4), base64en ! (unat a mod 4 * 16 + unat b div 16),
     base64en ! (unat b mod 16 * 4), BASE64_PAD]"
| "b64 (a # b # c # r) = base64en ! (unat a div 4) # base64en ! (unat a mod 4 * 16 + unat b div 16) #
     base64en ! (unat b mod 16 * 4 + unat c div 64) # base64en ! (unat c mod 64) # b64 r"

lemma and_low: "x AND 3 = x mod 4" "x AND 15 = x mod 16" "x AND 63 = x mod 64" for x :: nat
  using take_bit_eq_mask [of 2 x] take_bit_eq_mask [of 4 x] take_bit_eq_mask [of 6 x]
  by (simp_all add: take_bit_eq_mod mask_eq_exp_minus_1)

lemma byte_div_less: "unat (a :: u8) div 4 < 64" "unat a div 16 < 16" "unat a div 64 < 4"
  by (simp_all add: less_mult_imp_div_less)

lemma byte_div: "unat (a :: u8) div 4 mod 64 = unat a div 4" "unat a div 16 mod 16 = unat a div 16"
    "unat a div 64 mod 4 = unat a div 64"
  by (simp_all add: byte_div_less)

lemmas b64_bits = and_low drop_bit_eq_div push_bit_eq_mult byte_div

definition b64_fin :: "bytes \<Rightarrow> bytes \<Rightarrow> bytes" where
  "b64_fin inp out =
     (let i = length inp - 1; x = unat (inp ! i) in
      if length inp = 0 then out
      else if i mod 3 = 0 then out @ [base64en ! push_bit 4 (x AND 3), BASE64_PAD, BASE64_PAD]
      else if i mod 3 = 1 then out @ [base64en ! push_bit 2 (x AND 15), BASE64_PAD]
      else out)"

lemma encode_blocks:
  assumes "length pre = 3 * k"
  shows "b64_fin (pre @ xs) (swBase64_encode_loop (pre @ xs) (length pre) out) = out @ b64 xs"
  using assms
proof (induction xs arbitrary: pre k out rule: b64.induct)
  case 1
  then have "(length pre - 1) mod 3 = 2 \<or> pre = []" 
  proof (cases k)
    case (Suc n)
    with 1 have "length pre - 1 = 3 * n + 2" by simp
    moreover have "(3 * n + 2) mod 3 = 2" by presburger
    ultimately show ?thesis by simp
  qed (use 1 in simp)
  then show ?case by (auto simp: swBase64_encode_loop.simps b64_fin_def Let_def)
next
  case (2 a)
  then show ?case by (simp add: swBase64_encode_loop.simps b64_fin_def b64_bits nth_append)
next
  case (3 a b)
  then have "Suc (3 * k) mod 3 = 1" by presburger
  with 3 show ?case
    by (simp add: swBase64_encode_loop.simps b64_fin_def b64_bits nth_append Let_def)
next
  case (4 a b c r)
  have m: "Suc (3 * k) mod 3 = 1" "Suc (Suc (3 * k)) mod 3 = 2" by presburger+
  let ?o = "out @ [base64en ! (unat a div 4), base64en ! (unat a mod 4 * 16 + unat b div 16),
     base64en ! (unat b mod 16 * 4 + unat c div 64), base64en ! (unat c mod 64)]"
  have "swBase64_encode_loop (pre @ a # b # c # r) (length pre) out =
      swBase64_encode_loop ((pre @ [a, b, c]) @ r) (length (pre @ [a, b, c])) ?o"
    using 4(2) m by (simp add: swBase64_encode_loop.simps [of "pre @ a # b # c # r" "3 * k"]
      swBase64_encode_loop.simps [of "pre @ a # b # c # r" "Suc (3 * k)"]
      swBase64_encode_loop.simps [of "pre @ a # b # c # r" "Suc (Suc (3 * k))"]
      b64_bits nth_append Let_def)
  moreover have "length (pre @ [a, b, c]) = 3 * Suc k" using 4(2) by simp
  ultimately show ?case using 4(1) [of "pre @ [a, b, c]" "Suc k" ?o] by simp
qed

lemma encode_b64: "swBase64_encode inp = b64 inp"
  using encode_blocks [of "[]" 0 inp "[]"] by (simp add: swBase64_encode_def b64_fin_def)

section \<open>Decoding what was encoded\<close>

definition b64_val :: "u8 \<Rightarrow> nat option" where
  "b64_val ch = (if ch = BASE64_PAD \<or> ch < BASE64DE_FIRST \<or> ch > BASE64DE_LAST \<or>
     base64de ! unat (ch - BASE64DE_FIRST) = -1 then None
     else Some (nat (base64de ! unat (ch - BASE64DE_FIRST))))"

lemma b64_val_all: "map b64_val base64en = map Some [0..<64]"
  by code_simp

lemma b64_val_en: "v < 64 \<Longrightarrow> b64_val (base64en ! v) = Some v"
proof -
  assume v: "v < 64"
  have "length base64en = 64" by code_simp
  then have "map b64_val base64en ! v = b64_val (base64en ! v)" using v by simp
  moreover have "map Some [0..<64] ! v = Some v" using v by simp
  ultimately show ?thesis by (simp add: b64_val_all)
qed

lemma decode_loop_val:
  assumes "i < length inp" "inp ! i = base64en ! v" "v < 64"
  shows "swBase64_decode_loop inp i j out =
    (case swBase64_decode_step inp i v j out of (j', out') \<Rightarrow> swBase64_decode_loop inp (i + 1) j' out')"
  using b64_val_en [OF assms(3)] assms(1,2)
  by (subst swBase64_decode_loop.simps) (auto simp: b64_val_def Let_def split: if_splits)

lemma decode_loop_pad:
  "i < length inp \<Longrightarrow> inp ! i = BASE64_PAD \<Longrightarrow> swBase64_decode_loop inp i j out = (BASE64_OK, out)"
  by (subst swBase64_decode_loop.simps) simp

lemma en_not_pad: "v < 64 \<Longrightarrow> base64en ! v \<noteq> BASE64_PAD"
  using b64_val_en [of v] by (auto simp: b64_val_def)

lemma word_join: "x + y = unat a \<Longrightarrow> of_nat x + of_nat y = (a :: u8)"
  by (simp flip: of_nat_add)

text \<open>The bytes the decoder assembles from the values of one block.\<close>

lemma join_bytes:
  fixes a b c :: u8
  shows "of_nat (push_bit 2 (unat a div 4)) + of_nat (drop_bit 4 (unat a mod 4 * 16 + unat b div 16) AND 3) = a"
    "of_nat (push_bit 4 ((unat a mod 4 * 16 + unat b div 16) AND 15)) +
       of_nat (drop_bit 2 (unat b mod 16 * 4 + unat c div 64) AND 15) = b"
    "of_nat (push_bit 6 ((unat b mod 16 * 4 + unat c div 64) AND 3)) + of_nat (unat c mod 64) = c"
proof -
  have d: "unat b div 16 < 16" "unat c div 64 < 4" by (rule byte_div_less)+
  show "of_nat (push_bit 2 (unat a div 4)) + of_nat (drop_bit 4 (unat a mod 4 * 16 + unat b div 16) AND 3) = a"
    by (rule word_join) (use d in \<open>simp add: b64_bits\<close>)
  show "of_nat (push_bit 4 ((unat a mod 4 * 16 + unat b div 16) AND 15)) +
       of_nat (drop_bit 2 (unat b mod 16 * 4 + unat c div 64) AND 15) = b"
    by (rule word_join) (use d in \<open>simp add: b64_bits\<close>)
  show "of_nat (push_bit 6 ((unat b mod 16 * 4 + unat c div 64) AND 3)) + of_nat (unat c mod 64) = c"
    by (rule word_join) (use d in \<open>simp add: b64_bits\<close>)
qed

text \<open>The buffer after \<open>xs\<close> has been written from index \<open>j\<close> on.\<close>

definition buf_put :: "nat \<Rightarrow> bytes \<Rightarrow> (nat \<Rightarrow> u8) \<Rightarrow> nat \<Rightarrow> u8" where
  "buf_put j xs out i = (if j \<le> i \<and> i < j + length xs then xs ! (i - j) else out i)"

lemma buf_put_Nil [simp]: "buf_put j [] out = out"
  by (auto simp: buf_put_def fun_eq_iff)

lemma buf_put_Cons: "buf_put j (x # xs) out = buf_put (Suc j) xs (out(j := x))"
  by (auto simp: buf_put_def nth_Cons' fun_eq_iff)

lemma b64_block:
  "unat a div 4 < 64 \<and> unat a mod 4 * 16 + unat b div 16 < 64 \<and> unat b mod 16 * 4 + unat c div 64 < 64 \<and>
   unat c mod 64 < 64" for a b c :: u8
proof -
  have "unat a mod 4 < 4" "unat b mod 16 < 16" "unat b div 16 < 16" "unat c div 64 < 4" "unat a div 4 < 64"
    by (simp_all add: byte_div_less)
  then show ?thesis by auto
qed

lemma decode_block:
  assumes pre: "length pre = 4 * k" and inp: "inp = pre @ b64 (a # b # c # r)"
  shows "swBase64_decode_loop inp (4 * k) j out =
    swBase64_decode_loop inp (4 * k + 4) (j + 3) (out(j := a, j + 1 := b, j + 2 := c))"
proof -
  let ?v1 = "unat a div 4" and ?v2 = "unat a mod 4 * 16 + unat b div 16"
    and ?v3 = "unat b mod 16 * 4 + unat c div 64" and ?v4 = "unat c mod 64"
  have v: "?v1 < 64" "?v2 < 64" "?v3 < 64" "?v4 < 64" using b64_block [of a b c] by blast+
  have at: "inp ! (4 * k) = base64en ! ?v1" "inp ! (4 * k + 1) = base64en ! ?v2"
    "inp ! (4 * k + 2) = base64en ! ?v3" "inp ! (4 * k + 3) = base64en ! ?v4"
    using pre by (simp_all add: inp nth_append)
  have len: "length inp = 4 * k + 4 + length (b64 r)" using pre by (simp add: inp)
  have lens: "b64 r = [] \<or> 4 \<le> length (b64 r)" by (cases r rule: b64.cases) auto
  have c1: "4 * k + 1 + 3 < length inp \<or> inp ! (length inp - 2) \<noteq> BASE64_PAD"
    using lens len at(3) en_not_pad [OF v(3)] by auto
  have c2: "4 * k + 2 + 2 < length inp \<or> inp ! (length inp - 1) \<noteq> BASE64_PAD"
    using lens len at(4) en_not_pad [OF v(4)] by (auto simp: add.commute)
  have m: "(4 * k) mod 4 = 0" "(4 * k + 1) mod 4 = 1" "(4 * k + 2) mod 4 = 2" "(4 * k + 3) mod 4 = 3" by presburger+
  have i3: "Suc (Suc (Suc (4 * k))) = 4 * k + 3" and j3: "Suc (Suc (Suc j)) = j + 3" by simp_all
  let ?o1 = "out(j := of_nat (push_bit 2 ?v1))"
  let ?o2 = "?o1(j := ?o1 j + of_nat (drop_bit 4 ?v2 AND 3), j + 1 := of_nat (push_bit 4 (?v2 AND 15)))"
  let ?o3 = "?o2(j + 1 := ?o2 (j + 1) + of_nat (drop_bit 2 ?v3 AND 15), j + 2 := of_nat (push_bit 6 (?v3 AND 3)))"
  let ?o4 = "?o3(j + 2 := ?o3 (j + 2) + of_nat ?v4)"
  have "swBase64_decode_loop inp (4 * k) j out = swBase64_decode_loop inp (4 * k + 1) j ?o1"
    using len m by (subst decode_loop_val [OF _ at(1) v(1)]) (simp_all add: swBase64_decode_step_def)
  also have "\<dots> = swBase64_decode_loop inp (4 * k + 2) (j + 1) ?o2"
    using len m c1 by (subst decode_loop_val [OF _ at(2) v(2)]) (simp_all add: swBase64_decode_step_def Let_def)
  also have "\<dots> = swBase64_decode_loop inp (4 * k + 3) (j + 2) ?o3"
    using len m c2 by (subst decode_loop_val [OF _ at(3) v(3)]) (simp_all add: swBase64_decode_step_def Let_def i3)
  also have "\<dots> = swBase64_decode_loop inp (4 * k + 4) (j + 3) ?o4"
    using len m by (subst decode_loop_val [OF _ at(4) v(4)]) (simp_all add: swBase64_decode_step_def Let_def j3 add.commute)
  also have "?o4 = out(j := a, j + 1 := b, j + 2 := c)"
    using join_bytes(1) [of a b] join_bytes(2) [of a b c] join_bytes(3) [of b c] by (auto simp: fun_eq_iff)
  finally show ?thesis .
qed

lemma decode_blocks:
  assumes "length pre = 4 * k"
  shows "swBase64_decode_loop (pre @ b64 xs) (4 * k) j out = (BASE64_OK, buf_put j xs out)"
  using assms
proof (induction xs arbitrary: pre k j out rule: b64.induct)
  case 1
  then show ?case by (subst swBase64_decode_loop.simps) simp
next
  case (2 a)
  have v: "unat a div 4 < 64" "unat a mod 4 * 16 < 64" using b64_block [of a 0 0] by auto
  have m: "(4 * k) mod 4 = 0" "Suc (4 * k) mod 4 = 1" by presburger+
  have "of_nat (push_bit 2 (unat a div 4)) + of_nat (drop_bit 4 (unat a mod 4 * 16) AND 3) = a"
    using join_bytes(1) [of a 0] by simp
  with 2 m v show ?case
    by (simp add: decode_loop_val [where v = "unat a div 4"] decode_loop_val [where v = "unat a mod 4 * 16"]
        decode_loop_pad nth_append swBase64_decode_step_def Let_def buf_put_Cons fun_eq_iff)
next
  case (3 a b)
  let ?v1 = "unat a div 4" and ?v2 = "unat a mod 4 * 16 + unat b div 16" and ?v3 = "unat b mod 16 * 4"
  have v: "?v1 < 64" "?v2 < 64" "?v3 < 64" using b64_block [of a b 0] by auto
  have m: "(4 * k) mod 4 = 0" "Suc (4 * k) mod 4 = 1" "Suc (Suc (4 * k)) mod 4 = 2" by presburger+
  have "of_nat (push_bit 4 (?v2 AND 15)) + of_nat (drop_bit 2 ?v3 AND 15) = b"
    using join_bytes(2) [of a b 0] by simp
  with 3 m v join_bytes(1) [of a b] show ?case
    using en_not_pad [OF v(3)]
    by (simp add: decode_loop_val [where v = ?v1] decode_loop_val [where v = ?v2] decode_loop_val [where v = ?v3]
        decode_loop_pad nth_append swBase64_decode_step_def Let_def buf_put_Cons fun_eq_iff)
next
  case (4 a b c r)
  let ?pre = "pre @ take 4 (b64 (a # b # c # r))"
  have eq: "pre @ b64 (a # b # c # r) = ?pre @ b64 r" "length ?pre = 4 * Suc k" using 4(2) by simp_all
  have "swBase64_decode_loop (pre @ b64 (a # b # c # r)) (4 * k) j out =
      swBase64_decode_loop (pre @ b64 (a # b # c # r)) (4 * k + 4) (j + 3) (out(j := a, j + 1 := b, j + 2 := c))"
    by (rule decode_block [OF 4(2) refl])
  also have "\<dots> = (BASE64_OK, buf_put (j + 3) r (out(j := a, j + 1 := b, j + 2 := c)))"
    unfolding eq(1) using 4(1) [OF eq(2), of "j + 3" "out(j := a, j + 1 := b, j + 2 := c)"]
    by (simp only: mult_Suc_right add.commute)
  also have "\<dots> = (BASE64_OK, buf_put j (a # b # c # r) out)" by (simp add: buf_put_Cons numeral_3_eq_3)
  finally show ?case .
qed

section \<open>Properties\<close>

text \<open>C15. Decoding what \<open>swBase64_encode\<close> wrote gives the input back: \<open>swBase64_decode\<close> returns
  \<open>BASE64_OK\<close>, the first bytes of the output buffer are the input, and no other byte of the
  buffer has changed.\<close>

theorem swBase64_roundtrip:
  "swBase64_decode (swBase64_encode xs) out = (BASE64_OK, buf_put 0 xs out)"
  using decode_blocks [of "[]" 0 xs 0 out] by (simp add: swBase64_decode_def encode_b64)

text \<open>The encoder writes exactly the bytes that the macro \<open>BASE64_ENCODE_OUT_SIZE\<close> reserves.\<close>

definition BASE64_ENCODE_OUT_SIZE :: "nat \<Rightarrow> nat" where
  "BASE64_ENCODE_OUT_SIZE s = (s + 2) div 3 * 4"

text \<open>\<open>swBase64_encode\<close> stays inside a buffer of \<open>BASE64_ENCODE_OUT_SIZE\<close> bytes: it writes exactly
  that many.\<close>

theorem swBase64_encode_size: "length (swBase64_encode xs) = BASE64_ENCODE_OUT_SIZE (length xs)"
  unfolding encode_b64
proof (induction xs rule: b64.induct)
  case (4 a b c r)
  have "(length r + 3 + 2) div 3 = (length r + 2) div 3 + 1" by presburger
  with 4 show ?case by (simp add: BASE64_ENCODE_OUT_SIZE_def add.commute)
qed (simp_all add: BASE64_ENCODE_OUT_SIZE_def)

end
