(* ===== verification/Sw_Hash.thy ===== *)
theory Sw_Hash
  imports Sw_Prelude
begin

unbundle bit_operations_syntax

text \<open>
  The hash functions of \<open>include/hash.h\<close> and the checksum of \<open>src/core/hashmap.c\<close>. Keys are lists of
  bytes; \<open>char\<close> is signed, so a byte is sign-extended (\<open>scast\<close>) wherever the code uses it in
  arithmetic. Sums and products wrap at the width of the code's variables.
\<close>

section \<open>DJBX33A (\<open>swoole_hash_php\<close>)\<close>

definition php_step :: "u64 \<Rightarrow> u8 \<Rightarrow> u64" where
  "php_step hash c = (push_bit 5 hash + hash) + scast c"

text \<open>The loop over groups of eight, and the switch whose cases fall through to the last.\<close>

function swoole_hash_php_loop :: "u64 \<Rightarrow> bytes \<Rightarrow> u64 \<times> bytes" where
  "swoole_hash_php_loop hash key =
     (if length key \<ge> 8 then
        let h0 = php_step hash (key ! 0); h1 = php_step h0 (key ! 1);
            h2 = php_step h1 (key ! 2); h3 = php_step h2 (key ! 3);
            h4 = php_step h3 (key ! 4); h5 = php_step h4 (key ! 5);
            h6 = php_step h5 (key ! 6); h7 = php_step h6 (key ! 7)
        in swoole_hash_php_loop h7 (drop 8 key)
      else (hash, key))"
  by pat_completeness auto
termination by (relation "measure (\<lambda>(hash, key). length key)") auto

definition swoole_hash_php_tail :: "u64 \<Rightarrow> bytes \<Rightarrow> u64" where
  "swoole_hash_php_tail hash key =
     (let n = length key;
          h7 = (if n \<ge> 7 then php_step hash (key ! (n - 7)) else hash);
          h6 = (if n \<ge> 6 then php_step h7 (key ! (n - 6)) else h7);
          h5 = (if n \<ge> 5 then php_step h6 (key ! (n - 5)) else h6);
          h4 = (if n \<ge> 4 then php_step h5 (key ! (n - 4)) else h5);
          h3 = (if n \<ge> 3 then php_step h4 (key ! (n - 3)) else h4);
          h2 = (if n \<ge> 2 then php_step h3 (key ! (n - 2)) else h3)
      in if n \<ge> 1 then php_step h2 (key ! (n - 1)) else h2)"

definition swoole_hash_php :: "bytes \<Rightarrow> u64" where
  "swoole_hash_php key = (case swoole_hash_php_loop 5381 key of (hash, rest) \<Rightarrow> swoole_hash_php_tail hash rest)"

declare swoole_hash_php_loop.simps [simp del]

section \<open>MurmurHash2 (\<open>swoole_hash_austin\<close>)\<close>

definition austin_mul :: u32 where
  "austin_mul = 0x5bd1e995"

function swoole_hash_austin_loop :: "u32 \<Rightarrow> bytes \<Rightarrow> u32 \<times> bytes" where
  "swoole_hash_austin_loop h key =
     (if length key \<ge> 4 then
        let k0 = scast (key ! 0) OR push_bit 8 (scast (key ! 1)) OR push_bit 16 (scast (key ! 2))
              OR push_bit 24 (scast (key ! 3));
            k1 = k0 * austin_mul;
            k2 = k1 XOR drop_bit 24 k1;
            k3 = k2 * austin_mul
        in swoole_hash_austin_loop ((h * austin_mul) XOR k3) (drop 4 key)
      else (h, key))"
  by pat_completeness auto
termination by (relation "measure (\<lambda>(h, key). length key)") auto

definition swoole_hash_austin :: "bytes \<Rightarrow> u32" where
  "swoole_hash_austin key =
     (let (h, rest) = swoole_hash_austin_loop (0 XOR of_nat (length key)) key;
          n = length rest;
          h3 = (if n \<ge> 3 then h XOR push_bit 16 (scast (rest ! 2)) else h);
          h2 = (if n \<ge> 2 then h3 XOR push_bit 8 (scast (rest ! 1)) else h3);
          h1 = (if n \<ge> 1 then (h2 XOR scast (rest ! 0)) * austin_mul else h2);
          a = h1 XOR drop_bit 13 h1;
          b = a * austin_mul
      in b XOR drop_bit 15 b)"

declare swoole_hash_austin_loop.simps [simp del]

section \<open>Jenkins (\<open>swoole_hash_jenkins\<close>)\<close>

text \<open>The macro \<open>HASH_JEN_MIX\<close> with the types of its call: \<open>a\<close> and \<open>b\<close> are 32-bit, \<open>c\<close> is the 64-bit
  hash value, and every assignment truncates to the type of its left side.\<close>

definition HASH_JEN_MIX :: "u32 \<times> u32 \<times> u64 \<Rightarrow> u32 \<times> u32 \<times> u64" where
  "HASH_JEN_MIX = (\<lambda>(a0, b0, c0).
     let a1 = (a0 - b0 - ucast c0) XOR ucast (drop_bit 13 c0);
         b1 = (b0 - ucast c0 - a1) XOR push_bit 8 a1;
         c1 = (c0 - ucast a1 - ucast b1) XOR ucast (drop_bit 13 b1);
         a2 = (a1 - b1 - ucast c1) XOR ucast (drop_bit 12 c1);
         b2 = (b1 - ucast c1 - a2) XOR push_bit 16 a2;
         c2 = (c1 - ucast a2 - ucast b2) XOR ucast (drop_bit 5 b2);
         a3 = (a2 - b2 - ucast c2) XOR ucast (drop_bit 3 c2);
         b3 = (b2 - ucast c2 - a3) XOR push_bit 10 a3;
         c3 = (c2 - ucast a3 - ucast b3) XOR ucast (drop_bit 15 b3)
     in (a3, b3, c3))"

definition jen_word :: "bytes \<Rightarrow> nat \<Rightarrow> u32" where
  "jen_word key o4 = scast (key ! o4) + push_bit 8 (scast (key ! (o4 + 1)))
     + push_bit 16 (scast (key ! (o4 + 2))) + push_bit 24 (scast (key ! (o4 + 3)))"

function swoole_hash_jenkins_loop :: "u32 \<times> u32 \<times> u64 \<Rightarrow> bytes \<Rightarrow> (u32 \<times> u32 \<times> u64) \<times> bytes" where
  "swoole_hash_jenkins_loop s key =
     (if length key \<ge> 12 then
        (case s of (i, j, hashv) \<Rightarrow>
           swoole_hash_jenkins_loop
             (HASH_JEN_MIX (i + jen_word key 0, j + jen_word key 4, hashv + ucast (jen_word key 8)))
             (drop 12 key))
      else (s, key))"
  by pat_completeness auto
termination by (relation "measure (\<lambda>(s, key). length key)") auto

definition swoole_hash_jenkins :: "bytes \<Rightarrow> u64" where
  "swoole_hash_jenkins key0 =
     (let ((i0, j0, v0), key) = swoole_hash_jenkins_loop (0x9e3779b9, 0x9e3779b9, 0xfeedbeef) key0;
          k = length key;
          u = (\<lambda>n. scast (key ! n) :: u32);
          v1 = v0 + of_nat (length key0);
          v2 = (if k \<ge> 11 then v1 + ucast (push_bit 24 (u 10)) else v1);
          v3 = (if k \<ge> 10 then v2 + ucast (push_bit 16 (u 9)) else v2);
          v4 = (if k \<ge> 9 then v3 + ucast (push_bit 8 (u 8)) else v3);
          j1 = (if k \<ge> 8 then j0 + push_bit 24 (u 7) else j0);
          j2 = (if k \<ge> 7 then j1 + push_bit 16 (u 6) else j1);
          j3 = (if k \<ge> 6 then j2 + push_bit 8 (u 5) else j2);
          j4 = (if k \<ge> 5 then j3 + u 4 else j3);
          i1 = (if k \<ge> 4 then i0 + push_bit 24 (u 3) else i0);
          i2 = (if k \<ge> 3 then i1 + push_bit 16 (u 2) else i1);
          i3 = (if k \<ge> 2 then i2 + push_bit 8 (u 1) else i2);
          i4 = (if k \<ge> 1 then i3 + u 0 else i3)
      in snd (snd (HASH_JEN_MIX (i4, j4, v4))))"

declare swoole_hash_jenkins_loop.simps [simp del]

section \<open>The checksum (\<open>swoole_crc32\<close>)\<close>

definition crc32_tab :: "u32 list" where
  "crc32_tab =
    [0x00000000, 0x77073096, 0xee0e612c, 0x990951ba, 0x076dc419, 0x706af48f,
     0xe963a535, 0x9e6495a3, 0x0edb8832, 0x79dcb8a4, 0xe0d5e91e, 0x97d2d988,
     0x09b64c2b, 0x7eb17cbd, 0xe7b82d07, 0x90bf1d91, 0x1db71064, 0x6ab020f2,
     0xf3b97148, 0x84be41de, 0x1adad47d, 0x6ddde4eb, 0xf4d4b551, 0x83d385c7,
     0x136c9856, 0x646ba8c0, 0xfd62f97a, 0x8a65c9ec, 0x14015c4f, 0x63066cd9,
     0xfa0f3d63, 0x8d080df5, 0x3b6e20c8, 0x4c69105e, 0xd56041e4, 0xa2677172,
     0x3c03e4d1, 0x4b04d447, 0xd20d85fd, 0xa50ab56b, 0x35b5a8fa, 0x42b2986c,
     0xdbbbc9d6, 0xacbcf940, 0x32d86ce3, 0x45df5c75, 0xdcd60dcf, 0xabd13d59,
     0x26d930ac, 0x51de003a, 0xc8d75180, 0xbfd06116, 0x21b4f4b5, 0x56b3c423,
     0xcfba9599, 0xb8bda50f, 0x2802b89e, 0x5f058808, 0xc60cd9b2, 0xb10be924,
     0x2f6f7c87, 0x58684c11, 0xc1611dab, 0xb6662d3d, 0x76dc4190, 0x01db7106,
     0x98d220bc, 0xefd5102a, 0x71b18589, 0x06b6b51f, 0x9fbfe4a5, 0xe8b8d433,
     0x7807c9a2, 0x0f00f934, 0x9609a88e, 0xe10e9818, 0x7f6a0dbb, 0x086d3d2d,
     0x91646c97, 0xe6635c01, 0x6b6b51f4, 0x1c6c6162, 0x856530d8, 0xf262004e,
     0x6c0695ed, 0x1b01a57b, 0x8208f4c1, 0xf50fc457, 0x65b0d9c6, 0x12b7e950,
     0x8bbeb8ea, 0xfcb9887c, 0x62dd1ddf, 0x15da2d49, 0x8cd37cf3, 0xfbd44c65,
     0x4db26158, 0x3ab551ce, 0xa3bc0074, 0xd4bb30e2, 0x4adfa541, 0x3dd895d7,
     0xa4d1c46d, 0xd3d6f4fb, 0x4369e96a, 0x346ed9fc, 0xad678846, 0xda60b8d0,
     0x44042d73, 0x33031de5, 0xaa0a4c5f, 0xdd0d7cc9, 0x5005713c, 0x270241aa,
     0xbe0b1010, 0xc90c2086, 0x5768b525, 0x206f85b3, 0xb966d409, 0xce61e49f,
     0x5edef90e, 0x29d9c998, 0xb0d09822, 0xc7d7a8b4, 0x59b33d17, 0x2eb40d81,
     0xb7bd5c3b, 0xc0ba6cad, 0xedb88320, 0x9abfb3b6, 0x03b6e20c, 0x74b1d29a,
     0xead54739, 0x9dd277af, 0x04db2615, 0x73dc1683, 0xe3630b12, 0x94643b84,
     0x0d6d6a3e, 0x7a6a5aa8, 0xe40ecf0b, 0x9309ff9d, 0x0a00ae27, 0x7d079eb1,
     0xf00f9344, 0x8708a3d2, 0x1e01f268, 0x6906c2fe, 0xf762575d, 0x806567cb,
     0x196c3671, 0x6e6b06e7, 0xfed41b76, 0x89d32be0, 0x10da7a5a, 0x67dd4acc,
     0xf9b9df6f, 0x8ebeeff9, 0x17b7be43, 0x60b08ed5, 0xd6d6a3e8, 0xa1d1937e,
     0x38d8c2c4, 0x4fdff252, 0xd1bb67f1, 0xa6bc5767, 0x3fb506dd, 0x48b2364b,
     0xd80d2bda, 0xaf0a1b4c, 0x36034af6, 0x41047a60, 0xdf60efc3, 0xa867df55,
     0x316e8eef, 0x4669be79, 0xcb61b38c, 0xbc66831a, 0x256fd2a0, 0x5268e236,
     0xcc0c7795, 0xbb0b4703, 0x220216b9, 0x5505262f, 0xc5ba3bbe, 0xb2bd0b28,
     0x2bb45a92, 0x5cb36a04, 0xc2d7ffa7, 0xb5d0cf31, 0x2cd99e8b, 0x5bdeae1d,
     0x9b64c2b0, 0xec63f226, 0x756aa39c, 0x026d930a, 0x9c0906a9, 0xeb0e363f,
     0x72076785, 0x05005713, 0x95bf4a82, 0xe2b87a14, 0x7bb12bae, 0x0cb61b38,
     0x92d28e9b, 0xe5d5be0d, 0x7cdcefb7, 0x0bdbdf21, 0x86d3d2d4, 0xf1d4e242,
     0x68ddb3f8, 0x1fda836e, 0x81be16cd, 0xf6b9265b, 0x6fb077e1, 0x18b74777,
     0x88085ae6, 0xff0f6a70, 0x66063bca, 0x11010b5c, 0x8f659eff, 0xf862ae69,
     0x616bffd3, 0x166ccf45, 0xa00ae278, 0xd70dd2ee, 0x4e048354, 0x3903b3c2,
     0xa7672661, 0xd06016f7, 0x4969474d, 0x3e6e77db, 0xaed16a4a, 0xd9d65adc,
     0x40df0b66, 0x37d83bf0, 0xa9bcae53, 0xdebb9ec5, 0x47b2cf7f, 0x30b5ffe9,
     0xbdbdf21c, 0xcabac28a, 0x53b39330, 0x24b4a3a6, 0xbad03605, 0xcdd70693,
     0x54de5729, 0x23d967bf, 0xb3667a2e, 0xc4614ab8, 0x5d681b02, 0x2a6f2b94,
     0xb40bbe37, 0xc30c8ea1, 0x5a05df1b, 0x2d02ef8d]"

text \<open>\<open>crc\<close> is a signed \<open>int\<close>, so \<open>crc >> 8\<close> copies its sign bit.\<close>

definition crc32_step :: "u32 \<Rightarrow> u8 \<Rightarrow> u32" where
  "crc32_step crc p = crc32_tab ! unat ((crc XOR scast p) AND 0xFF) XOR signed_drop_bit 8 crc"

definition crc32 :: "bytes \<Rightarrow> u32" where
  "crc32 buf = foldl crc32_step 0 buf XOR NOT 0"

definition CRC_STRING_MAXLEN :: nat where
  "CRC_STRING_MAXLEN = 256"

text \<open>Long data are sampled: the first 64 bytes, 176 bytes at equal steps and the 16 bytes after
  them.\<close>

definition swoole_crc32 :: "bytes \<Rightarrow> u32 option" where
  "swoole_crc32 xs =
     (if length xs < CRC_STRING_MAXLEN then Some (crc32 xs)
      else
        let hd_n = CRC_STRING_MAXLEN div 4; tl_n = CRC_STRING_MAXLEN div 16;
            body = CRC_STRING_MAXLEN - hd_n - tl_n;
            step = (length xs - tl_n - hd_n) div body
        in do { a \<leftarrow> bytes_at xs [0..<hd_n];
                b \<leftarrow> bytes_at xs (map (\<lambda>i. hd_n + i * step) [0..<body]);
                c \<leftarrow> bytes_at xs [hd_n + body * step..<hd_n + body * step + tl_n];
                Some (crc32 (a @ b @ c)) })"

section \<open>Properties\<close>

lemma php_step_33: "php_step hash c = hash * 33 + scast c"
  by (simp add: php_step_def push_bit_eq_mult algebra_simps)

lemma take_8:
  "8 \<le> length xs \<Longrightarrow> take 8 xs = [xs ! 0, xs ! 1, xs ! 2, xs ! 3, xs ! 4, xs ! 5, xs ! 6, xs ! 7]"
  by (rule nth_equalityI) (auto simp: less_Suc_eq numeral_eq_Suc)

lemma php_loop_fold:
  assumes "swoole_hash_php_loop hash key = (h, rest)"
  shows "foldl php_step hash key = foldl php_step h rest \<and> length rest < 8"
  using assms
proof (induction hash key arbitrary: h rest rule: swoole_hash_php_loop.induct)
  case (1 hash key)
  show ?case
  proof (cases "length key \<ge> 8")
    case True
    have "swoole_hash_php_loop (foldl php_step hash (take 8 key)) (drop 8 key) = (h, rest)"
      using 1(2) True by (subst (asm) swoole_hash_php_loop.simps) (simp add: take_8 Let_def)
    then have "foldl php_step (foldl php_step hash (take 8 key)) (drop 8 key) = foldl php_step h rest \<and> length rest < 8"
      using 1(1) True by (simp add: take_8)
    then show ?thesis by (metis append_take_drop_id foldl_append)
  next
    case False
    with 1(2) show ?thesis by (subst (asm) swoole_hash_php_loop.simps) auto
  qed
qed

lemma php_tail_fold: "length key < 8 \<Longrightarrow> swoole_hash_php_tail hash key = foldl php_step hash key"
  by (auto simp: swoole_hash_php_tail_def less_Suc_eq numeral_eq_Suc length_Suc_conv)

text \<open>C16. \<open>swoole_hash_php\<close>, with its loop unrolled eight times and its falling switch, computes the
  hash its comment describes for a key of any length: from 5381 on, times 33 plus the next
  (signed) character, modulo \<open>2 ^ 64\<close>.\<close>

theorem swoole_hash_php_times33:
  "swoole_hash_php key = foldl (\<lambda>hash c. hash * 33 + scast c) 5381 key"
proof -
  obtain h rest where loop: "swoole_hash_php_loop 5381 key = (h, rest)" by fastforce
  have "swoole_hash_php key = foldl php_step 5381 key"
    using php_loop_fold [OF loop] by (simp add: swoole_hash_php_def loop php_tail_fold)
  also have "php_step = (\<lambda>hash c. hash * 33 + scast c)" by (intro ext) (rule php_step_33)
  finally show ?thesis .
qed

text \<open>\<open>swoole_crc32\<close> reads no byte beyond its data, whatever their length: the checksum of long data
  is that of 256 of their bytes.\<close>

theorem swoole_crc32_in_bounds:
  "\<exists>sample. swoole_crc32 xs = Some (crc32 sample) \<and> length sample = min (length xs) CRC_STRING_MAXLEN \<and>
     set sample \<subseteq> set xs"
proof (cases "length xs < CRC_STRING_MAXLEN")
  case True
  then show ?thesis by (intro exI [of _ xs]) (simp add: swoole_crc32_def)
next
  case False
  define step where "step = (length xs - 80) div 176"
  have step: "64 + 176 * step + 16 \<le> length xs"
  proof -
    have "176 * step \<le> length xs - 80" by (simp add: step_def)
    with False show ?thesis by (simp add: CRC_STRING_MAXLEN_def)
  qed
  have mid: "64 + i * step < length xs" if "i < 176" for i
  proof -
    have "i * step \<le> 176 * step" using that by (intro mult_right_mono) auto
    with step show ?thesis by linarith
  qed
  define sample where "sample = map ((!) xs) ([0..<64] @ map (\<lambda>i. 64 + i * step) [0..<176] @
    [64 + 176 * step..<64 + 176 * step + 16])"
  have "bytes_at xs [0..<64] = Some (map ((!) xs) [0..<64])" using step by (intro bytes_at_bounded) auto
  moreover have "bytes_at xs (map (\<lambda>i. 64 + i * step) [0..<176]) = Some (map ((!) xs) (map (\<lambda>i. 64 + i * step) [0..<176]))"
    using mid by (intro bytes_at_bounded) auto
  moreover have "bytes_at xs [64 + 176 * step..<64 + 176 * step + 16] = Some (map ((!) xs) [64 + 176 * step..<64 + 176 * step + 16])"
    using step by (intro bytes_at_bounded) auto
  ultimately have "swoole_crc32 xs = Some (crc32 sample)"
    using False by (simp add: swoole_crc32_def CRC_STRING_MAXLEN_def sample_def step_def Let_def del: upt_Suc)
  moreover have "length sample = 256" by (simp add: sample_def)
  moreover have "set sample \<subseteq> set xs" using step mid by (auto simp: sample_def)
  ultimately show ?thesis using False by (intro exI [of _ sample]) (simp add: CRC_STRING_MAXLEN_def)
qed

text \<open>The shift register of the comment above the table: one shift to the right per bit, with the
  polynomial fed back when a one leaves the register.\<close>

definition crc_shift :: "u32 \<Rightarrow> u32" where
  "crc_shift x = drop_bit 1 x XOR (if bit x 0 then 0xedb88320 else 0)"

lemma crc_shift_xor: "crc_shift (x XOR y) = crc_shift x XOR crc_shift y"
  by (auto simp: crc_shift_def drop_bit_xor bit_xor_iff xor.assoc xor.left_commute)

lemma crc_shifts_xor: "(crc_shift ^^ n) (x XOR y) = (crc_shift ^^ n) x XOR (crc_shift ^^ n) y"
  by (induction n) (simp_all add: crc_shift_xor)

lemma crc_shifts_zero: "(\<And>i. i < n \<Longrightarrow> \<not> bit x i) \<Longrightarrow> (crc_shift ^^ n) x = drop_bit n x"
proof (induction n arbitrary: x)
  case (Suc n)
  have "crc_shift x = drop_bit 1 x" using Suc.prems [of 0] by (simp add: crc_shift_def)
  moreover have "\<not> bit (drop_bit 1 x) i" if "i < n" for i using Suc.prems [of "Suc i"] that by (simp add: bit_drop_bit_eq)
  ultimately show ?case using Suc.IH [of "drop_bit 1 x"] by (simp add: funpow_swap1 [symmetric] funpow_Suc_right del: funpow.simps)
qed simp

text \<open>The table, a power of two after the other: the entry of a power of two is computed, the entries above
  it are its sums with the entries below.\<close>

lemma crc32_tab_powers: "list_all (\<lambda>k. crc32_tab ! (2 ^ k) = (crc_shift ^^ 8) (push_bit k 1)) [0, 1, 2, 3, 4, 5, 6, 7]"
proof -
  have "map (crc_shift ^^ 8) [1, 2, 4, 8, 16, 32, 64, 128] = [0x77073096, 0xee0e612c, 0x076dc419, 0x0edb8832,
      0x1db71064, 0x3b6e20c8, 0x76dc4190, 0xedb88320]" by code_simp
  then show ?thesis by (simp add: crc32_tab_def)
qed

lemma crc32_tab_sums:
  "list_all (\<lambda>k. take (2 ^ k) (drop (2 ^ k) crc32_tab) = map (\<lambda>x. x XOR crc32_tab ! (2 ^ k)) (take (2 ^ k) crc32_tab))
    [0, 1, 2, 3, 4, 5, 6, 7]"
  by (simp add: crc32_tab_def)

lemma crc32_tab_shifts: "k \<le> 8 \<Longrightarrow> n < 2 ^ k \<Longrightarrow> crc32_tab ! n = (crc_shift ^^ 8) (of_nat n)"
proof (induction k arbitrary: n)
  case 0
  then show ?case by (simp add: crc32_tab_def crc_shift_def numeral_eq_Suc)
next
  case (Suc k)
  have k: "k \<in> set [0, 1, 2, 3, 4, 5, 6, 7]" using Suc.prems(1) by auto
  show ?case
  proof (cases "n < 2 ^ k")
    case False
    define i where "i = n - 2 ^ k"
    have i: "n = 2 ^ k + i" "i < 2 ^ k" using False Suc.prems(2) by (simp_all add: i_def)
    have len: "2 ^ k + i < length crc32_tab"
    proof -
      have "n < 2 ^ 8" using Suc.prems power_increasing [of "Suc k" 8 "2 :: nat"] by linarith
      then show ?thesis using i(1) by (simp add: crc32_tab_def)
    qed
    have "take (2 ^ k) (drop (2 ^ k) crc32_tab) ! i = map (\<lambda>x. x XOR crc32_tab ! (2 ^ k)) (take (2 ^ k) crc32_tab) ! i"
      using crc32_tab_sums k unfolding list_all_iff by metis
    then have "crc32_tab ! n = crc32_tab ! i XOR crc32_tab ! (2 ^ k)" using i len by simp
    moreover have "crc32_tab ! (2 ^ k) = (crc_shift ^^ 8) (push_bit k 1)" using crc32_tab_powers k unfolding list_all_iff by metis
    moreover have "(of_nat n :: u32) = of_nat i XOR push_bit k 1"
    proof -
      have "\<not> bit i k" using i(2) by (simp add: bit_iff_odd)
      then have "of_nat i AND (push_bit k 1 :: u32) = 0"
        by (intro bit_eqI) (auto simp: bit_and_iff bit_push_bit_iff bit_1_iff bit_of_nat_iff simp del: push_bit_of_1)
      then have "of_nat i XOR push_bit k 1 = of_nat i + (push_bit k 1 :: u32)" by (simp add: disjunctive_xor_eq_or disjunctive_add_eq_or)
      then show ?thesis using i(1) by (simp add: push_bit_eq_mult)
    qed
    ultimately show ?thesis using Suc.IH [of i] Suc.prems(1) i(2) by (simp add: crc_shifts_xor)
  qed (use Suc in simp)
qed

lemma bit_low_mask: "bit (0xFF :: u32) n \<longleftrightarrow> n < 8" "bit (0xff000000 :: u32) n \<longleftrightarrow> 24 \<le> n \<and> n < 32"
proof -
  have m: "(0xFF :: u32) = mask 8" "(0xff000000 :: u32) = push_bit 24 (mask 8)" by code_simp+
  show "bit (0xFF :: u32) n \<longleftrightarrow> n < 8" "bit (0xff000000 :: u32) n \<longleftrightarrow> 24 \<le> n \<and> n < 32"
    unfolding m by (auto simp only: bit_mask_iff bit_push_bit_iff) (auto simp: bit_mask_iff possible_bit_def)
qed

lemma crc32_step_shifts:
  "crc32_step crc p = (crc_shift ^^ 8) (crc XOR ucast p) XOR (if bit crc 31 then 0xff000000 else 0)"
proof -
  let ?x = "crc XOR ucast p" and ?i = "(crc XOR scast p) AND (0xFF :: u32)"
  have low: "take_bit 8 ?x = ?i"
  proof (rule bit_eqI)
    fix n
    show "bit (take_bit 8 ?x) n = bit ?i n"
      by (cases "n = 7") (auto simp: bit_take_bit_iff bit_xor_iff bit_and_iff bit_low_mask bit_unsigned_iff bit_signed_iff min_def
          simp del: bit_numeral_word_iff)
  qed
  have "unat ?i = take_bit 8 (unat ?x)" unfolding low [symmetric] by (rule unsigned_take_bit_eq)
  then have "unat ?i < 256" using take_bit_nat_less_exp [of 8 "unat ?x"] by simp
  then have tab: "crc32_tab ! unat ?i = (crc_shift ^^ 8) ?i" by (simp add: crc32_tab_shifts [of 8])
  have high: "(crc_shift ^^ 8) (push_bit 8 (drop_bit 8 ?x)) = drop_bit 8 (push_bit 8 (drop_bit 8 ?x))"
    by (rule crc_shifts_zero) (simp only: bit_push_bit_iff, simp)
  have "y = take_bit 8 y XOR push_bit 8 (drop_bit 8 y)" for y :: u32
  proof (rule bit_eqI)
    fix n
    show "bit y n = bit (take_bit 8 y XOR push_bit 8 (drop_bit 8 y)) n"
      by (cases "n < 8") (auto simp: bit_take_bit_iff bit_push_bit_iff bit_drop_bit_eq bit_xor_iff dest: bit_imp_le_length)
  qed
  then have "?x = ?i XOR push_bit 8 (drop_bit 8 ?x)" unfolding low [symmetric] by blast
  then have "(crc_shift ^^ 8) ?x = (crc_shift ^^ 8) ?i XOR drop_bit 8 (push_bit 8 (drop_bit 8 ?x))"
    using crc_shifts_xor [of 8 ?i] high by metis
  moreover have "signed_drop_bit 8 crc = drop_bit 8 (push_bit 8 (drop_bit 8 ?x)) XOR (if bit crc 31 then 0xff000000 else 0)"
    by (rule bit_eqI)
      (auto simp: bit_signed_drop_bit_iff bit_drop_bit_eq bit_push_bit_iff bit_xor_iff bit_low_mask bit_unsigned_iff
        simp del: bit_numeral_word_iff dest: bit_imp_le_length)
  ultimately show ?thesis unfolding crc32_step_def tab by (simp only: xor.assoc)
qed

text \<open>C17. The table look-ups of \<open>crc32\<close> are the shift register of its comment, eight shifts with feedback of
  the polynomial for every byte and the register complemented at the end, but for one difference: the
  comment requires an unsigned shift, and since \<open>crc\<close> is a signed \<open>int\<close> the top byte is inverted after
  every byte that finds the register negative.\<close>

theorem crc32_shift_register:
  "crc32 buf = NOT (foldl (\<lambda>crc p. (crc_shift ^^ 8) (crc XOR ucast p) XOR (if bit crc 31 then 0xff000000 else 0)) 0 buf)"
proof -
  have "crc32_step = (\<lambda>crc p. (crc_shift ^^ 8) (crc XOR ucast p) XOR (if bit crc 31 then 0xff000000 else 0))"
    by (intro ext) (rule crc32_step_shifts)
  then show ?thesis by (simp add: crc32_def)
qed

end
