(* ===== verification/Sw_Base.thy ===== *)
theory Sw_Base
  imports Sw_Prelude "HOL-Library.Signed_Division" "HOL-Library.List_Lexorder"
begin

unbundle bit_operations_syntax

text \<open>
  The self-contained utilities of \<open>src/core/base.c\<close> and of the inline functions of
  \<open>include/swoole.h\<close>: number printing and comparison, greatest common divisors, byte orders,
  substring searches and the read and write loops. The machine is little-endian; \<open>int\<close> has 32 bits
  and \<open>long\<close> 64. \<open>None\<close> is an access outside a buffer or a failed assertion.
\<close>

section \<open>Sizes and byte orders\<close>

definition swoole_type_size :: "char \<Rightarrow> nat" where
  "swoole_type_size ty =
     (if ty = CHR ''s'' \<or> ty = CHR ''S'' \<or> ty = CHR ''n'' \<or> ty = CHR ''v'' then 2
      else if ty = CHR ''l'' \<or> ty = CHR ''L'' \<or> ty = CHR ''N'' \<or> ty = CHR ''V'' then 4
      else 0)"

definition swoole_size_align :: "nat \<Rightarrow> nat \<Rightarrow> nat" where
  "swoole_size_align sz pagesize = sz + (pagesize - (sz mod pagesize))"

definition swoole_swap_endian16 :: "u16 \<Rightarrow> u16" where
  "swoole_swap_endian16 x = push_bit 8 (x AND 0xff) OR drop_bit 8 (x AND 0xff00)"

definition swoole_swap_endian32 :: "u32 \<Rightarrow> u32" where
  "swoole_swap_endian32 x = push_bit 24 (x AND 0xff) OR push_bit 8 (x AND 0xff00)
     OR drop_bit 8 (x AND 0xff0000) OR drop_bit 24 (x AND 0xff000000)"

text \<open>Loads of a machine with the least significant byte first; \<open>ntohs\<close> and \<open>ntohl\<close> swap there.\<close>

definition load16 :: "bytes \<Rightarrow> u16 option" where
  "load16 d = do { a \<leftarrow> byte_at d 0; b \<leftarrow> byte_at d 1; Some (ucast a OR push_bit 8 (ucast b)) }"

definition load32 :: "bytes \<Rightarrow> u32 option" where
  "load32 d = do { a \<leftarrow> byte_at d 0; b \<leftarrow> byte_at d 1; c \<leftarrow> byte_at d 2; e \<leftarrow> byte_at d 3;
     Some (ucast a OR push_bit 8 (ucast b) OR push_bit 16 (ucast c) OR push_bit 24 (ucast e)) }"

definition ntohs :: "u16 \<Rightarrow> u16" where "ntohs x = push_bit 8 x OR drop_bit 8 x"

definition ntohl :: "u32 \<Rightarrow> u32" where
  "ntohl x = push_bit 24 x OR push_bit 8 (x AND 0xff00) OR (drop_bit 8 x AND 0xff00) OR drop_bit 24 x"

definition swoole_unpack :: "char \<Rightarrow> bytes \<Rightarrow> u32 option" where
  "swoole_unpack ty d =
     (if ty = CHR ''s'' then do { x \<leftarrow> load16 d; Some (scast x) }
      else if ty = CHR ''S'' then do { x \<leftarrow> load16 d; Some (ucast x) }
      else if ty = CHR ''n'' then do { x \<leftarrow> load16 d; Some (ucast (ntohs x)) }
      else if ty = CHR ''v'' then do { x \<leftarrow> load16 d; Some (ucast (swoole_swap_endian16 (ntohs x))) }
      else if ty = CHR ''L'' then load32 d
      else if ty = CHR ''l'' then load32 d
      else if ty = CHR ''N'' then do { x \<leftarrow> load32 d; Some (ntohl x) }
      else if ty = CHR ''V'' then do { x \<leftarrow> load32 d; Some (swoole_swap_endian32 (ntohl x)) }
      else load32 d)"

definition swoole_hton64 :: "u64 \<Rightarrow> u64" where
  "swoole_hton64 host =
     (let low = ntohl (ucast (host AND 0xFFFFFFFF));
          high = ntohl (ucast (drop_bit 32 host AND 0xFFFFFFFF))
      in push_bit 32 (ucast low) OR ucast high)"

definition swoole_ntoh64 :: "u64 \<Rightarrow> u64" where
  "swoole_ntoh64 net =
     (let low = ntohl (ucast (net AND 0xFFFFFFFF));
          high = ntohl (ucast (drop_bit 32 net AND 0xFFFFFFFF))
      in push_bit 32 (ucast low) OR ucast high)"

section \<open>Numbers\<close>

text \<open>\<open>swoole_common_divisor\<close>: repeated subtraction.\<close>

function swoole_common_divisor_loop :: "nat \<Rightarrow> nat \<Rightarrow> nat" where
  "swoole_common_divisor_loop u v =
     (if u > 0 \<and> v > 0 then
        (if u < v then swoole_common_divisor_loop (v - u) u else swoole_common_divisor_loop (u - v) v)
      else v)"
  by pat_completeness auto
termination by (relation "measure (\<lambda>(u, v). u + v)") auto

definition swoole_common_divisor :: "u32 \<Rightarrow> u32 \<Rightarrow> u32 option" where
  "swoole_common_divisor u v =
     (if u = 0 \<or> v = 0 then None
      else Some (of_nat (swoole_common_divisor_loop (unat u) (unat v))))"

text \<open>\<open>swoole_common_multiple\<close>: \<open>res\<close> is an \<open>int\<close>, but only compared with zero and stored back into
  an unsigned variable; the product is a 32-bit one.\<close>

function swoole_common_multiple_loop :: "nat \<Rightarrow> nat \<Rightarrow> nat" where
  "swoole_common_multiple_loop m n =
     (if n = 0 then 0 else if m mod n \<noteq> 0 then swoole_common_multiple_loop n (m mod n) else n)"
  by pat_completeness auto
termination by (relation "measure (\<lambda>(m, n). n)") auto

definition swoole_common_multiple :: "u32 \<Rightarrow> u32 \<Rightarrow> u32 option" where
  "swoole_common_multiple u v =
     (if u = 0 \<or> v = 0 then None
      else Some ((u * v) div of_nat (swoole_common_multiple_loop (unat u) (unat v))))"

declare swoole_common_divisor_loop.simps [simp del] swoole_common_multiple_loop.simps [simp del]

text \<open>\<open>swoole_itoa\<close>: the digits are written last first, then the sign, then all are reversed in place. The
  model gives the bytes written; the code returns their number and ends them with a zero. For the least
  number \<open>value + sign_mask\<close> overflows, which the model takes to wrap.\<close>

function swoole_itoa_digits :: "u64 \<Rightarrow> bytes" where
  "swoole_itoa_digits nn =
     (let c = of_nat (unat (nn mod 10) + 48); rest = nn div 10
      in if rest \<noteq> 0 then c # swoole_itoa_digits rest else [c])"
  by pat_completeness auto
termination
proof (relation "measure unat", goal_cases)
  case (2 nn c rest)
  then have "0 < unat nn" by (auto simp: unat_gt_0)
  with 2 show ?case by (simp add: unat_div)
qed simp

function swoole_itoa_reverse :: "bytes \<Rightarrow> nat \<Rightarrow> nat \<Rightarrow> bytes" where
  "swoole_itoa_reverse buf i j =
     (if i < j then swoole_itoa_reverse (nth_swap buf i j) (i + 1) (j - 1) else buf)"
  by pat_completeness auto
termination by (relation "measure (\<lambda>(buf, i, j). j - i)") auto

definition swoole_itoa :: "u64 \<Rightarrow> bytes" where
  "swoole_itoa value =
     (let sign_mask = signed_drop_bit 63 value;
          nn = (value + sign_mask) XOR sign_mask;
          buf = swoole_itoa_digits nn;
          buf = (if sign_mask AND 1 \<noteq> 0 then buf @ [45] else buf)
      in swoole_itoa_reverse buf 0 (length buf - 1))"

declare swoole_itoa_digits.simps [simp del] swoole_itoa_reverse.simps [simp del]

text \<open>\<open>swoole_dec2hex\<close>: \<open>room\<close> are the bytes left in the local buffer of 64; the digit of a negative
  remainder lies outside the table.\<close>

definition dec2hex_digits :: string where
  "dec2hex_digits = ''0123456789abcdefghijklmnopqrstuvwxyz''"

fun swoole_dec2hex_loop :: "nat \<Rightarrow> int \<Rightarrow> int \<Rightarrow> string \<Rightarrow> string option" where
  "swoole_dec2hex_loop 0 value base acc = None"
| "swoole_dec2hex_loop (Suc room) value base acc =
     (if value smod base < 0 then None
      else
        let acc' = dec2hex_digits ! nat (value smod base) # acc; value' = value sdiv base
        in if room > 0 \<and> value' \<noteq> 0 then swoole_dec2hex_loop room value' base acc' else Some acc')"

definition swoole_dec2hex :: "int \<Rightarrow> int \<Rightarrow> string option" where
  "swoole_dec2hex value base =
     (if \<not> (base > 1 \<and> base < 37) then None else swoole_dec2hex_loop 64 value base [])"

text \<open>\<open>swoole_get_seq_no\<close>: the counter and the number returned are the same.\<close>

definition swoole_get_seq_no :: "u64 \<Rightarrow> u64" where
  "swoole_get_seq_no cur = (if cur + 1 \<ge> 0x7fffffffffffffff then 1 else cur + 1)"

section \<open>Versions\<close>

text \<open>\<open>strtoul\<close> in base 10 on a string without its terminating zero: white space, one sign, digits;
  the value saturates, a minus sign negates it modulo \<open>2 ^ 64\<close>, and without a digit nothing is
  consumed.\<close>

definition c_space :: "char \<Rightarrow> bool" where
  "c_space c \<longleftrightarrow> c = CHR '' '' \<or> c = CHR 0x09 \<or> c = CHR 0x0A \<or> c = CHR 0x0B \<or> c = CHR 0x0C \<or> c = CHR 0x0D"

definition c_digit :: "char \<Rightarrow> nat option" where
  "c_digit c = (let n = of_char c :: nat in if 48 \<le> n \<and> n \<le> 57 then Some (n - 48) else None)"

fun c_number :: "nat \<Rightarrow> string \<Rightarrow> nat \<times> string" where
  "c_number n [] = (n, [])"
| "c_number n (c # s) = (case c_digit c of None \<Rightarrow> (n, c # s) | Some d \<Rightarrow> c_number (10 * n + d) s)"

definition strtoul :: "string \<Rightarrow> nat \<times> string" where
  "strtoul s =
     (let s1 = dropWhile c_space s;
          neg = (s1 \<noteq> [] \<and> hd s1 = CHR ''-'');
          s2 = (if s1 \<noteq> [] \<and> (hd s1 = CHR ''-'' \<or> hd s1 = CHR ''+'') then tl s1 else s1)
      in case s2 of
           [] \<Rightarrow> (0, s)
         | c # _ \<Rightarrow>
             if c_digit c = None then (0, s)
             else case c_number 0 s2 of (n, rest) \<Rightarrow>
               (if n \<ge> 2 ^ 64 then 2 ^ 64 - 1 else if neg then (2 ^ 64 - n) mod 2 ^ 64 else n, rest))"

lemma c_number_length: "c_number n s = (m, r) \<Longrightarrow> length r \<le> length s"
proof (induction s arbitrary: n)
  case (Cons c s)
  then show ?case by (cases "c_digit c") (auto intro: le_SucI)
qed simp

lemma strtoul_length: "strtoul s = (n, r) \<Longrightarrow> length r \<le> length s"
proof -
  assume st: "strtoul s = (n, r)"
  let ?s1 = "dropWhile c_space s"
  let ?s2 = "if ?s1 \<noteq> [] \<and> (hd ?s1 = CHR ''-'' \<or> hd ?s1 = CHR ''+'') then tl ?s1 else ?s1"
  have "length ?s1 \<le> length s" by (rule length_dropWhile_le)
  then have le: "length ?s2 \<le> length s" by auto
  show ?thesis
  proof (cases "?s2 = [] \<or> c_digit (hd ?s2) = None")
    case True
    then have "r = s" using st by (auto simp: strtoul_def Let_def split: list.splits if_splits)
    then show ?thesis by simp
  next
    case False
    then have "snd (c_number 0 ?s2) = r"
      using st by (auto simp: strtoul_def Let_def split: list.splits if_splits prod.splits)
    then have "c_number 0 ?s2 = (fst (c_number 0 ?s2), r)" by (metis prod.collapse)
    then have "length r \<le> length ?s2" by (rule c_number_length)
    then show ?thesis using le by (rule order_trans)
  qed
qed

function swoole_version_compare :: "string \<Rightarrow> string \<Rightarrow> int" where
  "swoole_version_compare version1 version2 =
     (let (ver1, tail1) = strtoul version1; (ver2, tail2) = strtoul version2 in
      if ver1 < ver2 then -1
      else if ver1 > ver2 then 1
      else if tail1 = [] \<and> tail2 = [] then 0
      else if tail1 = [] then -1
      else if tail2 = [] then 1
      else swoole_version_compare (tl tail1) (tl tail2))"
  by pat_completeness auto
termination
proof (relation "measure (\<lambda>(a, b). length a)", goal_cases)
  case (2 v1 v2 p n1 t1 q n2 t2)
  then have "length t1 \<le> length v1" by (metis strtoul_length)
  with 2 show ?case by (cases t1) auto
qed simp

declare swoole_version_compare.simps [simp del]

section \<open>Strings\<close>

text \<open>\<open>swoole_rtrim\<close>: from the end to index 1, every blank is replaced; the \<open>break\<close> leaves the switch
  only.\<close>

definition rtrim_blank :: "u8 \<Rightarrow> bool" where
  "rtrim_blank c \<longleftrightarrow> c = 32 \<or> c = 0 \<or> c = 10 \<or> c = 13 \<or> c = 9 \<or> c = 11"

fun swoole_rtrim :: "bytes \<Rightarrow> nat \<Rightarrow> bytes option" where
  "swoole_rtrim str 0 = Some str"
| "swoole_rtrim str (Suc i) = do {
     c \<leftarrow> byte_at str (Suc i);
     swoole_rtrim (if rtrim_blank c then str[Suc i := 0] else str) i }"

text \<open>The three searches. \<open>room\<close> are the iterations left: the bound of \<open>swoole_strnstr\<close> is compared as
  a signed number, that of \<open>swoole_strnpos\<close> as an unsigned one. \<open>hay\<close> is the memory from the start
  of the haystack on, as far as it may be read.\<close>

fun strn_loop :: "bytes \<Rightarrow> bytes \<Rightarrow> nat \<Rightarrow> nat \<Rightarrow> nat option option" where
  "strn_loop hay needle 0 i = Some None"
| "strn_loop hay needle (Suc room) i = do {
     h \<leftarrow> byte_at hay i;
     if h = needle ! 0 then do {
       w \<leftarrow> slice_at hay i (length needle);
       if w = needle then Some (Some i) else strn_loop hay needle room (i + 1) }
     else strn_loop hay needle room (i + 1) }"

definition swoole_strnstr :: "bytes \<Rightarrow> bytes \<Rightarrow> u32 \<Rightarrow> nat option option" where
  "swoole_strnstr hay needle len =
     (if length needle = 0 then None
      else strn_loop hay needle (nat (sint (len - of_nat (length needle) + 1))) 0)"

definition swoole_strnpos :: "bytes \<Rightarrow> u32 \<Rightarrow> bytes \<Rightarrow> int option" where
  "swoole_strnpos hay len needle =
     (if length needle = 0 then None
      else case strn_loop hay needle (unat (len - of_nat (length needle) + 1)) 0 of
        None \<Rightarrow> None
      | Some None \<Rightarrow> Some (-1)
      | Some (Some i) \<Rightarrow> Some (int i))"

fun strrn_loop :: "bytes \<Rightarrow> bytes \<Rightarrow> nat \<Rightarrow> int option" where
  "strrn_loop hay needle 0 = Some (-1)"
| "strrn_loop hay needle (Suc i) = do {
     h \<leftarrow> byte_at hay (Suc i);
     if h = needle ! 0 then do {
       w \<leftarrow> slice_at hay (Suc i) (length needle);
       if w = needle then Some (int (Suc i)) else strrn_loop hay needle i }
     else strrn_loop hay needle i }"

definition swoole_strrnpos :: "bytes \<Rightarrow> bytes \<Rightarrow> u32 \<Rightarrow> int option" where
  "swoole_strrnpos hay needle len =
     (if length needle = 0 then None
      else strrn_loop hay needle (unat (len - of_nat (length needle))))"

section \<open>Read and write loops\<close>

text \<open>The answers of \<open>write\<close> and \<open>read\<close>, in the order of the calls; the loops consume them, and give
  \<open>None\<close> while they still wait for more. An answer never exceeds what was asked for.\<close>

datatype io_answer = Done nat | Interrupted | Again | Failed

primrec swWrite_loop :: "io_answer list \<Rightarrow> bytes \<Rightarrow> nat \<Rightarrow> nat \<Rightarrow> bytes \<Rightarrow> (int \<times> bytes) option" where
  "swWrite_loop [] buf count totlen out = (if totlen = count then Some (int totlen, out) else None)"
| "swWrite_loop (a # ans) buf count totlen out =
     (if totlen = count then Some (int totlen, out)
      else case a of
        Done n \<Rightarrow>
          (if n = 0 then Some (int totlen, out)
           else let k = min n (count - totlen) in
             swWrite_loop ans (drop k buf) count (totlen + k) (out @ take k buf))
      | Interrupted \<Rightarrow> swWrite_loop ans buf count totlen out
      | Again \<Rightarrow> swWrite_loop ans buf count totlen out
      | Failed \<Rightarrow> Some (-1, out))"

definition swWrite :: "io_answer list \<Rightarrow> bytes \<Rightarrow> (int \<times> bytes) option" where
  "swWrite ans buf = swWrite_loop ans buf (length buf) 0 []"

definition SW_FILE_CHUNK_SIZE :: nat where
  "SW_FILE_CHUNK_SIZE = 65536"

fun io_count :: "io_answer \<Rightarrow> nat" where
  "io_count (Done n) = n"
| "io_count _ = 0"

primrec swoole_sync_writefile_loop :: "io_answer list \<Rightarrow> bytes \<Rightarrow> nat \<Rightarrow> bytes \<Rightarrow> (nat \<times> bytes) option" where
  "swoole_sync_writefile_loop [] dat written out = (if dat = [] then Some (written, out) else None)"
| "swoole_sync_writefile_loop (a # ans) dat written out =
     (if dat = [] then Some (written, out)
      else let towrite = min (length dat) SW_FILE_CHUNK_SIZE; k = min (io_count a) towrite in
        if k > 0 then swoole_sync_writefile_loop ans (drop k dat) (written + k) (out @ take k dat)
        else Some (written, out))"

definition swoole_sync_writefile :: "io_answer list \<Rightarrow> bytes \<Rightarrow> (nat \<times> bytes) option" where
  "swoole_sync_writefile ans dat = swoole_sync_writefile_loop ans dat 0 []"

text \<open>\<open>file\<close> is what is left to read.\<close>

primrec swoole_sync_readfile_loop :: "io_answer list \<Rightarrow> bytes \<Rightarrow> nat \<Rightarrow> nat \<Rightarrow> bytes \<Rightarrow> (nat \<times> bytes) option" where
  "swoole_sync_readfile_loop [] file count readn buf = (if count = 0 then Some (readn, buf) else None)"
| "swoole_sync_readfile_loop (a # ans) file count readn buf =
     (if count = 0 then Some (readn, buf)
      else let toread = min count SW_FILE_CHUNK_SIZE; k = min (min (io_count a) toread) (length file) in
        if k > 0 then swoole_sync_readfile_loop ans (drop k file) (count - k) (readn + k) (buf @ take k file)
        else Some (readn, buf))"

definition swoole_sync_readfile :: "io_answer list \<Rightarrow> bytes \<Rightarrow> nat \<Rightarrow> (nat \<times> bytes) option" where
  "swoole_sync_readfile ans file len = swoole_sync_readfile_loop ans file len 0 []"

section \<open>Properties of the numbers\<close>

lemma divisor_loop_gcd: "0 < v \<Longrightarrow> swoole_common_divisor_loop u v = gcd u v"
proof (induction u v rule: swoole_common_divisor_loop.induct)
  case (1 u v)
  show ?case
  proof (cases "u = 0")
    case True
    then show ?thesis by (simp add: swoole_common_divisor_loop.simps)
  next
    case False
    have "gcd (v - u) u = gcd u v" if "u < v" using that gcd_diff1_nat [of u v] by (simp add: gcd.commute)
    moreover have "gcd (u - v) v = gcd u v" if "\<not> u < v" using that gcd_diff1_nat [of v u] by (simp add: gcd.commute)
    ultimately show ?thesis using 1 False by (subst swoole_common_divisor_loop.simps) auto
  qed
qed

lemma multiple_loop_gcd: "0 < n \<Longrightarrow> swoole_common_multiple_loop m n = gcd m n"
proof (induction m n rule: swoole_common_multiple_loop.induct)
  case (1 m n)
  show ?case
  proof (cases "m mod n = 0")
    case True
    then have "n dvd m" by auto
    then have "gcd m n = n" by (simp add: gcd_nat.absorb2)
    with True 1(2) show ?thesis by (subst swoole_common_multiple_loop.simps) simp
  next
    case False
    then show ?thesis using 1 gcd_red_nat [of m n] by (subst swoole_common_multiple_loop.simps) simp
  qed
qed

text \<open>\<open>swoole_common_divisor\<close> returns the greatest common divisor of two positive numbers, and
  \<open>swoole_common_multiple\<close> their least common multiple whenever their product fits 32 bits.\<close>

theorem swoole_divisor_multiple:
  assumes "0 < unat u" and "0 < unat v"
  shows "swoole_common_divisor u v = Some (of_nat (gcd (unat u) (unat v))) \<and>
    (unat u * unat v < 2 ^ 32 \<longrightarrow> swoole_common_multiple u v = Some (of_nat (lcm (unat u) (unat v))))"
proof (intro conjI impI)
  have nz: "u \<noteq> 0" "v \<noteq> 0" using assms by auto
  show "swoole_common_divisor u v = Some (of_nat (gcd (unat u) (unat v)))"
    using nz assms(2) by (simp add: swoole_common_divisor_def divisor_loop_gcd)
  assume fits: "unat u * unat v < 2 ^ 32"
  let ?g = "gcd (unat u) (unat v)"
  have "unat u < 2 ^ 32" using unsigned_less [of u] by simp
  moreover have "?g \<le> unat u" using assms(1) by (intro gcd_le1_nat) simp
  ultimately have g: "?g < 2 ^ 32" by linarith
  have "unat (u * v) = unat u * unat v" using fits by (simp add: unat_word_ariths)
  moreover have "unat (of_nat ?g :: u32) = ?g" using g by (simp add: unat_of_nat)
  ultimately have "unat ((u * v) div of_nat ?g) = lcm (unat u) (unat v)"
    by (simp add: unat_div lcm_nat_def)
  moreover have "(u * v) div of_nat ?g = of_nat (unat ((u * v) div of_nat ?g))" by simp
  ultimately have "(u * v) div of_nat ?g = of_nat (lcm (unat u) (unat v))" by metis
  then show "swoole_common_multiple u v = Some (of_nat (lcm (unat u) (unat v)))"
    using nz assms(2) by (simp add: swoole_common_multiple_def multiple_loop_gcd)
qed

theorem swoole_divisor_multiple_witness:
  "swoole_common_divisor 6 3 = Some 3 \<and> swoole_common_multiple 6 3 = Some 6"
proof -
  have "gcd (6::nat) 3 = 3" by (rule gcd_nat.absorb2) simp
  moreover from this have "lcm (6::nat) 3 = 6" by (simp add: lcm_nat_def)
  ultimately show ?thesis using swoole_divisor_multiple [of 6 3] by simp
qed

section \<open>Properties of the searches\<close>

lemma strn_loop_found:
  assumes "needle \<noteq> []" "i + room + length needle \<le> length hay + 1"
  shows "strn_loop hay needle room i = Some (if \<exists>j. i \<le> j \<and> j < i + room \<and> occurs needle hay j
    then Some (LEAST j. i \<le> j \<and> occurs needle hay j) else None)"
  using assms
proof (induction room arbitrary: i)
  case (Suc room)
  from Suc.prems have len: "i < length hay" "i + length needle \<le> length hay" by (cases needle; simp)+
  show ?case
  proof (cases "occurs needle hay i")
    case True
    then have "hay ! i = needle ! 0" using occurs_first Suc.prems(1) by blast
    moreover have "(LEAST j. i \<le> j \<and> occurs needle hay j) = i" using True by (intro Least_equality) auto
    moreover have "\<exists>j. i \<le> j \<and> j < i + Suc room \<and> occurs needle hay j" using True by auto
    ultimately show ?thesis using True len by (simp add: occurs_def)
  next
    case False
    have step: "strn_loop hay needle (Suc room) i = strn_loop hay needle room (i + 1)"
      using False len by (simp add: occurs_def)
    have eq: "(i \<le> j \<and> occurs needle hay j) = (i + 1 \<le> j \<and> occurs needle hay j)" for j
      using False by (cases "i = j") auto
    have ex: "(\<exists>j. i \<le> j \<and> j < i + Suc room \<and> occurs needle hay j) =
        (\<exists>j. i + 1 \<le> j \<and> j < i + 1 + room \<and> occurs needle hay j)"
      using False by (metis add_Suc_right add_Suc_shift Suc_eq_plus1 Suc_leD le_antisym not_less_eq_eq)
    show ?thesis unfolding step ex eq using Suc.prems by (intro Suc.IH) auto
  qed
qed simp

lemma strnpos_room:
  fixes len :: u32
  assumes "n \<le> unat len" "unat len < 2 ^ 31" "0 < n"
  shows "unat (len - of_nat n + 1) = unat len - n + 1" "nat (sint (len - of_nat n + 1)) = unat len - n + 1"
proof -
  define k where "k = unat len - n + 1"
  have eq: "len - of_nat n + 1 = of_nat k" using assms(1) by (simp add: of_nat_diff k_def)
  have "k < 2 ^ 31" using assms by (simp add: k_def)
  then have "unat (of_nat k :: u32) = k" "sint (of_nat k :: u32) = int k"
    by (simp_all add: unat_of_nat signed_of_nat signed_take_bit_int_eq_self)
  then show "unat (len - of_nat n + 1) = unat len - n + 1" "nat (sint (len - of_nat n + 1)) = unat len - n + 1"
    by (simp_all add: eq k_def)
qed

text \<open>C19. \<open>swoole_strnpos\<close> on a haystack at least as long as the needle reads nothing beyond the haystack
  and returns the first index at which the needle occurs, or \<open>-1\<close> if it does not occur.\<close>

theorem swoole_strnpos_correct:
  assumes "needle \<noteq> []" and "length needle \<le> length hay" and "length hay < 2 ^ 31"
  shows "swoole_strnpos hay (of_nat (length hay)) needle =
    Some (if \<exists>j. occurs needle hay j then int (LEAST j. occurs needle hay j) else -1)"
proof -
  have len: "unat (of_nat (length hay) :: u32) = length hay" using assms(3) by (simp add: unat_of_nat)
  have room: "unat (of_nat (length hay) - of_nat (length needle) + 1 :: u32) = length hay - length needle + 1"
    using strnpos_room(1) [of "length needle" "of_nat (length hay)"] assms len by simp
  have "(\<exists>j. 0 \<le> j \<and> j < 0 + (length hay - length needle + 1) \<and> occurs needle hay j) = (\<exists>j. occurs needle hay j)"
    by (auto simp: occurs_def less_Suc_eq_le le_diff_conv2 [OF assms(2)])
  then show ?thesis
    using strn_loop_found [of needle 0 "length hay - length needle + 1" hay] assms
    by (simp add: swoole_strnpos_def room)
qed

theorem swoole_strnpos_correct_witness:
  "swoole_strnpos [3, 4, 1] 3 [3, 4] = Some 0"
proof -
  have occ: "occurs [3, 4] [3, 4, 1 :: u8] 0" by (simp add: occurs_def)
  then have "(LEAST j. occurs [3, 4] [3, 4, 1 :: u8] j) = 0" by (intro Least_equality) auto
  with occ show ?thesis using swoole_strnpos_correct [of "[3, 4]" "[3, 4, 1]"] by auto
qed

text \<open>When the haystack is at least two bytes shorter than the needle the bound wraps around, and the
  search runs on past the end of the haystack.\<close>

lemma strnpos_short_overrun: "swoole_strnpos [1] 1 [2, 2, 2] = None"
proof -
  have "unat ((1 :: u32) - of_nat (length [2, 2, 2 :: u8]) + 1) = Suc (Suc 4294967293)"
    by (simp add: unsigned_minus_1_eq_mask mask_eq_exp_minus_1)
  then show ?thesis by (simp only: swoole_strnpos_def strn_loop.simps) simp
qed

text \<open>\<open>swoole_strrnpos\<close> returns the last occurrence, but never looks at index 0.\<close>

lemma strrn_loop_found:
  assumes "needle \<noteq> []" "i + length needle \<le> length hay"
  shows "strrn_loop hay needle i = Some (if \<exists>j. 0 < j \<and> j \<le> i \<and> occurs needle hay j
    then int (GREATEST j. j \<le> i \<and> occurs needle hay j) else -1)"
  using assms
proof (induction i)
  case (Suc i)
  from Suc.prems have len: "Suc i < length hay" "Suc i + length needle \<le> length hay" by (cases needle; simp)+
  show ?case
  proof (cases "occurs needle hay (Suc i)")
    case True
    then have "hay ! Suc i = needle ! 0" using occurs_first Suc.prems(1) by blast
    moreover have "(GREATEST j. j \<le> Suc i \<and> occurs needle hay j) = Suc i"
      using True by (intro Greatest_equality) auto
    moreover have "\<exists>j. 0 < j \<and> j \<le> Suc i \<and> occurs needle hay j" using True by auto
    ultimately show ?thesis using True len by (simp add: occurs_def)
  next
    case False
    have step: "strrn_loop hay needle (Suc i) = strrn_loop hay needle i" using False len by (simp add: occurs_def)
    have eq: "(j \<le> Suc i \<and> occurs needle hay j) = (j \<le> i \<and> occurs needle hay j)" for j
      using False by (auto simp: le_Suc_eq)
    show ?thesis unfolding step eq using Suc by simp
  qed
qed simp

lemma strrnpos_misses_start: "swoole_strrnpos [7, 8, 9] [7, 8] 3 = Some (-1)"
  by (simp add: swoole_strrnpos_def occurs_def)

section \<open>Properties of the decimal text\<close>

text \<open>The reader of decimal text: the value of a digit sequence, an optional sign first.\<close>

definition decimal_digits :: "bytes \<Rightarrow> bool" where
  "decimal_digits ds \<longleftrightarrow> ds \<noteq> [] \<and> list_all (\<lambda>c. 48 \<le> unat c \<and> unat c \<le> 57) ds \<and> (hd ds = 48 \<longrightarrow> tl ds = [])"

definition read_digits :: "bytes \<Rightarrow> nat" where
  "read_digits ds = foldr (\<lambda>c a. (unat c - 48) + 10 * a) (rev ds) 0"

definition read_decimal :: "bytes \<Rightarrow> int option" where
  "read_decimal bs =
     (case bs of
        [] \<Rightarrow> None
      | c # ds \<Rightarrow>
          if c = 45 then (if decimal_digits ds then Some (- int (read_digits ds)) else None)
          else if decimal_digits bs then Some (int (read_digits bs)) else None)"

lemma itoa_digits_correct:
  "swoole_itoa_digits nn \<noteq> [] \<and> list_all (\<lambda>c. 48 \<le> unat c \<and> unat c \<le> 57) (swoole_itoa_digits nn) \<and>
   read_digits (rev (swoole_itoa_digits nn)) = unat nn \<and>
   (last (swoole_itoa_digits nn) = 48 \<longrightarrow> nn = 0 \<and> length (swoole_itoa_digits nn) = 1)"
proof (induction nn rule: swoole_itoa_digits.induct)
  case (1 nn)
  let ?c = "of_nat (unat (nn mod 10) + 48) :: u8"
  have m: "unat (nn mod 10) = unat nn mod 10" by (simp add: unat_mod)
  have "(unat nn mod 10 + 48) mod 256 = unat nn mod 10 + 48" by (rule mod_less) linarith
  then have c: "unat ?c = unat nn mod 10 + 48" unfolding m by (simp only: unat_of_nat) simp
  have d: "unat (nn div 10) = unat nn div 10" by (simp add: unat_div)
  show ?case
  proof (cases "nn div 10 = 0")
    case True
    then have small: "unat nn < 10" using d by simp
    have "swoole_itoa_digits nn = [?c]" using True by (subst swoole_itoa_digits.simps) (simp add: Let_def)
    moreover have "nn = 0" if "?c = 48"
    proof -
      have "unat ?c = 48" using that by simp
      then show ?thesis using c small by (simp add: unat_eq_zero)
    qed
    ultimately show ?thesis using c small by (simp add: read_digits_def)
  next
    case False
    have eq: "swoole_itoa_digits nn = ?c # swoole_itoa_digits (nn div 10)"
      using False by (subst swoole_itoa_digits.simps) (simp add: Let_def)
    have ih: "swoole_itoa_digits (nn div 10) \<noteq> []"
      "list_all (\<lambda>c. 48 \<le> unat c \<and> unat c \<le> 57) (swoole_itoa_digits (nn div 10))"
      "read_digits (rev (swoole_itoa_digits (nn div 10))) = unat (nn div 10)"
      "last (swoole_itoa_digits (nn div 10)) \<noteq> 48"
      using 1 False by (simp_all add: Let_def)
    then show ?thesis unfolding eq using c d by (simp add: read_digits_def)
  qed
qed

lemma itoa_reverse_nth:
  "j < length buf \<Longrightarrow> length (swoole_itoa_reverse buf i j) = length buf \<and>
    (\<forall>k<length buf. swoole_itoa_reverse buf i j ! k = (if i \<le> k \<and> k \<le> j then buf ! (i + j - k) else buf ! k))"
proof (induction buf i j rule: swoole_itoa_reverse.induct)
  case (1 buf i j)
  show ?case
  proof (cases "i < j")
    case True
    have eq: "swoole_itoa_reverse buf i j = swoole_itoa_reverse (nth_swap buf i j) (i + 1) (j - 1)"
      using True by (subst swoole_itoa_reverse.simps) simp
    have "j - 1 < length (nth_swap buf i j)" using 1(2) by simp
    note ih = 1(1) [OF True this]
    show ?thesis unfolding eq
    proof (intro conjI allI impI)
      show "length (swoole_itoa_reverse (nth_swap buf i j) (i + 1) (j - 1)) = length buf" using ih by simp
    next
      fix k assume k: "k < length buf"
      have ge: "(if i + 1 \<le> k \<and> k \<le> j - 1 then nth_swap buf i j ! (i + 1 + (j - 1) - k) else nth_swap buf i j ! k) =
          (if i \<le> k \<and> k \<le> j then buf ! (i + j - k) else buf ! k)"
        using True 1(2) by (auto simp: nth_nth_swap)
      show "swoole_itoa_reverse (nth_swap buf i j) (i + 1) (j - 1) ! k =
          (if i \<le> k \<and> k \<le> j then buf ! (i + j - k) else buf ! k)"
        using ih k unfolding ge [symmetric] by simp
    qed
  next
    case False
    then have "swoole_itoa_reverse buf i j = buf" by (subst swoole_itoa_reverse.simps) simp
    moreover have "i + j - k = k" if "i \<le> k" "k \<le> j" for k using that False by simp
    ultimately show ?thesis by simp
  qed
qed

lemma itoa_reverse_rev: "buf \<noteq> [] \<Longrightarrow> swoole_itoa_reverse buf 0 (length buf - 1) = rev buf"
  using itoa_reverse_nth [of "length buf - 1" buf 0] by (intro nth_equalityI) (auto simp: rev_nth)

lemma sign_mask_cases: "signed_drop_bit 63 (v :: u64) = (if sint v < 0 then -1 else 0)"
proof -
  have lo: "- (2 ^ 63) \<le> sint v" and hi: "sint v < 2 ^ 63"
    using sint_greater_eq [of v] sint_less [of v] by simp_all
  have "sint (signed_drop_bit 63 v) = sint v div 2 ^ 63" by (simp add: sint_signed_drop_bit_eq drop_bit_eq_div)
  also have "\<dots> = (if sint v < 0 then -1 else 0)"
    using lo hi by (auto intro!: div_pos_pos_trivial int_div_pos_eq [where r = "sint v + 2 ^ 63"])
  also have "\<dots> = sint (if sint v < 0 then -1 else 0 :: u64)" by simp
  finally show ?thesis by (rule signed_word_eqI)
qed

lemma unat_minus_sint: "sint (v :: u64) < 0 \<Longrightarrow> int (unat (- v)) = - sint v"
proof -
  assume neg: "sint v < 0"
  have lo: "- (2 ^ 63) \<le> sint v" using sint_greater_eq [of v] by simp
  have "uint (word_of_int (- sint v) :: u64) = (- sint v) mod 2 ^ 64"
    by (simp only: uint_word_of_int take_bit_eq_mod) simp
  moreover have "(word_of_int (- sint v) :: u64) = - v" by simp
  ultimately have "uint (- v) = (- sint v) mod 2 ^ 64" by metis
  also have "\<dots> = - sint v" using neg lo by (intro mod_pos_pos_trivial) auto
  finally show ?thesis by simp
qed

lemma unat_sint: "\<not> sint (v :: u64) < 0 \<Longrightarrow> int (unat v) = sint v"
proof -
  assume pos: "\<not> sint v < 0"
  have hi: "sint v < 2 ^ 63" using sint_less [of v] by simp
  have "uint (word_of_int (sint v) :: u64) = sint v mod 2 ^ 64"
    by (simp only: uint_word_of_int take_bit_eq_mod) simp
  then have "uint v = sint v mod 2 ^ 64" by simp
  also have "\<dots> = sint v" using pos hi by (intro mod_pos_pos_trivial) auto
  finally show ?thesis by simp
qed

lemma itoa_text:
  "swoole_itoa v = (if sint v < 0 then 45 # rev (swoole_itoa_digits (- v)) else rev (swoole_itoa_digits v))"
proof -
  have ne: "swoole_itoa_digits nn \<noteq> []" for nn using itoa_digits_correct [of nn] by simp
  show ?thesis
    using ne itoa_reverse_rev [of "swoole_itoa_digits v"] itoa_reverse_rev [of "swoole_itoa_digits (- v) @ [45]"]
      minus_eq_not_minus_1 [of v]
    by (auto simp: swoole_itoa_def sign_mask_cases Let_def)
qed

lemma itoa_reads: "read_decimal (swoole_itoa v) = Some (sint v)"
proof -
  have dec: "decimal_digits (rev (swoole_itoa_digits nn))" for nn
    unfolding decimal_digits_def using itoa_digits_correct [of nn] by (cases "swoole_itoa_digits nn" rule: rev_cases) auto
  have hd: "hd (rev (swoole_itoa_digits nn)) \<noteq> 45" for nn
  proof -
    have "hd (rev (swoole_itoa_digits nn)) \<in> set (swoole_itoa_digits nn)" using itoa_digits_correct [of nn] by (simp add: hd_rev)
    then have "48 \<le> unat (hd (rev (swoole_itoa_digits nn)))" using itoa_digits_correct [of nn] by (auto simp: list_all_iff)
    then show ?thesis by auto
  qed
  show ?thesis
  proof (cases "sint v < 0")
    case True
    then show ?thesis using dec itoa_digits_correct [of "- v"] unat_minus_sint [of v]
      by (simp add: itoa_text read_decimal_def)
  next
    case False
    then show ?thesis using dec [of v] itoa_digits_correct [of v] hd [of v] unat_sint [of v]
      by (cases "rev (swoole_itoa_digits v)") (auto simp: itoa_text read_decimal_def)
  qed
qed

text \<open>C18. \<open>swoole_itoa\<close> prints the decimal text of every 64-bit number, the smallest one included: reading
  the text back gives the number, and it has no leading zeros.\<close>

theorem swoole_itoa_roundtrip: "read_decimal (swoole_itoa v) = Some (sint v)"
  by (rule itoa_reads)

section \<open>Properties of the version order\<close>

text \<open>The reference: a version is the sequence of its numbers, and versions are ordered
  lexicographically.\<close>

function version_parts :: "string \<Rightarrow> nat list" where
  "version_parts v = fst (strtoul v) # (if snd (strtoul v) = [] then [] else version_parts (tl (snd (strtoul v))))"
  by pat_completeness auto
termination
proof (relation "measure length", goal_cases)
  case (2 v)
  have "length (snd (strtoul v)) \<le> length v" by (rule strtoul_length [of v "fst (strtoul v)"]) simp
  with 2 show ?case by (cases "snd (strtoul v)") auto
qed simp

declare version_parts.simps [simp del]

text \<open>C20. \<open>swoole_version_compare\<close> terminates on every pair of strings and is the comparison of the two
  number sequences in lexicographic order; so it is a total preorder on versions.\<close>

theorem swoole_version_compare_lexicographic:
  "swoole_version_compare v w =
    (if version_parts v = version_parts w then 0 else if version_parts v < version_parts w then -1 else 1)"
proof (induction v w rule: swoole_version_compare.induct)
  case (1 v w)
  obtain n s where v: "strtoul v = (n, s)" by fastforce
  obtain m t where w: "strtoul w = (m, t)" by fastforce
  have pv: "version_parts v = n # (if s = [] then [] else version_parts (tl s))"
    using v by (subst version_parts.simps) simp
  have pw: "version_parts w = m # (if t = [] then [] else version_parts (tl t))"
    using w by (subst version_parts.simps) simp
  have ne: "version_parts x \<noteq> []" "[] \<noteq> version_parts x" for x by (subst version_parts.simps, simp)+
  then have pos: "[] < version_parts x" for x by (metis Nil_less_Cons neq_Nil_conv ne(1))
  have ih: "swoole_version_compare (tl s) (tl t) = (if version_parts (tl s) = version_parts (tl t) then 0
      else if version_parts (tl s) < version_parts (tl t) then -1 else 1)"
    if "n = m" "s \<noteq> []" "t \<noteq> []" using 1 [OF v [symmetric] refl w [symmetric] refl] that by simp
  have step: "swoole_version_compare v w =
      (if n < m then -1 else if n > m then 1 else if s = [] \<and> t = [] then 0 else if s = [] then -1
       else if t = [] then 1 else swoole_version_compare (tl s) (tl t))"
    using v w by (subst swoole_version_compare.simps) simp
  show ?case unfolding step pv pw using ih ne pos by (auto simp: not_less)
qed

section \<open>Properties of the read and write loops\<close>

lemma swWrite_loop_prefix:
  "length buf + totlen = count \<Longrightarrow> length out = totlen \<Longrightarrow> swWrite_loop ans buf count totlen out = Some (r, out') \<Longrightarrow>
    (\<exists>k\<le>length buf. out' = out @ take k buf) \<and> (r = int (length out') \<or> r = -1)"
proof (induction ans arbitrary: buf totlen out)
  case (Cons a ans)
  show ?case
  proof (cases "totlen = count")
    case False
    show ?thesis
    proof (cases a)
      case (Done n)
      define k where "k = min n (count - totlen)"
      show ?thesis
      proof (cases "n = 0")
        case False
        have k: "k \<le> length buf" using Cons.prems by (simp add: k_def)
        have "swWrite_loop ans (drop k buf) count (totlen + k) (out @ take k buf) = Some (r, out')"
          using Cons.prems \<open>totlen \<noteq> count\<close> Done False by (simp add: k_def Let_def)
        then obtain i where i: "i \<le> length (drop k buf)" "out' = (out @ take k buf) @ take i (drop k buf)"
          and r: "r = int (length out') \<or> r = -1"
          using Cons.IH [of "drop k buf" "totlen + k" "out @ take k buf"] Cons.prems k by auto
        have "out' = out @ take (k + i) buf" using i by (simp add: take_add)
        moreover have "k + i \<le> length buf" using i k by simp
        ultimately show ?thesis using r by blast
      qed (use Cons.prems Done \<open>totlen \<noteq> count\<close> in \<open>auto intro: exI [of _ 0]\<close>)
    qed (use Cons.prems Cons.IH [of buf totlen out] False in \<open>auto intro: exI [of _ 0]\<close>)
  qed (use Cons.prems in \<open>auto intro: exI [of _ 0]\<close>)
qed (auto split: if_splits intro: exI [of _ 0])

lemma swWrite_loop_complete:
  "length buf + totlen = count \<Longrightarrow> length buf \<le> sum_list (map io_count ans) \<Longrightarrow>
    Failed \<notin> set ans \<Longrightarrow> Done 0 \<notin> set ans \<Longrightarrow> swWrite_loop ans buf count totlen out = Some (int count, out @ buf)"
proof (induction ans arbitrary: buf totlen out)
  case (Cons a ans)
  show ?case
  proof (cases "totlen = count")
    case False
    show ?thesis
    proof (cases a)
      case (Done n)
      define k where "k = min n (count - totlen)"
      have "swWrite_loop ans (drop k buf) count (totlen + k) (out @ take k buf) =
          Some (int count, (out @ take k buf) @ drop k buf)"
        using Cons.prems Done by (intro Cons.IH) (auto simp: k_def)
      then show ?thesis using False Done Cons.prems by (auto simp: k_def Let_def)
    qed (use Cons False in auto)
  qed (use Cons.prems in auto)
qed simp

text \<open>C21. Whatever \<open>write\<close> answers, \<open>swWrite\<close> has written a prefix of the buffer, each byte once and in
  order, and returns its length, or \<open>-1\<close> after a failed call; when no call fails or writes nothing and
  the calls take all bytes, it has written the whole buffer.\<close>

theorem swWrite_correct:
  "(swWrite ans buf = Some (r, out) \<longrightarrow>
     (\<exists>k\<le>length buf. out = take k buf) \<and> (r = int (length out) \<or> r = -1)) \<and>
   (length buf \<le> sum_list (map io_count ans) \<longrightarrow> Failed \<notin> set ans \<longrightarrow> Done 0 \<notin> set ans \<longrightarrow>
     swWrite ans buf = Some (int (length buf), buf))"
proof (intro conjI impI)
  assume "swWrite ans buf = Some (r, out)"
  then show "\<exists>k\<le>length buf. out = take k buf" "r = int (length out) \<or> r = -1"
    using swWrite_loop_prefix [of buf 0 "length buf" "[]" ans r out] by (simp_all add: swWrite_def)
qed (simp add: swWrite_def swWrite_loop_complete)

theorem swWrite_correct_witness:
  "swWrite [Done 1, Interrupted, Done 5] [7, 8, 9] = Some (3, [7, 8, 9]) \<and>
   (\<exists>k\<le>length [7, 8, 9 :: u8]. [7, 8, 9 :: u8] = take k [7, 8, 9])"
  using swWrite_correct [of "[Done 1, Interrupted, Done 5]" "[7, 8, 9]" 3 "[7, 8, 9]"] by simp

text \<open>The two file loops transfer everything in chunks when no call transfers nothing.\<close>

lemma sync_writefile_complete:
  "\<forall>a\<in>set ans. 0 < io_count a \<Longrightarrow> length dat \<le> length ans \<Longrightarrow>
    swoole_sync_writefile_loop ans dat written out = Some (written + length dat, out @ dat)"
proof (induction ans arbitrary: dat written out)
  case (Cons a ans)
  define k where "k = min (io_count a) (min (length dat) SW_FILE_CHUNK_SIZE)"
  show ?case
  proof (cases "dat = []")
    case False
    then have k: "0 < k" "k \<le> length dat" using Cons.prems by (auto simp: k_def SW_FILE_CHUNK_SIZE_def)
    have "swoole_sync_writefile_loop ans (drop k dat) (written + k) (out @ take k dat) =
        Some (written + k + length (drop k dat), (out @ take k dat) @ drop k dat)"
      using Cons.prems k by (intro Cons.IH) auto
    then have "swoole_sync_writefile_loop ans (drop k dat) (written + k) (out @ take k dat) =
        Some (written + length dat, out @ dat)" using k by simp
    moreover have "swoole_sync_writefile_loop (a # ans) dat written out =
        swoole_sync_writefile_loop ans (drop k dat) (written + k) (out @ take k dat)"
      using False k(1) unfolding k_def swoole_sync_writefile_loop.simps Let_def by (simp only: if_True if_False)
    ultimately show ?thesis by simp
  qed simp
qed simp

lemma sync_readfile_complete:
  "\<forall>a\<in>set ans. 0 < io_count a \<Longrightarrow> n \<le> length ans \<Longrightarrow> n \<le> length rest \<Longrightarrow>
    swoole_sync_readfile_loop ans rest n readn buf = Some (readn + n, buf @ take n rest)"
proof (induction ans arbitrary: rest n readn buf)
  case (Cons a ans)
  define k where "k = min (min (io_count a) (min n SW_FILE_CHUNK_SIZE)) (length rest)"
  show ?case
  proof (cases "n = 0")
    case False
    then have k: "0 < k" "k \<le> n" "k \<le> length rest" using Cons.prems by (auto simp: k_def SW_FILE_CHUNK_SIZE_def)
    have "swoole_sync_readfile_loop ans (drop k rest) (n - k) (readn + k) (buf @ take k rest) =
        Some (readn + k + (n - k), (buf @ take k rest) @ take (n - k) (drop k rest))"
      using Cons.prems k by (intro Cons.IH) auto
    moreover have "take k rest @ take (n - k) (drop k rest) = take n rest"
      using k by (metis le_add_diff_inverse take_add)
    moreover have "swoole_sync_readfile_loop (a # ans) rest n readn buf =
        swoole_sync_readfile_loop ans (drop k rest) (n - k) (readn + k) (buf @ take k rest)"
      using False k(1) unfolding k_def swoole_sync_readfile_loop.simps Let_def by (simp only: if_True if_False)
    ultimately show ?thesis using k by simp
  qed simp
qed simp

section \<open>Properties of the other utilities\<close>

text \<open>\<open>swoole_rtrim\<close> blanks every white-space byte after the first one, not only the trailing ones.\<close>

lemma swoole_rtrim_all:
  "i < length str \<Longrightarrow> swoole_rtrim str i =
    Some (map (\<lambda>k. if 0 < k \<and> k \<le> i \<and> rtrim_blank (str ! k) then 0 else str ! k) [0..<length str])"
proof (induction i arbitrary: str)
  case 0
  have "map (\<lambda>k. if 0 < k \<and> k \<le> 0 \<and> rtrim_blank (str ! k) then 0 else str ! k) [0..<length str] = map ((!) str) [0..<length str]"
    by (rule map_cong) auto
  then show ?case by (simp add: map_nth)
next
  case (Suc i)
  let ?s = "if rtrim_blank (str ! Suc i) then str[Suc i := 0] else str"
  have "swoole_rtrim str (Suc i) = swoole_rtrim ?s i" using Suc.prems by simp
  also have "\<dots> = Some (map (\<lambda>k. if 0 < k \<and> k \<le> i \<and> rtrim_blank (?s ! k) then 0 else ?s ! k) [0..<length str])"
    using Suc by simp
  also have "\<dots> = Some (map (\<lambda>k. if 0 < k \<and> k \<le> Suc i \<and> rtrim_blank (str ! k) then 0 else str ! k) [0..<length str])"
    using Suc.prems by (auto simp: nth_list_update le_Suc_eq)
  finally show ?case .
qed

text \<open>An already aligned size grows by a whole page.\<close>

lemma size_align_multiple: "0 < p \<Longrightarrow> p dvd swoole_size_align n p \<and> n < swoole_size_align n p"
proof -
  assume p: "0 < p"
  have "n + (p - n mod p) = p * (n div p) + p"
    using mod_less_divisor [OF p, of n] mult_div_mod_eq [of p n] by linarith
  then have "p dvd swoole_size_align n p" by (simp add: swoole_size_align_def)
  with p show ?thesis using mod_less_divisor [OF p, of n] by (simp add: swoole_size_align_def)
qed

lemma seq_no_range:
  assumes "cur < 0x7fffffffffffffff"
  shows "0 < swoole_get_seq_no cur \<and> swoole_get_seq_no cur < 0x7fffffffffffffff"
proof -
  have "unat (cur + 1) = unat cur + 1" using assms by (simp add: word_less_nat_alt unat_word_ariths)
  then have "0 < cur + 1" by (simp add: word_less_nat_alt)
  then show ?thesis by (auto simp: swoole_get_seq_no_def)
qed

end
