(* ===== verification/Sw_List.thy ===== *)
theory Sw_List
  imports Sw_Interfaces Sw_Dll
begin

text \<open>
  The doubly linked list (\<open>src/core/list.c\<close>, \<open>swLinkedList\<close> of \<open>include/swoole.h\<close>). The nodes live in a
  store; freeing a node removes it, so that a later access to it has the value \<open>None\<close>. The
  allocator's answer is an argument. The destructor is called on the data of every node when the
  list is freed; the model returns these data in the order of the calls.
\<close>

section \<open>The structure and its operations\<close>

record ll_node =
  ln_prev :: ptr
  ln_next :: ptr
  ln_priority :: u64
  ln_data :: ptr

record linked_list =
  ll_num :: u32
  ll_type :: u8
  ll_head :: ptr
  ll_tail :: ptr
  ll_dtor :: bool
  ll_mem :: "ptr \<rightharpoonup> ll_node"

definition swLinkedList_new :: "bool \<Rightarrow> u8 \<Rightarrow> bool \<Rightarrow> linked_list option" where
  "swLinkedList_new malloc_ok type dtor =
     (if \<not> malloc_ok then None
      else Some \<lparr>ll_num = 0, ll_type = type, ll_head = NULL, ll_tail = NULL, ll_dtor = dtor, ll_mem = Map.empty\<rparr>)"

text \<open>A new node has arbitrary links and priority until they are written.\<close>

definition swLinkedList_append :: "ptr option \<times> ll_node \<Rightarrow> linked_list \<Rightarrow> ptr \<Rightarrow> (int \<times> linked_list) option" where
  "swLinkedList_append ans ll d =
     (case ans of
        (None, _) \<Rightarrow> Some (SW_ERR, ll)
      | (Some node, raw) \<Rightarrow>
          let v = raw\<lparr>ln_data := d, ln_next := NULL\<rparr>; n = ll_num ll + 1 in
          if ll_tail ll \<noteq> NULL then do {
            m \<leftarrow> mod_at (ll_tail ll) (\<lambda>t. t\<lparr>ln_next := node\<rparr>) (ll_mem ll);
            Some (SW_OK, ll\<lparr>ll_num := n, ll_mem := m(node \<mapsto> v\<lparr>ln_prev := ll_tail ll\<rparr>), ll_tail := node\<rparr>) }
          else
            Some (SW_OK, ll\<lparr>ll_num := n, ll_mem := (ll_mem ll)(node \<mapsto> v\<lparr>ln_next := NULL, ln_prev := NULL\<rparr>),
              ll_head := node, ll_tail := node\<rparr>))"

definition swLinkedList_prepend :: "ptr option \<times> ll_node \<Rightarrow> linked_list \<Rightarrow> ptr \<Rightarrow> (int \<times> linked_list) option" where
  "swLinkedList_prepend ans ll d =
     (case ans of
        (None, _) \<Rightarrow> Some (SW_ERR, ll)
      | (Some node, raw) \<Rightarrow>
          let v = raw\<lparr>ln_data := d, ln_prev := NULL\<rparr>; n = ll_num ll + 1 in
          if ll_head ll \<noteq> NULL then do {
            m \<leftarrow> mod_at (ll_head ll) (\<lambda>h. h\<lparr>ln_prev := node\<rparr>) (ll_mem ll);
            Some (SW_OK, ll\<lparr>ll_num := n, ll_mem := m(node \<mapsto> v\<lparr>ln_next := ll_head ll\<rparr>), ll_head := node\<rparr>) }
          else
            Some (SW_OK, ll\<lparr>ll_num := n, ll_mem := (ll_mem ll)(node \<mapsto> v\<lparr>ln_next := NULL, ln_prev := NULL\<rparr>),
              ll_head := node, ll_tail := node\<rparr>))"

definition swLinkedList_pop :: "linked_list \<Rightarrow> (ptr \<times> linked_list) option" where
  "swLinkedList_pop ll =
     (if ll_tail ll = NULL then Some (NULL, ll)
      else do {
        let node = ll_tail ll;
        ll \<leftarrow> (if node = ll_head ll then Some (ll\<lparr>ll_head := NULL, ll_tail := NULL\<rparr>)
               else do {
                 t \<leftarrow> ll_mem ll node;
                 m \<leftarrow> mod_at (ln_prev t) (\<lambda>v. v\<lparr>ln_next := NULL\<rparr>) (ll_mem ll);
                 Some (ll\<lparr>ll_mem := m, ll_tail := ln_prev t\<rparr>) });
        v \<leftarrow> ll_mem ll node;
        Some (ln_data v, ll\<lparr>ll_num := ll_num ll - 1, ll_mem := (ll_mem ll)(node := None)\<rparr>) })"

definition swLinkedList_remove_node :: "linked_list \<Rightarrow> ptr \<Rightarrow> linked_list option" where
  "swLinkedList_remove_node ll rm = do {
     v \<leftarrow> ll_mem ll rm;
     let (prv, nxt) = (ln_prev v, ln_next v);
     ll \<leftarrow> (if rm = ll_head ll then
              (if nxt = NULL then Some (ll\<lparr>ll_head := nxt, ll_tail := NULL\<rparr>)
               else do {
                 m \<leftarrow> mod_at nxt (\<lambda>v. v\<lparr>ln_prev := NULL\<rparr>) (ll_mem ll);
                 Some (ll\<lparr>ll_head := nxt, ll_mem := m\<rparr>) })
            else if rm = ll_tail ll then
              (if prv = NULL then Some (ll\<lparr>ll_tail := prv, ll_head := NULL\<rparr>)
               else do {
                 m \<leftarrow> mod_at prv (\<lambda>v. v\<lparr>ln_next := NULL\<rparr>) (ll_mem ll);
                 Some (ll\<lparr>ll_tail := prv, ll_mem := m\<rparr>) })
            else do {
              m \<leftarrow> mod_at nxt (\<lambda>v. v\<lparr>ln_prev := prv\<rparr>) (ll_mem ll);
              m \<leftarrow> mod_at prv (\<lambda>v. v\<lparr>ln_next := nxt\<rparr>) m;
              Some (ll\<lparr>ll_mem := m\<rparr>) });
     Some (ll\<lparr>ll_num := ll_num ll - 1, ll_mem := (ll_mem ll)(rm := None)\<rparr>) }"

definition swLinkedList_shift :: "linked_list \<Rightarrow> (ptr \<times> linked_list) option" where
  "swLinkedList_shift ll =
     (if ll_head ll = NULL then Some (NULL, ll)
      else do {
        let node = ll_head ll;
        ll \<leftarrow> (if node = ll_tail ll then Some (ll\<lparr>ll_head := NULL, ll_tail := NULL\<rparr>)
               else do {
                 h \<leftarrow> ll_mem ll node;
                 m \<leftarrow> mod_at (ln_next h) (\<lambda>v. v\<lparr>ln_prev := NULL\<rparr>) (ll_mem ll);
                 Some (ll\<lparr>ll_mem := m, ll_head := ln_next h\<rparr>) });
        v \<leftarrow> ll_mem ll node;
        Some (ln_data v, ll\<lparr>ll_num := ll_num ll - 1, ll_mem := (ll_mem ll)(node := None)\<rparr>) })"

text \<open>The loop of \<open>swLinkedList_free\<close> runs at least once, so it reads through the head of an empty list.
  The iterations are bounded by \<open>fuel\<close>.\<close>

fun swLinkedList_free_loop :: "nat \<Rightarrow> (ptr \<rightharpoonup> ll_node) \<Rightarrow> bool \<Rightarrow> ptr \<Rightarrow> (ptr list \<times> (ptr \<rightharpoonup> ll_node)) option" where
  "swLinkedList_free_loop 0 m dtor node = None"
| "swLinkedList_free_loop (Suc fuel) m dtor node = do {
     v \<leftarrow> m node;
     let calls = (if dtor then [ln_data v] else []);
     let m = m(node := None);
     if ln_next v \<noteq> NULL then do {
       (rest, m) \<leftarrow> swLinkedList_free_loop fuel m dtor (ln_next v);
       Some (calls @ rest, m) }
     else Some (calls, m) }"

definition swLinkedList_free :: "nat \<Rightarrow> linked_list \<Rightarrow> (ptr list \<times> (ptr \<rightharpoonup> ll_node)) option" where
  "swLinkedList_free fuel ll = swLinkedList_free_loop fuel (ll_mem ll) (ll_dtor ll) (ll_head ll)"

section \<open>Representation\<close>

abbreviation ll_nx :: "(ptr \<rightharpoonup> ll_node) \<Rightarrow> ptr \<Rightarrow> ptr" where "ll_nx m x \<equiv> ln_next (the (m x))"
abbreviation ll_pv :: "(ptr \<rightharpoonup> ll_node) \<Rightarrow> ptr \<Rightarrow> ptr" where "ll_pv m x \<equiv> ln_prev (the (m x))"
abbreviation ll_dt :: "(ptr \<rightharpoonup> ll_node) \<Rightarrow> ptr \<Rightarrow> ptr" where "ll_dt m x \<equiv> ln_data (the (m x))"

definition ll_rep :: "linked_list \<Rightarrow> ptr list \<Rightarrow> bool" where
  "ll_rep ll ps \<longleftrightarrow> dlist (ll_nx (ll_mem ll)) (ll_pv (ll_mem ll)) ps \<and> dom (ll_mem ll) = set ps \<and>
     ll_head ll = hd (ps @ [NULL]) \<and> ll_tail ll = last (NULL # ps) \<and> ll_num ll = of_nat (length ps)"

definition ll_values :: "linked_list \<Rightarrow> ptr list \<Rightarrow> ptr list" where
  "ll_values ll ps = map (ll_dt (ll_mem ll)) ps"

lemma ll_rep_unique: "ll_rep ll ps \<Longrightarrow> ll_rep ll qs \<Longrightarrow> ps = qs"
proof -
  have "dseg n p a ps b \<Longrightarrow> dseg n p a' qs b \<Longrightarrow> hd (ps @ [b]) = hd (qs @ [b]) \<Longrightarrow> b = NULL \<Longrightarrow> ps = qs" for n p a a' b
  proof (induction ps arbitrary: qs a a')
    case Nil
    then show ?case by (cases qs) auto
  next
    case (Cons x xs)
    then show ?case by (cases qs) auto
  qed
  then show "ll_rep ll ps \<Longrightarrow> ll_rep ll qs \<Longrightarrow> ps = qs" unfolding ll_rep_def dlist_def by metis
qed

lemma ll_rep_facts:
  assumes "ll_rep ll ps"
  shows "dom (ll_mem ll) = set ps" "NULL \<notin> set ps" "distinct ps"
    "(ll_head ll = NULL) = (ps = [])" "(ll_tail ll = NULL) = (ps = [])"
    "ps \<noteq> [] \<Longrightarrow> ll_head ll = hd ps" "ps \<noteq> [] \<Longrightarrow> ll_tail ll = last ps"
proof -
  show nn: "NULL \<notin> set ps" and "distinct ps"
    using assms by (auto simp: ll_rep_def dest: dlist_not_null dlist_distinct)
  show "(ll_head ll = NULL) = (ps = [])" using assms nn by (cases ps) (auto simp: ll_rep_def)
  show "(ll_tail ll = NULL) = (ps = [])" using assms nn by (cases ps rule: rev_cases) (auto simp: ll_rep_def)
qed (use assms in \<open>auto simp: ll_rep_def\<close>)

lemma ll_new_rep: "\<exists>ll. swLinkedList_new True ty d = Some ll \<and> ll_rep ll []"
  by (simp add: swLinkedList_new_def ll_rep_def)

section \<open>Removing a node\<close>

text \<open>What the three branches of \<open>swLinkedList_remove_node\<close> have in common: the neighbours of the node are
  linked to each other, everything else stays.\<close>

lemma ll_unlink_rep:
  assumes rep: "ll_rep ll (as @ x # bs)" and dom: "dom (ll_mem ll') = set as \<union> set bs"
    and nx: "\<And>y. y \<in> set as \<union> set bs \<Longrightarrow>
      ll_nx (ll_mem ll') y = (if as \<noteq> [] \<and> y = last as then hd (bs @ [NULL]) else ll_nx (ll_mem ll) y)"
    and pv: "\<And>y. y \<in> set as \<union> set bs \<Longrightarrow>
      ll_pv (ll_mem ll') y = (if bs \<noteq> [] \<and> y = hd bs then last (NULL # as) else ll_pv (ll_mem ll) y)"
    and ends: "ll_head ll' = hd ((as @ bs) @ [NULL])" "ll_tail ll' = last (NULL # as @ bs)" "ll_num ll' = ll_num ll - 1"
  shows "ll_rep ll' (as @ bs)"
proof -
  have "dlist (ll_nx (ll_mem ll)) (ll_pv (ll_mem ll)) (as @ x # bs)" using rep by (simp add: ll_rep_def)
  then have "dlist (ll_nx (ll_mem ll')) (ll_pv (ll_mem ll')) (as @ bs)"
    by (rule dlist_remove) (use nx pv in auto)
  moreover have "ll_num ll' = of_nat (length (as @ bs))" using rep ends(3) by (simp add: ll_rep_def)
  ultimately show ?thesis using dom ends(1,2) by (simp add: ll_rep_def)
qed

lemma swLinkedList_remove_node_rep:
  assumes rep: "ll_rep ll (as @ x # bs)"
  shows "\<exists>ll'. swLinkedList_remove_node ll x = Some ll' \<and> ll_rep ll' (as @ bs) \<and>
    (\<forall>y\<in>set as \<union> set bs. ll_dt (ll_mem ll') y = ll_dt (ll_mem ll) y)"
proof -
  let ?m = "ll_mem ll"
  note facts = ll_rep_facts [OF rep]
  have dl: "dlist (ll_nx ?m) (ll_pv ?m) (as @ x # bs)" using rep by (simp add: ll_rep_def)
  note at = dlist_at [OF dl]
  have "x \<in> dom ?m" using facts(1) by simp
  then obtain v where mx: "?m x = Some v" by auto
  have dist: "distinct (as @ x # bs)" "NULL \<notin> set as" "NULL \<notin> set bs" using facts(2,3) by auto
  define m1 where "m1 = (if bs = [] then ?m else wr (hd bs) (\<lambda>v. v\<lparr>ln_prev := last (NULL # as)\<rparr>) ?m)"
  define m2 where "m2 = (if as = [] then m1 else wr (last as) (\<lambda>v. v\<lparr>ln_next := hd (bs @ [NULL])\<rparr>) m1)"
  define ll' where "ll' = ll\<lparr>ll_head := hd ((as @ bs) @ [NULL]), ll_tail := last (NULL # as @ bs),
    ll_num := ll_num ll - 1, ll_mem := m2(x := None)\<rparr>"
  have in_dom: "bs \<noteq> [] \<Longrightarrow> hd bs \<in> dom ?m" "as \<noteq> [] \<Longrightarrow> last as \<in> dom ?m" using facts(1) by auto
  have head: "(x = ll_head ll) = (as = [])" using facts(6) dist by (cases as) auto
  have tail: "(x = ll_tail ll) = (bs = [])" using facts(7) dist by (cases bs rule: rev_cases) auto
  have keep: "as \<noteq> [] \<Longrightarrow> ll_head ll = hd as" "bs \<noteq> [] \<Longrightarrow> ll_tail ll = last bs" using facts(6,7) by auto
  have run: "swLinkedList_remove_node ll x = Some ll'"
  proof (cases "as = []"; cases "bs = []")
    assume "as = []" "bs = []"
    then show ?thesis using head mx at(2,3) by (simp add: swLinkedList_remove_node_def ll'_def m1_def m2_def)
  next
    assume a: "as = []" "bs \<noteq> []"
    then have "hd bs \<noteq> NULL" using dist by (metis hd_in_set)
    then show ?thesis using a head mx at(2,3) in_dom keep
      by (simp add: swLinkedList_remove_node_def ll'_def m1_def m2_def)
  next
    assume a: "as \<noteq> []" "bs = []"
    then have "last as \<noteq> NULL" using dist by (metis last_in_set)
    then show ?thesis using a head tail mx at(2,3) in_dom keep
      by (simp add: swLinkedList_remove_node_def ll'_def m1_def m2_def)
  next
    assume a: "as \<noteq> []" "bs \<noteq> []"
    then show ?thesis using head tail mx at(2,3) in_dom keep
      by (simp add: swLinkedList_remove_node_def ll'_def m1_def m2_def)
  qed
  have m2: "dom m2 = dom ?m"
    "ll_nx m2 y = (if as \<noteq> [] \<and> y = last as then hd (bs @ [NULL]) else ll_nx ?m y)"
    "ll_pv m2 y = (if bs \<noteq> [] \<and> y = hd bs then last (NULL # as) else ll_pv ?m y)"
    "ll_dt m2 y = ll_dt ?m y" for y
    using in_dom by (auto simp: m1_def m2_def the_wr insert_absorb)
  have ne: "y \<noteq> x" if "y \<in> set as \<union> set bs" for y using that dist by auto
  have "ll_rep ll' (as @ bs)"
    by (rule ll_unlink_rep [OF rep]) (use m2 ne facts(1) dist in \<open>auto simp: ll'_def\<close>)
  moreover have "\<forall>y\<in>set as \<union> set bs. ll_dt (ll_mem ll') y = ll_dt ?m y" using m2(4) ne by (simp add: ll'_def)
  ultimately show ?thesis using run by blast
qed

text \<open>Taking the first or the last node off is removing it.\<close>

lemma swLinkedList_shift_remove:
  assumes "ll_rep ll (x # ps)"
  shows "swLinkedList_shift ll = map_option (\<lambda>ll'. (ll_dt (ll_mem ll) x, ll')) (swLinkedList_remove_node ll x)"
proof -
  note facts = ll_rep_facts [OF assms]
  have dl: "dlist (ll_nx (ll_mem ll)) (ll_pv (ll_mem ll)) ([] @ x # ps)" using assms by (simp add: ll_rep_def)
  note at = dlist_at [OF dl]
  have "x \<in> dom (ll_mem ll)" using facts(1) by simp
  then obtain v where mx: "ll_mem ll x = Some v" by auto
  show ?thesis
  proof (cases "ps = []")
    case True
    with facts(4-7) at mx show ?thesis
      by (simp add: swLinkedList_shift_def swLinkedList_remove_node_def)
  next
    case False
    then have "hd ps \<noteq> x" "hd ps \<noteq> NULL" "hd ps \<in> dom (ll_mem ll)" "ll_tail ll \<noteq> x"
      using facts(1,2,3,7) by (cases ps; auto)+
    with False facts(4-6) at mx show ?thesis
      by (simp add: swLinkedList_shift_def swLinkedList_remove_node_def wr_def)
  qed
qed

lemma swLinkedList_pop_remove:
  assumes "ll_rep ll (ps @ [x])"
  shows "swLinkedList_pop ll = map_option (\<lambda>ll'. (ll_dt (ll_mem ll) x, ll')) (swLinkedList_remove_node ll x)"
proof -
  note facts = ll_rep_facts [OF assms]
  have dl: "dlist (ll_nx (ll_mem ll)) (ll_pv (ll_mem ll)) (ps @ x # [])" using assms by (simp add: ll_rep_def)
  note at = dlist_at [OF dl]
  have "x \<in> dom (ll_mem ll)" using facts(1) by simp
  then obtain v where mx: "ll_mem ll x = Some v" by auto
  show ?thesis
  proof (cases "ps = []")
    case True
    with facts(4-7) at mx show ?thesis
      by (simp add: swLinkedList_pop_def swLinkedList_remove_node_def)
  next
    case False
    then have "last ps \<noteq> x" "last ps \<noteq> NULL" "last ps \<in> dom (ll_mem ll)" "ll_head ll \<noteq> x" "x \<noteq> ll_head ll"
      using facts(1,2,3,6) by (cases ps rule: rev_cases; auto simp: hd_append)+
    with False facts(4-7) at mx show ?thesis
      by (simp add: swLinkedList_pop_def swLinkedList_remove_node_def wr_def)
  qed
qed

section \<open>Adding a node\<close>

lemma swLinkedList_append_rep:
  assumes rep: "ll_rep ll ps" and new: "node \<noteq> NULL" "node \<notin> set ps"
  shows "\<exists>ll'. swLinkedList_append (Some node, raw) ll d = Some (SW_OK, ll') \<and> ll_rep ll' (ps @ [node]) \<and>
    ll_dt (ll_mem ll') node = d \<and> (\<forall>y\<in>set ps. ll_dt (ll_mem ll') y = ll_dt (ll_mem ll) y)"
proof -
  let ?m = "ll_mem ll"
  note facts = ll_rep_facts [OF rep]
  define m1 where "m1 = (if ps = [] then ?m else wr (last ps) (\<lambda>v. v\<lparr>ln_next := node\<rparr>) ?m)"
  define m' where "m' = m1(node \<mapsto> raw\<lparr>ln_data := d, ln_next := NULL, ln_prev := last (NULL # ps)\<rparr>)"
  define ll' where "ll' = ll\<lparr>ll_num := ll_num ll + 1, ll_mem := m',
    ll_head := (if ps = [] then node else ll_head ll), ll_tail := node\<rparr>"
  have "ps \<noteq> [] \<Longrightarrow> last ps \<in> dom ?m" using facts(1) by simp
  then have run: "swLinkedList_append (Some node, raw) ll d = Some (SW_OK, ll')"
    using facts(5,7) by (auto simp: swLinkedList_append_def ll'_def m'_def m1_def Let_def)
  have ne: "y \<noteq> node" if "y \<in> set ps" for y using that new by auto
  have m1: "ll_nx m1 y = (if ps \<noteq> [] \<and> y = last ps then node else ll_nx ?m y)" "ll_pv m1 y = ll_pv ?m y"
    "ll_dt m1 y = ll_dt ?m y" for y by (auto simp: m1_def the_wr)
  have "dlist (ll_nx ?m) (ll_pv ?m) ps" using rep by (simp add: ll_rep_def)
  then have "dlist (ll_nx m') (ll_pv m') (ps @ [node])"
    by (rule dlist_push_back) (use new ne m1 in \<open>auto simp: m'_def\<close>)
  moreover have "dom m' = set (ps @ [node])" using facts(1) by (auto simp: m'_def m1_def split: if_splits)
  moreover have "ll_head ll' = hd ((ps @ [node]) @ [NULL])" using facts(6) by (simp add: ll'_def)
  moreover have "ll_num ll' = of_nat (length (ps @ [node]))" using rep by (simp add: ll'_def ll_rep_def)
  ultimately have "ll_rep ll' (ps @ [node])" by (simp add: ll_rep_def ll'_def)
  then show ?thesis using run ne m1(3) by (simp add: ll'_def m'_def)
qed

lemma swLinkedList_prepend_rep:
  assumes rep: "ll_rep ll ps" and new: "node \<noteq> NULL" "node \<notin> set ps"
  shows "\<exists>ll'. swLinkedList_prepend (Some node, raw) ll d = Some (SW_OK, ll') \<and> ll_rep ll' (node # ps) \<and>
    ll_dt (ll_mem ll') node = d \<and> (\<forall>y\<in>set ps. ll_dt (ll_mem ll') y = ll_dt (ll_mem ll) y)"
proof -
  let ?m = "ll_mem ll"
  note facts = ll_rep_facts [OF rep]
  define m1 where "m1 = (if ps = [] then ?m else wr (hd ps) (\<lambda>v. v\<lparr>ln_prev := node\<rparr>) ?m)"
  define m' where "m' = m1(node \<mapsto> raw\<lparr>ln_data := d, ln_prev := NULL, ln_next := hd (ps @ [NULL])\<rparr>)"
  define ll' where "ll' = ll\<lparr>ll_num := ll_num ll + 1, ll_mem := m',
    ll_head := node, ll_tail := (if ps = [] then node else ll_tail ll)\<rparr>"
  have "ps \<noteq> [] \<Longrightarrow> hd ps \<in> dom ?m" using facts(1) by simp
  then have run: "swLinkedList_prepend (Some node, raw) ll d = Some (SW_OK, ll')"
    using facts(4,6) by (cases raw) (auto simp: swLinkedList_prepend_def ll'_def m'_def m1_def Let_def)
  have ne: "y \<noteq> node" if "y \<in> set ps" for y using that new by auto
  have m1: "ll_pv m1 y = (if ps \<noteq> [] \<and> y = hd ps then node else ll_pv ?m y)" "ll_nx m1 y = ll_nx ?m y"
    "ll_dt m1 y = ll_dt ?m y" for y by (auto simp: m1_def the_wr)
  have "dlist (ll_nx ?m) (ll_pv ?m) ps" using rep by (simp add: ll_rep_def)
  then have "dlist (ll_nx m') (ll_pv m') (node # ps)"
    by (rule dlist_push_front) (use new ne m1 in \<open>auto simp: m'_def\<close>)
  moreover have "dom m' = set (node # ps)" using facts(1) by (auto simp: m'_def m1_def split: if_splits)
  moreover have "ll_tail ll' = last (NULL # node # ps)" using facts(7) by (simp add: ll'_def)
  moreover have "ll_num ll' = of_nat (length (node # ps))" using rep by (simp add: ll'_def ll_rep_def)
  ultimately have "ll_rep ll' (node # ps)" by (simp add: ll_rep_def ll'_def)
  then show ?thesis using run ne m1(3) by (simp add: ll'_def m'_def)
qed

section \<open>Freeing the list\<close>

lemma swLinkedList_free_loop_all:
  assumes "dseg (ll_nx m) (ll_pv m) a (x # ps) NULL" "distinct (x # ps)" "set (x # ps) \<subseteq> dom m" "length ps < fuel"
  shows "swLinkedList_free_loop fuel m dtor x =
    Some (if dtor then map (ll_dt m) (x # ps) else [], m |` (- set (x # ps)))"
  using assms
proof (induction ps arbitrary: fuel m a x)
  case Nil
  then obtain v where "m x = Some v" by auto
  moreover obtain f where "fuel = Suc f" using Nil.prems(4) by (cases fuel) auto
  moreover have "m(x := None) = m |` (- {x})" by (auto simp: restrict_map_def)
  ultimately show ?case using Nil.prems by (simp add: Let_def)
next
  case (Cons y ps)
  from Cons.prems(3) obtain v where v: "m x = Some v" by auto
  obtain f where f: "fuel = Suc f" using Cons.prems(4) by (cases fuel) auto
  let ?m = "m(x := None)"
  have same: "?m z = m z" if "z \<in> set (y # ps)" for z using that Cons.prems(2) by auto
  have "dseg (ll_nx ?m) (ll_pv ?m) x (y # ps) NULL"
    using Cons.prems(1) same by (subst dseg_cong [where n' = "ll_nx m" and p' = "ll_pv m"]) (simp_all del: fun_upd_apply)
  then have ih: "swLinkedList_free_loop f ?m dtor y =
      Some (if dtor then map (ll_dt ?m) (y # ps) else [], ?m |` (- set (y # ps)))"
    by (rule Cons.IH) (use Cons.prems f in auto)
  have "map (ll_dt ?m) (y # ps) = map (ll_dt m) (y # ps)" using same by (intro map_cong) auto
  moreover have "?m |` (- set (y # ps)) = m |` (- set (x # y # ps))" by (auto simp: restrict_map_def)
  ultimately show ?case using ih Cons.prems(1) v f by (simp add: Let_def)
qed

text \<open>A non-empty list is freed completely, the destructor called once on every value in order.\<close>

lemma swLinkedList_free_all:
  assumes "ll_rep ll ps" "ps \<noteq> []" "length ps \<le> fuel"
  shows "swLinkedList_free fuel ll = Some (if ll_dtor ll then ll_values ll ps else [], Map.empty)"
proof -
  obtain x qs where ps: "ps = x # qs" using assms(2) by (cases ps) auto
  have rep: "dseg (ll_nx (ll_mem ll)) (ll_pv (ll_mem ll)) NULL (x # qs) NULL" "distinct (x # qs)"
    "dom (ll_mem ll) = set (x # qs)" "ll_head ll = x"
    using assms(1) by (auto simp: ll_rep_def dlist_def ps)
  have "ll_mem ll |` (- set (x # qs)) = Map.empty" using rep(3) by (auto simp: restrict_map_def dom_def fun_eq_iff)
  moreover have "length qs < fuel" using assms(3) by (simp add: ps)
  ultimately show ?thesis using swLinkedList_free_loop_all [OF rep(1,2) _ , of fuel "ll_dtor ll"] rep(3,4)
    by (simp add: swLinkedList_free_def ll_values_def ps)
qed

text \<open>An empty list cannot be freed: the loop reads the node at the null address.\<close>

lemma swLinkedList_free_empty: "ll_rep ll [] \<Longrightarrow> swLinkedList_free fuel ll = None"
  by (cases fuel) (simp_all add: swLinkedList_free_def ll_rep_def)

section \<open>The list as a double-ended queue\<close>

lemma ll_remove_values:
  assumes "ll_rep ll (as @ x # bs)"
  shows "\<exists>ll'. swLinkedList_remove_node ll x = Some ll' \<and> ll_rep ll' (as @ bs) \<and>
    ll_values ll' (as @ bs) = ll_values ll (as @ bs)"
  using swLinkedList_remove_node_rep [OF assms] by (auto simp: ll_values_def)

lemma ll_ends_empty: "ll_rep ll [] \<Longrightarrow> swLinkedList_shift ll = Some (NULL, ll) \<and> swLinkedList_pop ll = Some (NULL, ll)"
  by (simp add: ll_rep_def swLinkedList_shift_def swLinkedList_pop_def)

lemma ll_shift_values:
  assumes "ll_rep ll ps" "ps \<noteq> []"
  shows "\<exists>ll'. swLinkedList_shift ll = Some (hd (ll_values ll ps), ll') \<and> ll_rep ll' (tl ps) \<and>
    ll_values ll' (tl ps) = tl (ll_values ll ps)"
proof -
  obtain x bs where ps: "ps = [] @ x # bs" using assms(2) by (cases ps) auto
  with ll_remove_values [of ll "[]" x bs] swLinkedList_shift_remove [of ll x bs] assms(1) show ?thesis
    by (auto simp: ll_values_def)
qed

lemma ll_pop_values:
  assumes "ll_rep ll ps" "ps \<noteq> []"
  shows "\<exists>ll'. swLinkedList_pop ll = Some (last (ll_values ll ps), ll') \<and> ll_rep ll' (butlast ps) \<and>
    ll_values ll' (butlast ps) = butlast (ll_values ll ps)"
proof -
  obtain as x where ps: "ps = as @ x # []" using assms(2) by (metis append_butlast_last_id)
  with ll_remove_values [of ll as x "[]"] swLinkedList_pop_remove [of ll as x] assms(1) show ?thesis
    by (auto simp: ll_values_def)
qed

text \<open>C22. On every well-formed list, the empty one included, each operation does its part of a
  double-ended queue: appending and prepending a fresh node add its value at the back and at the front
  and a failed allocation changes nothing, popping and shifting return and remove the last and the
  first value, or return the null pointer when there is none, removing a node removes its value
  wherever it stands; links, ends, count and the set of live nodes stay consistent, and no access goes
  through an invalid pointer.\<close>

theorem swLinkedList_deque:
  assumes rep: "ll_rep ll ps" and node: "node \<noteq> NULL" "node \<notin> set ps"
  shows "(\<exists>ll'. swLinkedList_append (Some node, raw) ll d = Some (SW_OK, ll') \<and>
      ll_rep ll' (ps @ [node]) \<and> ll_values ll' (ps @ [node]) = ll_values ll ps @ [d]) \<and>
    (\<exists>ll'. swLinkedList_prepend (Some node, raw) ll d = Some (SW_OK, ll') \<and>
      ll_rep ll' (node # ps) \<and> ll_values ll' (node # ps) = d # ll_values ll ps) \<and>
    swLinkedList_append (None, raw) ll d = Some (SW_ERR, ll) \<and> swLinkedList_prepend (None, raw) ll d = Some (SW_ERR, ll) \<and>
    (\<forall>as x bs. ps = as @ x # bs \<longrightarrow> (\<exists>ll'. swLinkedList_remove_node ll x = Some ll' \<and> ll_rep ll' (as @ bs) \<and>
      ll_values ll' (as @ bs) = ll_values ll (as @ bs))) \<and>
    (if ps = [] then swLinkedList_shift ll = Some (NULL, ll) \<and> swLinkedList_pop ll = Some (NULL, ll)
     else (\<exists>ll'. swLinkedList_shift ll = Some (hd (ll_values ll ps), ll') \<and> ll_rep ll' (tl ps) \<and>
         ll_values ll' (tl ps) = tl (ll_values ll ps)) \<and>
       (\<exists>ll'. swLinkedList_pop ll = Some (last (ll_values ll ps), ll') \<and> ll_rep ll' (butlast ps) \<and>
         ll_values ll' (butlast ps) = butlast (ll_values ll ps)))"
proof (intro conjI allI impI)
  show "\<exists>ll'. swLinkedList_append (Some node, raw) ll d = Some (SW_OK, ll') \<and>
      ll_rep ll' (ps @ [node]) \<and> ll_values ll' (ps @ [node]) = ll_values ll ps @ [d]"
    using swLinkedList_append_rep [OF assms, of raw d] by (auto simp: ll_values_def)
  show "\<exists>ll'. swLinkedList_prepend (Some node, raw) ll d = Some (SW_OK, ll') \<and>
      ll_rep ll' (node # ps) \<and> ll_values ll' (node # ps) = d # ll_values ll ps"
    using swLinkedList_prepend_rep [OF assms, of raw d] by (auto simp: ll_values_def)
  show "swLinkedList_append (None, raw) ll d = Some (SW_ERR, ll)" "swLinkedList_prepend (None, raw) ll d = Some (SW_ERR, ll)"
    by (simp_all add: swLinkedList_append_def swLinkedList_prepend_def)
  show "\<exists>ll'. swLinkedList_remove_node ll x = Some ll' \<and> ll_rep ll' (as @ bs) \<and>
      ll_values ll' (as @ bs) = ll_values ll (as @ bs)" if "ps = as @ x # bs" for as x bs
    using rep unfolding that by (rule ll_remove_values)
  show "if ps = [] then swLinkedList_shift ll = Some (NULL, ll) \<and> swLinkedList_pop ll = Some (NULL, ll)
     else (\<exists>ll'. swLinkedList_shift ll = Some (hd (ll_values ll ps), ll') \<and> ll_rep ll' (tl ps) \<and>
         ll_values ll' (tl ps) = tl (ll_values ll ps)) \<and>
       (\<exists>ll'. swLinkedList_pop ll = Some (last (ll_values ll ps), ll') \<and> ll_rep ll' (butlast ps) \<and>
         ll_values ll' (butlast ps) = butlast (ll_values ll ps))"
    using ll_ends_empty ll_shift_values ll_pop_values rep by auto
qed

definition ll_node_at :: "ptr \<Rightarrow> ptr \<Rightarrow> ptr \<Rightarrow> ll_node" where
  "ll_node_at prv nxt d = \<lparr>ln_prev = prv, ln_next = nxt, ln_priority = 0, ln_data = d\<rparr>"

definition ll_demo :: linked_list where
  "ll_demo = \<lparr>ll_num = 2, ll_type = 0, ll_head = 4, ll_tail = 5, ll_dtor = False,
     ll_mem = [4 \<mapsto> ll_node_at 0 5 40, 5 \<mapsto> ll_node_at 4 0 50]\<rparr>"

lemma ll_demo_rep: "ll_rep ll_demo [4, 5]"
  by (auto simp: ll_rep_def ll_demo_def ll_node_at_def dlist_def)

theorem swLinkedList_deque_witness:
  "\<exists>ll'. swLinkedList_shift ll_demo = Some (40, ll') \<and> ll_rep ll' [5] \<and> ll_values ll' [5] = [50]"
  using swLinkedList_deque [of ll_demo "[4, 5]" 6] ll_demo_rep
  by (simp add: ll_values_def) (simp add: ll_demo_def ll_node_at_def)

section \<open>Appending and shifting is a first-in first-out queue\<close>

fun ll_walk :: "nat \<Rightarrow> (ptr \<rightharpoonup> ll_node) \<Rightarrow> ptr \<Rightarrow> ptr list" where
  "ll_walk 0 m x = []"
| "ll_walk (Suc n) m x = x # ll_walk n m (ll_nx m x)"

definition ll_items :: "linked_list \<Rightarrow> ptr list" where
  "ll_items ll = ll_values ll (ll_walk (unat (ll_num ll)) (ll_mem ll) (ll_head ll))"

definition ll_inv :: "linked_list \<Rightarrow> bool" where
  "ll_inv ll \<longleftrightarrow> (\<exists>ps. ll_rep ll ps \<and> length ps < 2 ^ 32)"

definition ll_fresh :: "linked_list \<Rightarrow> ptr \<times> ll_node \<times> ptr \<Rightarrow> bool" where
  "ll_fresh ll x \<longleftrightarrow> fst x \<noteq> NULL \<and> ll_mem ll (fst x) = None \<and> ll_num ll + 1 \<noteq> 0"

text \<open>The two operations with their answers as the queue interface has them; \<open>None\<close> stays a crash. A
  shift of an empty list returns the null pointer, which is also a value a list may hold: the caller
  tells them apart by the count.\<close>

definition ll_push :: "linked_list \<Rightarrow> ptr \<times> ll_node \<times> ptr \<Rightarrow> (bool \<times> linked_list) option" where
  "ll_push ll x = map_option (\<lambda>(r, ll). (r = SW_OK, ll)) (swLinkedList_append (Some (fst x), fst (snd x)) ll (snd (snd x)))"

definition ll_take :: "linked_list \<Rightarrow> (ptr option \<times> linked_list) option" where
  "ll_take ll = map_option (\<lambda>(d, ll'). (if ll_num ll = 0 then None else Some d, ll')) (swLinkedList_shift ll)"

lemma ll_walk_dseg: "dseg (ll_nx m) (ll_pv m) a xs b \<Longrightarrow> ll_walk (length xs) m (hd (xs @ [b])) = xs"
  by (induction xs arbitrary: a) auto

lemma ll_items_rep: "ll_rep ll ps \<Longrightarrow> length ps < 2 ^ 32 \<Longrightarrow> ll_items ll = ll_values ll ps \<and> unat (ll_num ll) = length ps"
proof -
  assume rep: "ll_rep ll ps" and short: "length ps < 2 ^ 32"
  then have "unat (ll_num ll) = length ps" by (simp add: ll_rep_def unat_of_nat)
  moreover have "ll_walk (length ps) (ll_mem ll) (ll_head ll) = ps"
    using rep ll_walk_dseg [of "ll_mem ll" NULL ps NULL] by (simp add: ll_rep_def dlist_def)
  ultimately show ?thesis by (simp add: ll_items_def)
qed

lemma unat_no_wrap: "(w :: u32) + 1 \<noteq> 0 \<Longrightarrow> unat w + 1 < 2 ^ 32"
proof -
  assume "w + 1 \<noteq> 0"
  then have "unat (w + 1) \<noteq> 0" by (simp add: unat_eq_zero)
  then have "(unat w + 1) mod 2 ^ 32 \<noteq> 0" by (simp add: unat_word_ariths)
  moreover have "unat w < 2 ^ 32" using unsigned_less [of w] by simp
  ultimately show ?thesis by (cases "unat w + 1 = 2 ^ 32") auto
qed

lemma ll_push_items:
  assumes "ll_inv ll" "ll_fresh ll x"
  shows "\<exists>ll'. ll_push ll x = Some (True, ll') \<and> ll_inv ll' \<and> ll_items ll' = ll_items ll @ [snd (snd x)]"
proof -
  obtain ps where ps: "ll_rep ll ps" "length ps < 2 ^ 32" using assms(1) by (auto simp: ll_inv_def)
  have new: "fst x \<noteq> NULL" "fst x \<notin> set ps" using assms(2) ll_rep_facts(1) [OF ps(1)] by (auto simp: ll_fresh_def)
  have long: "length (ps @ [fst x]) < 2 ^ 32"
    using assms(2) ll_items_rep [OF ps] unat_no_wrap [of "ll_num ll"] by (simp add: ll_fresh_def)
  obtain ll' where ll': "ll_push ll x = Some (True, ll')" "ll_rep ll' (ps @ [fst x])" "ll_dt (ll_mem ll') (fst x) = snd (snd x)"
    "\<forall>y\<in>set ps. ll_dt (ll_mem ll') y = ll_dt (ll_mem ll) y"
    using swLinkedList_append_rep [OF ps(1) new, of "fst (snd x)" "snd (snd x)"] by (auto simp: ll_push_def)
  then show ?thesis using ll_items_rep [OF ll'(2) long] ll_items_rep [OF ps] long
    by (auto simp: ll_inv_def ll_values_def)
qed

lemma ll_take_items:
  assumes "ll_inv ll"
  shows "\<exists>ll'. ll_take ll = Some (front (ll_items ll), ll') \<and> ll_inv ll' \<and> ll_items ll' = tl (ll_items ll)"
proof -
  obtain ps where ps: "ll_rep ll ps" "length ps < 2 ^ 32" using assms(1) by (auto simp: ll_inv_def)
  note items = ll_items_rep [OF ps]
  show ?thesis
  proof (cases "ps = []")
    case True
    then show ?thesis using items ps(1) ll_ends_empty [of ll] assms by (simp add: ll_take_def unat_eq_zero ll_values_def)
  next
    case False
    then obtain ll' where ll': "swLinkedList_shift ll = Some (hd (ll_values ll ps), ll')" "ll_rep ll' (tl ps)"
      "ll_values ll' (tl ps) = tl (ll_values ll ps)" using ll_shift_values [OF ps(1)] by blast
    have short: "length (tl ps) < 2 ^ 32" using ps(2) by simp
    have "ll_num ll \<noteq> 0" "ll_values ll ps \<noteq> []" using items False by (auto simp: ll_values_def)
    then have "ll_take ll = Some (front (ll_values ll ps), ll')" using ll'(1) by (cases "ll_values ll ps") (simp_all add: ll_take_def)
    moreover have "ll_inv ll'" using ll'(2) short by (auto simp: ll_inv_def)
    ultimately show ?thesis using items ll_items_rep [OF ll'(2) short] ll'(3) by simp
  qed
qed

interpretation listq: fifo_queue ll_inv ll_items ll_fresh "\<lambda>x. snd (snd x)" "\<lambda>_ _. False" ll_push ll_take
proof
  fix ll x assume a: "ll_inv ll" "ll_fresh ll x"
  from ll_push_items [OF a] show "\<exists>b ll'. ll_push ll x = Some (b, ll') \<and> ll_inv ll' \<and> ll_items ll' = ll_items ll @ (if b then [snd (snd x)] else []) \<and>
    (b \<or> False)" by (elim exE) (intro exI [of _ True], simp)
qed (rule ll_take_items)

text \<open>What a list filled by appends gives back, shifted until it is empty, is its values in order.\<close>

lemma swLinkedList_drain:
  assumes "ll_inv ll"
  shows "\<exists>ll'. queue_run ll_fresh ll_push ll_take (replicate (length (ll_items ll)) Pop) ll =
    Some (map (\<lambda>a. Popped (Some a)) (ll_items ll), ll') \<and> ll_inv ll' \<and> ll_items ll' = []"
  using assms by (rule listq.drain)

end
