(* ===== verification/Sw_RingQueue.thy ===== *)
theory Sw_RingQueue
  imports Sw_Interfaces
begin

text \<open>
  The ring queue (\<open>src/core/RingQueue.c\<close>, \<open>include/RingQueue.h\<close>, the variant the default
  configuration compiles): an array, the indices of the next element to leave and of the next free
  cell, and a tag that tells a full queue from an empty one when the two indices meet. The
  operations give \<open>None\<close> for an access outside the array or a division by zero.
\<close>

section \<open>The structure and its operations\<close>

record ring_queue =
  rq_head :: nat
  rq_tail :: nat
  rq_tag :: nat
  rq_size :: nat
  rq_data :: "ptr list"

definition swRingQueue_init :: "bool \<Rightarrow> nat \<Rightarrow> int \<times> ring_queue option" where
  "swRingQueue_init calloc_ok buffer_size =
     (if \<not> calloc_ok then (-1, None)
      else (0, Some \<lparr>rq_head = 0, rq_tail = 0, rq_tag = 0, rq_size = buffer_size,
        rq_data = replicate buffer_size NULL\<rparr>))"

definition swRingQueue_empty :: "ring_queue \<Rightarrow> bool" where
  "swRingQueue_empty q \<longleftrightarrow> rq_head q = rq_tail q \<and> rq_tag q = 0"

definition swRingQueue_full :: "ring_queue \<Rightarrow> bool" where
  "swRingQueue_full q \<longleftrightarrow> rq_head q = rq_tail q \<and> rq_tag q = 1"

definition swRingQueue_push :: "ring_queue \<Rightarrow> ptr \<Rightarrow> (int \<times> ring_queue) option" where
  "swRingQueue_push q push_data =
     (if swRingQueue_full q then Some (SW_ERR, q)
      else if rq_tail q \<ge> length (rq_data q) \<or> rq_size q = 0 then None
      else
        let q = q\<lparr>rq_data := (rq_data q)[rq_tail q := push_data], rq_tail := (rq_tail q + 1) mod rq_size q\<rparr>;
            q = (if rq_tail q = rq_head q then q\<lparr>rq_tag := 1\<rparr> else q)
        in Some (SW_OK, q))"

definition swRingQueue_pop :: "ring_queue \<Rightarrow> (int \<times> ptr option \<times> ring_queue) option" where
  "swRingQueue_pop q =
     (if swRingQueue_empty q then Some (SW_ERR, None, q)
      else if rq_head q \<ge> length (rq_data q) \<or> rq_size q = 0 then None
      else
        let pop_data = rq_data q ! rq_head q;
            q = q\<lparr>rq_head := (rq_head q + 1) mod rq_size q\<rparr>;
            q = (if rq_tail q = rq_head q then q\<lparr>rq_tag := 0\<rparr> else q)
        in Some (SW_OK, Some pop_data, q))"

section \<open>The sequence a queue holds\<close>

text \<open>The tag means something only where the indices meet: a pop of a full queue leaves it set.\<close>

definition rq_inv :: "ring_queue \<Rightarrow> bool" where
  "rq_inv q \<longleftrightarrow> 0 < rq_size q \<and> length (rq_data q) = rq_size q \<and> rq_head q < rq_size q \<and>
     rq_tail q < rq_size q \<and> rq_tag q \<le> 1"

definition rq_count :: "ring_queue \<Rightarrow> nat" where
  "rq_count q =
     (if rq_head q = rq_tail q then (if rq_tag q = 0 then 0 else rq_size q)
      else if rq_head q < rq_tail q then rq_tail q - rq_head q
      else rq_tail q + rq_size q - rq_head q)"

definition rq_items :: "ring_queue \<Rightarrow> ptr list" where
  "rq_items q = map (\<lambda>i. rq_data q ! ((rq_head q + i) mod rq_size q)) [0..<rq_count q]"

lemma length_rq_items [simp]: "length (rq_items q) = rq_count q"
  by (simp add: rq_items_def)

lemma wrap_once: "a < n \<Longrightarrow> b \<le> n \<Longrightarrow> (a + b) mod n = (if a + b < n then a + b else a + b - n)" for a b n :: nat
  by (simp add: le_mod_geq)

lemma rq_count_le: "rq_inv q \<Longrightarrow> rq_count q \<le> rq_size q"
  by (auto simp: rq_inv_def rq_count_def)

lemma rq_tail_count: "rq_inv q \<Longrightarrow> rq_tail q = (rq_head q + rq_count q) mod rq_size q"
  by (subst wrap_once) (auto simp: rq_inv_def rq_count_def)

lemma rq_full_count: "rq_inv q \<Longrightarrow> swRingQueue_full q \<longleftrightarrow> rq_count q = rq_size q"
  by (auto simp: rq_inv_def rq_count_def swRingQueue_full_def)

lemma rq_empty_count: "rq_inv q \<Longrightarrow> swRingQueue_empty q \<longleftrightarrow> rq_count q = 0"
  by (auto simp: rq_inv_def rq_count_def swRingQueue_empty_def)

lemma rq_init_empty:
  "0 < n \<Longrightarrow> \<exists>q. swRingQueue_init True n = (0, Some q) \<and> rq_inv q \<and> rq_size q = n \<and> rq_items q = []"
  by (simp add: swRingQueue_init_def rq_inv_def rq_items_def rq_count_def)

lemma rq_cells_differ:
  assumes "h < n" "i < c" "c < n" shows "(h + i) mod n \<noteq> (h + c) mod (n :: nat)"
  using assms by (auto simp: wrap_once)

lemma rq_push_step:
  assumes inv: "rq_inv q" and room: "rq_count q < rq_size q"
  shows "\<exists>q'. swRingQueue_push q x = Some (SW_OK, q') \<and> rq_inv q' \<and> rq_size q' = rq_size q \<and>
    rq_items q' = rq_items q @ [x]"
proof -
  define t' where "t' = (rq_tail q + 1) mod rq_size q"
  define q' where "q' = q\<lparr>rq_data := (rq_data q)[rq_tail q := x], rq_tail := t',
    rq_tag := (if t' = rq_head q then 1 else rq_tag q)\<rparr>"
  have bounds: "rq_head q < rq_size q" "rq_tail q < rq_size q" "length (rq_data q) = rq_size q" "rq_tag q \<le> 1"
    using inv by (auto simp: rq_inv_def)
  have push: "swRingQueue_push q x = Some (SW_OK, q')"
    using bounds room rq_full_count [OF inv] by (auto simp: swRingQueue_push_def q'_def t'_def Let_def)
  have t': "t' = (if rq_tail q + 1 < rq_size q then rq_tail q + 1 else 0)"
    using bounds wrap_once [of "rq_tail q" "rq_size q" 1] by (auto simp: t'_def)
  have inv': "rq_inv q'" using bounds by (auto simp: rq_inv_def q'_def t')
  have count: "rq_count q' = rq_count q + 1"
    using room bounds by (auto simp: rq_count_def q'_def t' split: if_splits)
  have old: "rq_data q' ! ((rq_head q + i) mod rq_size q) = rq_data q ! ((rq_head q + i) mod rq_size q)"
    if "i < rq_count q" for i
    using rq_cells_differ [OF bounds(1) that room] rq_tail_count [OF inv] by (simp add: q'_def)
  have new: "rq_data q' ! ((rq_head q + rq_count q) mod rq_size q) = x"
    using rq_tail_count [OF inv] bounds by (simp add: q'_def)
  have "rq_items q' = rq_items q @ [x]"
    using old new unfolding rq_items_def count by (simp add: q'_def)
  with push inv' show ?thesis by (simp add: q'_def)
qed

lemma rq_pop_step:
  assumes inv: "rq_inv q" and some: "rq_count q \<noteq> 0"
  shows "\<exists>a q'. swRingQueue_pop q = Some (SW_OK, Some a, q') \<and> rq_inv q' \<and> rq_size q' = rq_size q \<and>
    rq_items q = a # rq_items q'"
proof -
  define h' where "h' = (rq_head q + 1) mod rq_size q"
  define q' where "q' = q\<lparr>rq_head := h', rq_tag := (if rq_tail q = h' then 0 else rq_tag q)\<rparr>"
  have bounds: "rq_head q < rq_size q" "rq_tail q < rq_size q" "length (rq_data q) = rq_size q" "rq_tag q \<le> 1"
    using inv by (auto simp: rq_inv_def)
  have pop: "swRingQueue_pop q = Some (SW_OK, Some (rq_data q ! rq_head q), q')"
    using bounds some rq_empty_count [OF inv] by (auto simp: swRingQueue_pop_def q'_def h'_def Let_def)
  have h': "h' = (if rq_head q + 1 < rq_size q then rq_head q + 1 else 0)"
    using bounds wrap_once [of "rq_head q" "rq_size q" 1] by (auto simp: h'_def)
  have inv': "rq_inv q'" using bounds by (auto simp: rq_inv_def q'_def h')
  have count: "rq_count q = Suc (rq_count q')"
    using some bounds by (auto simp: rq_count_def q'_def h' split: if_splits)
  have shift: "(h' + i) mod rq_size q = (rq_head q + Suc i) mod rq_size q" for i
    by (simp add: h'_def mod_add_left_eq)
  have "rq_items q = (rq_data q ! rq_head q) # rq_items q'"
    unfolding rq_items_def count upt_conv_Cons [OF zero_less_Suc] map_Suc_upt [symmetric]
    using bounds shift by (simp add: q'_def comp_def del: upt_Suc)
  with pop inv' show ?thesis by (auto simp: q'_def)
qed

section \<open>The ring queue is a first-in first-out queue\<close>

text \<open>The two operations with their answers as the queue interface has them; \<open>None\<close> stays a crash.\<close>

definition rq_push :: "ring_queue \<Rightarrow> ptr \<Rightarrow> (bool \<times> ring_queue) option" where
  "rq_push q x = map_option (\<lambda>(r, q). (r = SW_OK, q)) (swRingQueue_push q x)"

definition rq_pop :: "ring_queue \<Rightarrow> (ptr option \<times> ring_queue) option" where
  "rq_pop q = map_option (\<lambda>(r, a, q). (a, q)) (swRingQueue_pop q)"

lemma rq_push_full: "rq_inv q \<Longrightarrow> rq_count q = rq_size q \<Longrightarrow> swRingQueue_push q x = Some (SW_ERR, q)"
  by (simp add: swRingQueue_push_def rq_full_count)

lemma rq_pop_empty: "rq_inv q \<Longrightarrow> rq_count q = 0 \<Longrightarrow> swRingQueue_pop q = Some (SW_ERR, None, q)"
  by (simp add: swRingQueue_pop_def rq_empty_count)

interpretation ringq: fifo_queue "\<lambda>q. rq_inv q \<and> rq_size q = n" rq_items "\<lambda>_ _. True" "\<lambda>x. x"
  "\<lambda>xs x. length xs = n" rq_push rq_pop for n
proof
  fix q x assume q: "rq_inv q \<and> rq_size q = n"
  consider "rq_count q < n" | "rq_count q = n" using rq_count_le q by force
  then show "\<exists>b q'. rq_push q x = Some (b, q') \<and> (rq_inv q' \<and> rq_size q' = n) \<and>
    rq_items q' = rq_items q @ (if b then [x] else []) \<and> (b \<or> length (rq_items q) = n)"
  proof cases
    case 1
    then show ?thesis using rq_push_step [of q x] q by (auto simp: rq_push_def)
  next
    case 2
    then show ?thesis using rq_push_full [of q x] q by (intro exI [of _ False] exI [of _ q]) (simp add: rq_push_def)
  qed
next
  fix q assume q: "rq_inv q \<and> rq_size q = n"
  show "\<exists>q'. rq_pop q = Some (front (rq_items q), q') \<and> (rq_inv q' \<and> rq_size q' = n) \<and> rq_items q' = tl (rq_items q)"
  proof (cases "rq_count q = 0")
    case True
    then show ?thesis using rq_pop_empty [of q] q by (simp add: rq_pop_def rq_items_def)
  next
    case False
    then show ?thesis using rq_pop_step [of q] q by (auto simp: rq_pop_def)
  qed
qed

text \<open>C23. Any sequence of pushes and pops on a ring queue returns, no access leaving the array, and answers
  as a list does: a push that is accepted adds its value at the end, a pop takes the first value, or
  fails when there is none. A push is refused exactly when the queue holds as many values as it has
  cells.\<close>

theorem swRingQueue_fifo:
  assumes "rq_inv q"
  shows "\<exists>rs q'. queue_run (\<lambda>_ _. True) rq_push rq_pop ops q = Some (rs, q') \<and> rq_inv q' \<and> rq_size q' = rq_size q \<and>
    queue_spec (\<lambda>xs x. length xs = rq_size q) (\<lambda>x. x) ops rs (rq_items q) (rq_items q') \<and>
    (swRingQueue_push q' x = Some (SW_ERR, q') \<longleftrightarrow> length (rq_items q') = rq_size q') \<and>
    swRingQueue_push q' x \<noteq> None \<and> swRingQueue_pop q' \<noteq> None"
proof -
  obtain rs q' where run: "queue_run (\<lambda>_ _. True) rq_push rq_pop ops q = Some (rs, q')" "rq_inv q'" "rq_size q' = rq_size q"
    "queue_spec (\<lambda>xs x. length xs = rq_size q) (\<lambda>x. x) ops rs (rq_items q) (rq_items q')"
    using ringq.run_queue [of q "rq_size q" ops] assms by blast
  have "rq_count q' < rq_size q' \<or> rq_count q' = rq_size q'" using rq_count_le [OF run(2)] by auto
  then have "(swRingQueue_push q' x = Some (SW_ERR, q')) = (rq_count q' = rq_size q') \<and> swRingQueue_push q' x \<noteq> None"
    using rq_push_step [OF run(2), of x] rq_push_full [OF run(2), of x] by auto
  moreover have "swRingQueue_pop q' \<noteq> None"
    using rq_pop_step [OF run(2)] rq_pop_empty [OF run(2)] by (cases "rq_count q' = 0") auto
  ultimately show ?thesis using run by simp
qed

definition rq_demo :: ring_queue where
  "rq_demo = \<lparr>rq_head = 1, rq_tail = 1, rq_tag = 0, rq_size = 2, rq_data = [0, 0]\<rparr>"

definition rq_demo_end :: ring_queue where
  "rq_demo_end = \<lparr>rq_head = 0, rq_tail = 0, rq_tag = 1, rq_size = 2, rq_data = [8, 9]\<rparr>"

lemma rq_demo_run:
  "queue_run (\<lambda>_ _. True) rq_push rq_pop [Push 7, Push 8, Push 5, Pop, Push 9] rq_demo =
    Some ([Pushed True, Pushed True, Pushed False, Popped (Some 7), Pushed True], rq_demo_end)"
  by code_simp

theorem swRingQueue_fifo_witness:
  "rq_items rq_demo_end = [8, 9] \<and> swRingQueue_push rq_demo_end 4 = Some (SW_ERR, rq_demo_end)"
proof -
  have "rq_inv rq_demo" by code_simp
  note this [THEN swRingQueue_fifo, of "[Push 7, Push 8, Push 5, Pop, Push 9]" 4, unfolded rq_demo_run]
  moreover have "rq_items rq_demo = []" "rq_count rq_demo_end = rq_size rq_demo" by code_simp+
  ultimately show ?thesis by auto
qed

end
