(* ===== verification/Sw_Array.thy ===== *)
theory Sw_Array
  imports Sw_Prelude
begin

text \<open>
  The paged array (\<open>src/core/array.c\<close>, \<open>include/array.h\<close>): items of a fixed size in pages of a fixed
  number of items, at most \<open>SW_ARRAY_PAGE_MAX\<close> pages. A page is a block of bytes; a pointer to an
  item is its page and the byte offset in it. The answers of \<open>sw_calloc\<close> are arguments. \<open>None\<close> is a
  division by zero or an access outside the pages that were allocated.
\<close>

section \<open>The structure and its operations\<close>

definition SW_ARRAY_PAGE_MAX :: nat where
  "SW_ARRAY_PAGE_MAX = 1024"

record sw_array =
  ar_pages :: "bytes list"
  ar_page_size :: nat
  ar_item_size :: nat
  ar_item_num :: u32
  ar_offset :: u32

abbreviation ar_page_num :: "sw_array \<Rightarrow> nat" where
  "ar_page_num a \<equiv> length (ar_pages a)"

definition swArray_extend :: "bool \<Rightarrow> sw_array \<Rightarrow> int \<times> sw_array" where
  "swArray_extend calloc_ok a =
     (if ar_page_num a = SW_ARRAY_PAGE_MAX then (SW_ERR, a)
      else if \<not> calloc_ok then (SW_ERR, a)
      else (SW_OK, a\<lparr>ar_pages := ar_pages a @ [calloc_bytes (ar_page_size a * ar_item_size a)]\<rparr>))"

text \<open>The page size is stored in 16 bits, the item size in 32; the answer of the first extension is
  ignored.\<close>

definition swArray_new :: "bool \<Rightarrow> bool \<Rightarrow> bool \<Rightarrow> int \<Rightarrow> nat \<Rightarrow> sw_array option" where
  "swArray_new malloc0 malloc1 calloc_ok page_size item_size =
     (if \<not> malloc0 then None
      else if \<not> malloc1 then None
      else Some (snd (swArray_extend calloc_ok
        \<lparr>ar_pages = [], ar_page_size = nat (page_size mod 2 ^ 16), ar_item_size = item_size mod 2 ^ 32,
         ar_item_num = 0, ar_offset = 0\<rparr>)))"

definition swArray_page :: "sw_array \<Rightarrow> nat \<Rightarrow> nat" where
  "swArray_page a n = n div ar_page_size a"

definition swArray_offset :: "sw_array \<Rightarrow> nat \<Rightarrow> nat" where
  "swArray_offset a n = n mod ar_page_size a"

text \<open>The byte offset of an item in its page is a product in 32 bits.\<close>

definition ar_byte :: "sw_array \<Rightarrow> nat \<Rightarrow> nat" where
  "ar_byte a n = (swArray_offset a n * ar_item_size a) mod 2 ^ 32"

text \<open>The number of the page is kept in an \<open>int\<close>: from \<open>2 ^ 31\<close> on it is negative, passes the test and the
  access lies before the pages.\<close>

definition swArray_fetch :: "sw_array \<Rightarrow> u32 \<Rightarrow> (nat \<times> nat) option option" where
  "swArray_fetch a n =
     (if ar_page_size a = 0 then None
      else let page = swArray_page a (unat n) in
        if page \<ge> 2 ^ 31 then None
        else if page \<ge> ar_page_num a then Some None
        else Some (Some (page, ar_byte a (unat n))))"

text \<open>Copying one item into a page that must have been allocated.\<close>

definition ar_put :: "sw_array \<Rightarrow> nat \<Rightarrow> nat \<Rightarrow> bytes \<Rightarrow> sw_array option" where
  "ar_put a page off d = do {
     pg \<leftarrow> byte_at (ar_pages a) page;
     pg' \<leftarrow> put_at pg off (take (ar_item_size a) d);
     Some (a\<lparr>ar_pages := (ar_pages a)[page := pg']\<rparr>) }"

text \<open>The index is a signed integer: from \<open>2 ^ 31\<close> on the access lies before the pages. The offset has
  been advanced when the extension fails.\<close>

definition swArray_append :: "bool \<Rightarrow> sw_array \<Rightarrow> bytes \<Rightarrow> (int \<times> sw_array) option" where
  "swArray_append calloc_ok a d =
     (let n = unat (ar_offset a); a = a\<lparr>ar_offset := ar_offset a + 1\<rparr> in
      if ar_page_size a = 0 \<or> n \<ge> 2 ^ 31 then None
      else
        let page = swArray_page a n;
            (r, a) = (if page \<ge> ar_page_num a then swArray_extend calloc_ok a else (SW_OK, a))
        in if r < 0 then Some (SW_ERR, a)
           else do {
             a' \<leftarrow> ar_put (a\<lparr>ar_item_num := ar_item_num a + 1\<rparr>) page (ar_byte a n) d;
             Some (int n, a') })"

definition swArray_store :: "sw_array \<Rightarrow> u32 \<Rightarrow> bytes \<Rightarrow> (int \<times> sw_array) option" where
  "swArray_store a n d =
     (if ar_page_size a = 0 then None
      else let page = swArray_page a (unat n) in
        if page \<ge> 2 ^ 31 then None
        else if page \<ge> ar_page_num a then Some (SW_ERR, a)
        else do {
          a' \<leftarrow> ar_put a page (ar_byte a (unat n)) d;
          Some (SW_OK, a') })"

text \<open>\<open>swArray_alloc\<close> extends the array until it covers the index; the loop takes one answer of the
  allocator per page, and gives \<open>None\<close> while it waits for the next.\<close>

primrec swArray_alloc_loop :: "bool list \<Rightarrow> sw_array \<Rightarrow> nat \<Rightarrow> (bool \<times> sw_array) option" where
  "swArray_alloc_loop [] a n =
     (if n \<ge> ar_page_num a * ar_page_size a then None else Some (True, a))"
| "swArray_alloc_loop (calloc_ok # rest) a n =
     (if n \<ge> ar_page_num a * ar_page_size a then
        (case swArray_extend calloc_ok a of (r, a') \<Rightarrow>
           if r < 0 then Some (False, a') else swArray_alloc_loop rest a' n)
      else Some (True, a))"

definition swArray_alloc :: "bool list \<Rightarrow> sw_array \<Rightarrow> u32 \<Rightarrow> ((nat \<times> nat) option \<times> sw_array) option" where
  "swArray_alloc answers a n = do {
     (go, a) \<leftarrow> swArray_alloc_loop answers a (unat n);
     if \<not> go then Some (None, a)
     else if ar_page_size a = 0 then None
     else let page = swArray_page a (unat n) in
       if page \<ge> 2 ^ 31 then None
       else if page \<ge> ar_page_num a then Some (None, a)
       else Some (Some (page, ar_byte a (unat n)), a) }"

definition swArray_clear :: "sw_array \<Rightarrow> sw_array" where
  "swArray_clear a = a\<lparr>ar_offset := 0, ar_item_num := 0\<rparr>"

section \<open>Items\<close>

text \<open>Well-formed arrays have pages of at most \<open>2 ^ 32\<close> bytes, so that the offset of an item does not wrap.\<close>

definition ar_inv :: "sw_array \<Rightarrow> bool" where
  "ar_inv a \<longleftrightarrow> 0 < ar_page_size a \<and> ar_page_size a < 2 ^ 16 \<and> ar_page_size a * ar_item_size a \<le> 2 ^ 32 \<and> ar_page_num a \<le> SW_ARRAY_PAGE_MAX \<and>
     (\<forall>pg\<in>set (ar_pages a). length pg = ar_page_size a * ar_item_size a)"

text \<open>The item at an index, as a read through the pointer \<open>swArray_fetch\<close> returns.\<close>

definition ar_item :: "sw_array \<Rightarrow> u32 \<Rightarrow> bytes option" where
  "ar_item a n =
     (case swArray_fetch a n of
        Some (Some (page, off)) \<Rightarrow> slice_at (ar_pages a ! page) off (ar_item_size a)
      | _ \<Rightarrow> None)"

lemma ar_page_in: "0 < ar_page_size a \<Longrightarrow> swArray_page a n < ar_page_num a \<longleftrightarrow> n < ar_page_num a * ar_page_size a"
  by (simp add: swArray_page_def div_less_iff_less_mult)

lemma ar_slot_in:
  "0 < ar_page_size a \<Longrightarrow> swArray_offset a n * ar_item_size a + ar_item_size a \<le> ar_page_size a * ar_item_size a"
proof -
  assume "0 < ar_page_size a"
  then have "Suc (n mod ar_page_size a) \<le> ar_page_size a" by (simp add: Suc_le_eq)
  then have "Suc (n mod ar_page_size a) * ar_item_size a \<le> ar_page_size a * ar_item_size a" by (rule mult_le_mono1)
  then show ?thesis by (simp add: swArray_offset_def add.commute)
qed

lemma ar_byte_inv: "ar_inv a \<Longrightarrow> ar_byte a n = swArray_offset a n * ar_item_size a"
proof -
  assume inv: "ar_inv a"
  then have "swArray_offset a n * ar_item_size a + ar_item_size a \<le> 2 ^ 32"
    using ar_slot_in [of a n] by (simp add: ar_inv_def)
  then have "swArray_offset a n * ar_item_size a < 2 ^ 32" by (cases "ar_item_size a = 0") auto
  then show ?thesis by (simp add: ar_byte_def)
qed

lemma ar_page_small: "ar_inv a \<Longrightarrow> swArray_page a n < ar_page_num a \<Longrightarrow> \<not> 2 ^ 31 \<le> swArray_page a n"
  by (simp add: ar_inv_def SW_ARRAY_PAGE_MAX_def)

lemma ar_item_inv:
  assumes "ar_inv a"
  shows "ar_item a n = (if swArray_page a (unat n) < ar_page_num a
    then slice_at (ar_pages a ! swArray_page a (unat n)) (swArray_offset a (unat n) * ar_item_size a) (ar_item_size a) else None)"
  using assms ar_page_small [OF assms, of "unat n"]
  by (auto simp: ar_item_def swArray_fetch_def Let_def ar_byte_inv) (simp add: ar_inv_def)

lemma ar_slots_apart: "i < j \<Longrightarrow> i * sz + sz \<le> j * (sz :: nat)"
  by (metis Suc_leI add.commute mult_Suc mult_le_mono1)

lemma ar_put_item:
  assumes inv: "ar_inv a" and n: "unat n < ar_page_num a * ar_page_size a" and d: "length d = ar_item_size a"
  shows "\<exists>a'. ar_put a (swArray_page a (unat n)) (swArray_offset a (unat n) * ar_item_size a) d = Some a' \<and>
    ar_inv a' \<and> a' = a\<lparr>ar_pages := ar_pages a'\<rparr> \<and> ar_page_num a' = ar_page_num a \<and>
    (\<forall>m. ar_item a' m = (if m = n then Some d else ar_item a m))"
proof -
  let ?pg = "swArray_page a (unat n)" and ?off = "swArray_offset a (unat n) * ar_item_size a"
  have ps: "0 < ar_page_size a" using inv by (simp add: ar_inv_def)
  have pg: "?pg < ar_page_num a" using n ar_page_in [OF ps] by blast
  then have len: "length (ar_pages a ! ?pg) = ar_page_size a * ar_item_size a" using inv by (simp add: ar_inv_def)
  then obtain pg' where pg': "put_at (ar_pages a ! ?pg) ?off d = Some pg'"
    using ar_slot_in [OF ps, of "unat n"] d by (simp add: put_at_def)
  define a' where "a' = a\<lparr>ar_pages := (ar_pages a)[?pg := pg']\<rparr>"
  have run: "ar_put a ?pg ?off d = Some a'" using pg pg' d by (simp add: ar_put_def a'_def)
  have inv': "ar_inv a'"
    using inv length_put_at [OF pg'] len by (auto simp: ar_inv_def a'_def dest: set_update_subset_insert [THEN subsetD])
  have "ar_item a' m = (if m = n then Some d else ar_item a m)" for m
  proof (cases "m = n")
    case True
    then show ?thesis using slice_put_same [OF pg'] pg ps d
      unfolding ar_item_inv [OF inv'] by (simp add: a'_def swArray_page_def swArray_offset_def)
  next
    case False
    let ?i = "swArray_offset a (unat m)" and ?j = "swArray_offset a (unat n)"
    have "?i \<noteq> ?j" if "swArray_page a (unat m) = ?pg"
      using that False unfolding swArray_page_def swArray_offset_def by (metis div_mult_mod_eq word_unat_eq_iff)
    then have "slice_at pg' (?i * ar_item_size a) (ar_item_size a) =
        slice_at (ar_pages a ! ?pg) (?i * ar_item_size a) (ar_item_size a)" if "swArray_page a (unat m) = ?pg"
      using slice_put_other [OF pg'] ar_slots_apart [of ?i ?j "ar_item_size a"] ar_slots_apart [of ?j ?i "ar_item_size a"] that d
      by (metis nat_neq_iff)
    then show ?thesis using False pg ps unfolding ar_item_inv [OF inv'] ar_item_inv [OF inv]
      by (cases "swArray_page a (unat m) = ?pg") (auto simp: a'_def swArray_page_def swArray_offset_def)
  qed
  with run inv' show ?thesis by (auto simp: a'_def)
qed

lemma ar_extend_ok:
  assumes "ar_inv a" "ar_page_num a < SW_ARRAY_PAGE_MAX"
  shows "\<exists>a'. swArray_extend True a = (SW_OK, a') \<and> ar_inv a' \<and> a' = a\<lparr>ar_pages := ar_pages a'\<rparr> \<and>
    ar_page_num a' = Suc (ar_page_num a) \<and>
    (\<forall>m. ar_item a' m = (if ar_page_num a * ar_page_size a \<le> unat m \<and> unat m < ar_page_num a' * ar_page_size a
      then Some (calloc_bytes (ar_item_size a)) else ar_item a m))"
proof -
  define a' where "a' = a\<lparr>ar_pages := ar_pages a @ [calloc_bytes (ar_page_size a * ar_item_size a)]\<rparr>"
  have ps: "0 < ar_page_size a" using assms(1) by (simp add: ar_inv_def)
  have run: "swArray_extend True a = (SW_OK, a')" using assms(2) by (simp add: swArray_extend_def a'_def)
  have inv': "ar_inv a'" using assms by (auto simp: ar_inv_def a'_def)
  have "ar_item a' m = (if ar_page_num a * ar_page_size a \<le> unat m \<and> unat m < ar_page_num a' * ar_page_size a
      then Some (calloc_bytes (ar_item_size a)) else ar_item a m)" for m
  proof -
    have "swArray_page a (unat m) < ar_page_num a \<longleftrightarrow> unat m < ar_page_num a * ar_page_size a" by (rule ar_page_in [OF ps])
    moreover have "swArray_page a (unat m) < Suc (ar_page_num a) \<longleftrightarrow> unat m < Suc (ar_page_num a) * ar_page_size a"
      using ps by (simp add: swArray_page_def div_less_iff_less_mult)
    moreover have "slice_at (calloc_bytes (ar_page_size a * ar_item_size a)) (swArray_offset a (unat m) * ar_item_size a)
        (ar_item_size a) = Some (calloc_bytes (ar_item_size a))"
      using ar_slot_in [OF ps, of "unat m"] by (simp add: slice_at_def calloc_bytes_def min_def)
    ultimately show ?thesis using ps unfolding ar_item_inv [OF inv'] ar_item_inv [OF assms(1)]
      by (auto simp: a'_def swArray_page_def swArray_offset_def nth_append not_less)
  qed
  with run inv' show ?thesis by (auto simp: a'_def)
qed

section \<open>Stores and appends\<close>

text \<open>Storing an item inside the array changes exactly that item: a later fetch of the index reads the
  stored bytes, every other index reads what it read before. Outside the array the store is refused
  and nothing changes.\<close>

theorem swArray_store_fetch:
  assumes "ar_inv a" and "length d = ar_item_size a" and "unat n < 2 ^ 31"
  shows "(if unat n < ar_page_num a * ar_page_size a
    then \<exists>a'. swArray_store a n d = Some (SW_OK, a') \<and> ar_inv a' \<and>
      (\<forall>m. ar_item a' m = (if m = n then Some d else ar_item a m))
    else swArray_store a n d = Some (SW_ERR, a))"
proof -
  have ps: "0 < ar_page_size a" using assms(1) by (simp add: ar_inv_def)
  show ?thesis
  proof (cases "unat n < ar_page_num a * ar_page_size a")
    case True
    then have "swArray_page a (unat n) < ar_page_num a" using ar_page_in [OF ps] by blast
    then show ?thesis using ar_put_item [OF assms(1) True assms(2)] True ps ar_page_small [OF assms(1), of "unat n"]
      by (auto simp: swArray_store_def Let_def ar_byte_inv [OF assms(1)])
  next
    case False
    then have "\<not> swArray_page a (unat n) < ar_page_num a" using ar_page_in [OF ps] by blast
    moreover have "swArray_page a (unat n) < 2 ^ 31"
      using assms(3) div_le_dividend [of "unat n" "ar_page_size a"] unfolding swArray_page_def by (rule le_less_trans [rotated])
    ultimately show ?thesis using False ps by (simp add: swArray_store_def Let_def)
  qed
qed

definition ar_demo :: sw_array where
  "ar_demo = \<lparr>ar_pages = [[0, 0, 0, 0]], ar_page_size = 2, ar_item_size = 2, ar_item_num = 0, ar_offset = 0\<rparr>"

theorem swArray_store_fetch_witness:
  "\<exists>a'. swArray_store ar_demo 1 [7, 8] = Some (SW_OK, a') \<and> ar_item a' 1 = Some [7, 8] \<and> ar_item a' 0 = Some [0, 0]"
proof -
  have "ar_inv ar_demo" by (simp add: ar_inv_def ar_demo_def SW_ARRAY_PAGE_MAX_def)
  moreover have "ar_item ar_demo 0 = Some [0, 0]"
    by (simp add: ar_item_def swArray_fetch_def ar_demo_def swArray_page_def swArray_offset_def ar_byte_def Let_def)
  ultimately show ?thesis using swArray_store_fetch [of ar_demo "[7, 8]" 1] by (auto simp: ar_demo_def)
qed

text \<open>The appended items, as long as no extension has failed.\<close>

definition ar_filled :: "sw_array \<Rightarrow> bool" where
  "ar_filled a \<longleftrightarrow> ar_inv a \<and> unat (ar_offset a) \<le> ar_page_num a * ar_page_size a"

definition ar_items :: "sw_array \<Rightarrow> bytes option list" where
  "ar_items a = map (\<lambda>i. ar_item a (of_nat i)) [0..<unat (ar_offset a)]"

lemma ar_capacity: "ar_inv a \<Longrightarrow> ar_page_num a * ar_page_size a \<le> 67107840"
proof -
  assume "ar_inv a"
  then have "ar_page_num a \<le> 1024" "ar_page_size a \<le> 65535" by (auto simp: ar_inv_def SW_ARRAY_PAGE_MAX_def)
  then have "ar_page_num a * ar_page_size a \<le> 1024 * 65535" by (rule mult_le_mono)
  then show ?thesis by simp
qed

lemma ar_item_fields [simp]:
  "ar_item (a\<lparr>ar_offset := k\<rparr>) m = ar_item a m" "ar_item (a\<lparr>ar_item_num := j\<rparr>) m = ar_item a m"
  by (simp_all add: ar_item_def swArray_fetch_def swArray_page_def swArray_offset_def ar_byte_def Let_def)

lemma ar_inv_fields [simp]:
  "ar_inv (a\<lparr>ar_offset := k\<rparr>) = ar_inv a" "ar_inv (a\<lparr>ar_item_num := j\<rparr>) = ar_inv a"
  by (simp_all add: ar_inv_def)

lemma swArray_slot_fields [simp]:
  "swArray_page (a\<lparr>ar_offset := k\<rparr>) n = swArray_page a n" "swArray_page (a\<lparr>ar_item_num := j\<rparr>) n = swArray_page a n"
  "swArray_offset (a\<lparr>ar_offset := k\<rparr>) n = swArray_offset a n"
  "swArray_offset (a\<lparr>ar_item_num := j\<rparr>) n = swArray_offset a n"
  "ar_byte (a\<lparr>ar_offset := k\<rparr>) n = ar_byte a n" "ar_byte (a\<lparr>ar_item_num := j\<rparr>) n = ar_byte a n"
  by (simp_all add: swArray_page_def swArray_offset_def ar_byte_def)

text \<open>Writing the next item into an array that covers it.\<close>

lemma ar_append_put:
  assumes inv: "ar_inv b" and n: "unat n < ar_page_num b * ar_page_size b" and d: "length d = ar_item_size b"
    and off: "ar_offset b = n + 1"
    and same: "\<And>m. unat m < unat n \<Longrightarrow> ar_item b m = ar_item a m" and off_a: "ar_offset a = n"
  shows "\<exists>a'. ar_put b (swArray_page b (unat n)) (swArray_offset b (unat n) * ar_item_size b) d = Some a' \<and>
    ar_filled a' \<and> ar_items a' = ar_items a @ [Some d]"
proof -
  have small: "unat n < 67107840" using n ar_capacity [OF inv] by linarith
  have suc: "unat (n + 1) = Suc (unat n)" using small by (simp add: unat_word_ariths)
  obtain a' where a': "ar_put b (swArray_page b (unat n)) (swArray_offset b (unat n) * ar_item_size b) d = Some a'"
    "ar_inv a'" "a' = b\<lparr>ar_pages := ar_pages a'\<rparr>" "ar_page_num a' = ar_page_num b"
    "\<And>m. ar_item a' m = (if m = n then Some d else ar_item b m)"
    using ar_put_item [OF inv n d] by blast
  have off': "ar_offset a' = n + 1" "ar_page_size a' = ar_page_size b" using a'(3) off
    by (metis sw_array.select_convs(5) sw_array.surjective sw_array.update_convs(1),
      metis sw_array.select_convs(2) sw_array.surjective sw_array.update_convs(1))
  have "ar_filled a'" using a'(2,4) off' suc n by (simp add: ar_filled_def)
  moreover have "ar_item a' (of_nat i) = ar_item a (of_nat i)" if "i < unat n" for i
  proof -
    have "unat (of_nat i :: u32) = i" using that small by (intro unat_u32) simp
    then show ?thesis using that a'(5) [of "of_nat i"] same [of "of_nat i"] by auto
  qed
  moreover have "ar_item a' (of_nat (unat n)) = Some d" using a'(5) by simp
  ultimately show ?thesis using a'(1) off' suc off_a by (simp add: ar_items_def)
qed

text \<open>A new array is empty and well formed, when its page size fits 16 bits and a page at most \<open>2 ^ 32\<close> bytes.\<close>

lemma swArray_new_filled:
  assumes "0 < ps" "ps < 2 ^ 16" "sz < 2 ^ 32" "nat ps * sz \<le> 2 ^ 32"
  shows "\<exists>a. swArray_new True True ok ps sz = Some a \<and> ar_filled a \<and> ar_items a = [] \<and> ar_item_size a = sz \<and> ar_page_size a = nat ps"
  using assms by (cases ok) (auto simp: swArray_new_def swArray_extend_def ar_filled_def ar_inv_def ar_items_def SW_ARRAY_PAGE_MAX_def)

text \<open>C24. The array is a list under append: in an array whose pages take at most \<open>2 ^ 32\<close> bytes each (the
  offset of an item is a 32-bit product), as long as a page is available or can be allocated, appending
  returns the old length and adds the item at the end, whatever page boundary is crossed.\<close>

theorem swArray_append_items:
  assumes "ar_filled a" and "length d = ar_item_size a"
    and "unat (ar_offset a) < ar_page_num a * ar_page_size a \<or> ar_page_num a < SW_ARRAY_PAGE_MAX"
  shows "\<exists>a'. swArray_append True a d = Some (int (length (ar_items a)), a') \<and> ar_filled a' \<and>
    ar_items a' = ar_items a @ [Some d]"
proof -
  let ?n = "ar_offset a" and ?a1 = "a\<lparr>ar_offset := ar_offset a + 1\<rparr>"
  have inv: "ar_inv a" and le: "unat ?n \<le> ar_page_num a * ar_page_size a" using assms(1) by (auto simp: ar_filled_def)
  have ps: "0 < ar_page_size a" using inv by (simp add: ar_inv_def)
  have "unat ?n \<le> 67107840" using le ar_capacity [OF inv] by linarith
  then have small: "\<not> unat ?n \<ge> 2 ^ 31" by simp
  have len: "length (ar_items a) = unat ?n" by (simp add: ar_items_def)
  show ?thesis
  proof (cases "unat ?n < ar_page_num a * ar_page_size a")
    case True
    then have pg: "\<not> ar_page_num a \<le> swArray_page a (unat ?n)" using ar_page_in [OF ps] by (simp add: not_le)
    have "\<exists>a'. ar_put (?a1\<lparr>ar_item_num := ar_item_num a + 1\<rparr>) (swArray_page a (unat ?n))
        (swArray_offset a (unat ?n) * ar_item_size a) d = Some a' \<and> ar_filled a' \<and> ar_items a' = ar_items a @ [Some d]"
      using ar_append_put [of "?a1\<lparr>ar_item_num := ar_item_num a + 1\<rparr>" ?n d a] inv True assms(2) by simp
    then show ?thesis using small ps pg len by (auto simp: swArray_append_def Let_def SW_OK_def ar_byte_inv [OF inv])
  next
    case False
    then have n: "unat ?n = ar_page_num a * ar_page_size a" and room: "ar_page_num a < SW_ARRAY_PAGE_MAX"
      using le assms(3) by auto
    obtain b where b: "swArray_extend True ?a1 = (SW_OK, b)" "ar_inv b" "b = ?a1\<lparr>ar_pages := ar_pages b\<rparr>"
      "ar_page_num b = Suc (ar_page_num a)"
      "\<And>m. ar_item b m = (if ar_page_num a * ar_page_size a \<le> unat m \<and> unat m < ar_page_num b * ar_page_size a
        then Some (calloc_bytes (ar_item_size a)) else ar_item a m)"
      using ar_extend_ok [of ?a1] inv room by auto
    have fields: "ar_page_size b = ar_page_size a" "ar_item_size b = ar_item_size a" "ar_offset b = ?n + 1"
      by (subst b(3), simp)+
    have slot: "swArray_page b = swArray_page a" "swArray_offset b = swArray_offset a"
      by (auto simp: swArray_page_def swArray_offset_def fields)
    have pg: "ar_page_num a \<le> swArray_page a (unat ?n)" using False ar_page_in [OF ps] leI by blast
    have "\<exists>a'. ar_put (b\<lparr>ar_item_num := ar_item_num b + 1\<rparr>) (swArray_page a (unat ?n))
        (swArray_offset a (unat ?n) * ar_item_size a) d = Some a' \<and> ar_filled a' \<and> ar_items a' = ar_items a @ [Some d]"
      using ar_append_put [of "b\<lparr>ar_item_num := ar_item_num b + 1\<rparr>" ?n d a] b(2,4,5) n ps assms(2)
      by (simp add: fields slot)
    then show ?thesis using small ps pg len b(1)
      by (auto simp: swArray_append_def Let_def SW_OK_def fields slot ar_byte_inv [OF b(2)])
  qed
qed

theorem swArray_append_items_witness:
  "\<exists>a'. swArray_append True (ar_demo\<lparr>ar_offset := 2\<rparr>) [7, 8] = Some (2, a') \<and> ar_filled a'"
proof -
  have "ar_filled (ar_demo\<lparr>ar_offset := 2\<rparr>)" by (simp add: ar_filled_def ar_inv_def ar_demo_def SW_ARRAY_PAGE_MAX_def)
  then show ?thesis using swArray_append_items [of "ar_demo\<lparr>ar_offset := 2\<rparr>" "[7, 8]"]
    by (auto simp: ar_demo_def SW_ARRAY_PAGE_MAX_def ar_items_def)
qed

text \<open>A failed extension has advanced the offset already. After as many failures as a page has items,
  the next append skips a page: it writes through a page pointer that was never set.\<close>

lemma swArray_append_after_failure:
  assumes "a = \<lparr>ar_pages = [[0]], ar_page_size = 1, ar_item_size = 1, ar_item_num = 1, ar_offset = 1\<rparr>"
  shows "\<exists>b. swArray_append False a [5] = Some (SW_ERR, b) \<and> swArray_append True b [5] = None"
  unfolding assms by (simp add: swArray_append_def swArray_extend_def swArray_page_def Let_def SW_ARRAY_PAGE_MAX_def
      SW_ERR_def SW_OK_def ar_put_def)

section \<open>Growing to an index\<close>

lemma swArray_alloc_loop_grows:
  assumes "ar_inv a" "n < SW_ARRAY_PAGE_MAX * ar_page_size a" "SW_ARRAY_PAGE_MAX \<le> ar_page_num a + length answers"
    and "list_all id answers"
  shows "\<exists>b. swArray_alloc_loop answers a n = Some (True, b) \<and> ar_inv b \<and> n < ar_page_num b * ar_page_size b \<and>
    ar_page_size b = ar_page_size a \<and> ar_item_size b = ar_item_size a \<and>
    (\<forall>m. unat m < ar_page_num a * ar_page_size a \<longrightarrow> ar_item b m = ar_item a m)"
  using assms
proof (induction answers arbitrary: a)
  case Nil
  then have "ar_page_num a = SW_ARRAY_PAGE_MAX" by (simp add: ar_inv_def)
  with Nil show ?case by simp
next
  case (Cons ok answers)
  show ?case
  proof (cases "n < ar_page_num a * ar_page_size a")
    case False
    then have ne: "ar_page_num a \<noteq> SW_ARRAY_PAGE_MAX" using Cons.prems(2) by auto
    then have room: "ar_page_num a < SW_ARRAY_PAGE_MAX" using Cons.prems(1) by (simp add: ar_inv_def)
    obtain b where b: "swArray_extend True a = (SW_OK, b)" "ar_inv b" "b = a\<lparr>ar_pages := ar_pages b\<rparr>"
      "ar_page_num b = Suc (ar_page_num a)"
      "\<And>m. ar_item b m = (if ar_page_num a * ar_page_size a \<le> unat m \<and> unat m < ar_page_num b * ar_page_size a
        then Some (calloc_bytes (ar_item_size a)) else ar_item a m)"
      using ar_extend_ok [OF Cons.prems(1) room] by auto
    have fields: "ar_page_size b = ar_page_size a" "ar_item_size b = ar_item_size a" by (subst b(3), simp)+
    have step: "swArray_alloc_loop (ok # answers) a n = swArray_alloc_loop answers b n"
      using False Cons.prems(4) b(1) by (simp add: SW_OK_def)
    have "\<exists>c. swArray_alloc_loop answers b n = Some (True, c) \<and> ar_inv c \<and> n < ar_page_num c * ar_page_size c \<and>
      ar_page_size c = ar_page_size b \<and> ar_item_size c = ar_item_size b \<and>
      (\<forall>m. unat m < ar_page_num b * ar_page_size b \<longrightarrow> ar_item c m = ar_item b m)"
      using Cons.prems b(2,4) fields by (intro Cons.IH) auto
    then show ?thesis unfolding step using b(4,5) fields by auto
  qed (use Cons.prems in simp)
qed

text \<open>With an allocator that answers, \<open>swArray_alloc\<close> returns the slot of any index an array can hold and
  keeps the items that were there.\<close>

lemma swArray_alloc_slot:
  assumes "ar_inv a" "unat n < SW_ARRAY_PAGE_MAX * ar_page_size a" "SW_ARRAY_PAGE_MAX \<le> ar_page_num a + length answers"
    and "list_all id answers"
  shows "\<exists>b. swArray_alloc answers a n = Some (Some (swArray_page a (unat n), swArray_offset a (unat n) * ar_item_size a), b) \<and>
    ar_inv b \<and> (\<forall>m. unat m < ar_page_num a * ar_page_size a \<longrightarrow> ar_item b m = ar_item a m)"
proof -
  obtain b where b: "swArray_alloc_loop answers a (unat n) = Some (True, b)" "ar_inv b" "unat n < ar_page_num b * ar_page_size b"
    "ar_page_size b = ar_page_size a" "ar_item_size b = ar_item_size a"
    "\<forall>m. unat m < ar_page_num a * ar_page_size a \<longrightarrow> ar_item b m = ar_item a m"
    using swArray_alloc_loop_grows [OF assms] by blast
  have ps: "0 < ar_page_size b" using b(2) by (simp add: ar_inv_def)
  have "swArray_page b (unat n) < ar_page_num b" using ar_page_in [OF ps] b(3) by blast
  then show ?thesis using b ps ar_page_small [OF b(2), of "unat n"]
    by (auto simp: swArray_alloc_def Let_def swArray_page_def swArray_offset_def ar_byte_inv [OF b(2)])
qed

end
