(* ===== verification/Sw_Utf8.thy ===== *)
theory Sw_Utf8
  imports Sw_Prelude
begin

unbundle bit_operations_syntax

text \<open>
  UTF-8 (\<open>swoole_utf8_decode\<close> and \<open>swoole_utf8_length\<close> of \<open>src/core/string.c\<close>). \<open>mem\<close> is the memory
  that may be read, from the first byte of the text on; positions are indices into it. \<open>None\<close> is a
  read outside it.
\<close>

section \<open>The decoder\<close>

text \<open>The loop over the continuation bytes: \<open>Inl\<close> is the early return.\<close>

fun utf8_tail :: "nat \<Rightarrow> bytes \<Rightarrow> nat \<Rightarrow> u32 \<Rightarrow> ((u32 + u32) \<times> nat) option" where
  "utf8_tail 0 mem p u = Some (Inr u, p)"
| "utf8_tail (Suc len) mem p u = do {
     b \<leftarrow> byte_at mem p;
     let i = ucast b;
     if i < 0x80 then Some (Inl 0xffffffff, p + 1)
     else utf8_tail len mem (p + 1) (push_bit 6 u OR (i AND 0x3f)) }"

text \<open>The bits, the bound and the number of continuation bytes the first byte announces.\<close>

definition utf8_lead :: "u32 \<Rightarrow> (u32 \<times> u32 \<times> nat) option" where
  "utf8_lead u =
     (if u \<ge> 0xf0 then Some (u AND 0x07, 0xffff, 3)
      else if u \<ge> 0xe0 then Some (u AND 0x0f, 0x7ff, 2)
      else if u \<ge> 0xc2 then Some (u AND 0x1f, 0x7f, 1)
      else None)"

text \<open>\<open>n - 1\<close> is unsigned: it is huge for \<open>n = 0\<close>.\<close>

definition swoole_utf8_decode :: "bytes \<Rightarrow> nat \<Rightarrow> nat \<Rightarrow> (u32 \<times> nat) option" where
  "swoole_utf8_decode mem p n = do {
     b \<leftarrow> byte_at mem p;
     case utf8_lead (ucast b) of
       None \<Rightarrow> Some (0xffffffff, p + 1)
     | Some (u, valid, len) \<Rightarrow>
         if n \<noteq> 0 \<and> n - 1 < len then Some (0xfffffffe, p)
         else do {
           (r, p') \<leftarrow> utf8_tail len mem (p + 1) u;
           case r of
             Inl e \<Rightarrow> Some (e, p')
           | Inr v \<Rightarrow> Some (if v > valid then v else 0xffffffff, p') } }"

text \<open>The counter passes the length of the whole text to the decoder at every position.\<close>

lemma utf8_tail_advances: "utf8_tail len mem p u = Some (r, p') \<Longrightarrow> p \<le> p'"
proof (induction len arbitrary: p u)
  case (Suc len)
  then show ?case by (cases "byte_at mem p") (auto simp: Let_def split: if_splits dest: Suc.IH)
qed simp

lemma utf8_decode_advances:
  assumes "swoole_utf8_decode mem p n = Some (u, p')" "\<not> u > 0x10ffff"
  shows "p < p'"
proof -
  obtain b where b: "byte_at mem p = Some b" using assms(1) by (cases "byte_at mem p") (auto simp: swoole_utf8_decode_def)
  show ?thesis
  proof (cases "utf8_lead (ucast b)")
    case None
    then show ?thesis using assms(1) b by (simp add: swoole_utf8_decode_def)
  next
    case (Some l)
    obtain v valid len where l: "l = (v, valid, len)" by (cases l) auto
    show ?thesis
    proof (cases "n \<noteq> 0 \<and> n - 1 < len")
      case True
      then show ?thesis using assms b Some l by (auto simp: swoole_utf8_decode_def)
    next
      case False
      then obtain r q where q: "utf8_tail len mem (p + 1) v = Some (r, q)" "q = p'"
        using assms(1) b Some l
        by (cases "utf8_tail len mem (p + 1) v") (auto simp: swoole_utf8_decode_def split: sum.splits if_splits)
      then show ?thesis using utf8_tail_advances [OF q(1)] by simp
    qed
  qed
qed

function swoole_utf8_length_loop :: "bytes \<Rightarrow> nat \<Rightarrow> nat \<Rightarrow> nat \<Rightarrow> nat option" where
  "swoole_utf8_length_loop mem n p len =
     (if p < n then
        (case byte_at mem p of
           None \<Rightarrow> None
         | Some c \<Rightarrow>
             if c < 0x80 then swoole_utf8_length_loop mem n (p + 1) (len + 1)
             else (case swoole_utf8_decode mem p n of
                None \<Rightarrow> None
              | Some (u, p') \<Rightarrow> if u > 0x10ffff then Some n else swoole_utf8_length_loop mem n p' (len + 1)))
      else Some len)"
  by pat_completeness auto
termination
proof (relation "measure (\<lambda>(mem, n, p, len). n - p)", goal_cases)
  case (3 mem n p len c z u p')
  then have "p < p'" using utf8_decode_advances by blast
  with 3 show ?case by auto
qed auto

declare swoole_utf8_length_loop.simps [simp del]

definition swoole_utf8_length :: "bytes \<Rightarrow> nat \<Rightarrow> nat option" where
  "swoole_utf8_length mem n = swoole_utf8_length_loop mem n 0 0"

section \<open>The encoding\<close>

text \<open>The reference: the bytes of a code point.\<close>

definition utf8_encode :: "nat \<Rightarrow> bytes" where
  "utf8_encode cp =
     (if cp < 0x80 then [of_nat cp]
      else if cp < 0x800 then [of_nat (0xc0 + cp div 64), of_nat (0x80 + cp mod 64)]
      else if cp < 0x10000 then
        [of_nat (0xe0 + cp div 4096), of_nat (0x80 + cp div 64 mod 64), of_nat (0x80 + cp mod 64)]
      else
        [of_nat (0xf0 + cp div 262144), of_nat (0x80 + cp div 4096 mod 64), of_nat (0x80 + cp div 64 mod 64),
         of_nat (0x80 + cp mod 64)])"

text \<open>Bits and arithmetic: shifting by six and or-ing the low six bits of a byte.\<close>

lemma unat_low6: "unat ((i :: u32) AND 0x3f) = unat i mod 64"
proof -
  have "i AND 0x3f = take_bit 6 i" by (simp add: take_bit_eq_mask mask_numeral)
  then show ?thesis by (simp add: take_bit_eq_mod unat_mod)
qed

lemma unat_shift_or:
  fixes u i :: u32
  assumes "unat u < 2 ^ 26"
  shows "unat (push_bit 6 u OR (i AND 0x3f)) = 64 * unat u + unat i mod 64"
proof -
  have "push_bit 6 u OR (i AND 0x3f) = push_bit 6 u + take_bit 6 i"
  proof -
    have "i AND 0x3f = take_bit 6 i" by (simp add: take_bit_eq_mask mask_numeral)
    moreover have "push_bit 6 u + take_bit 6 i = push_bit 6 u OR take_bit 6 i"
      by (rule disjunctive_add) (auto simp: bit_simps)
    ultimately show ?thesis by simp
  qed
  moreover have "unat (push_bit 6 u) = 64 * unat u"
    using assms by (simp add: push_bit_eq_mult unat_word_ariths)
  moreover have "unat (take_bit 6 i) = unat i mod 64" by (simp add: take_bit_eq_mod unat_mod)
  moreover have "64 * unat u + unat i mod 64 < 2 ^ 32" using assms mod_less_divisor [of 64 "unat i"] by simp
  ultimately show ?thesis by (simp add: unat_word_ariths)
qed

lemma ucast_byte: "k < 256 \<Longrightarrow> (ucast (of_nat k :: u8) :: u32) = of_nat k"
  by (simp add: word_unat_eq_iff unat_of_nat unsigned_ucast_eq take_bit_eq_mod)

lemma utf8_byte_less: "k < 256 \<Longrightarrow> (of_nat k :: u32) < of_nat m \<longleftrightarrow> k < m" if "m < 2 ^ 32"
  using that by (simp add: word_less_nat_alt unat_of_nat)

definition utf8_cont :: "nat \<Rightarrow> u8" where
  "utf8_cont c = of_nat (0x80 + c)"

lemma utf8_tail_conts:
  assumes "\<forall>c\<in>set cs. c < 64" "(unat u + 1) * 64 ^ length cs \<le> 2 ^ 32"
  shows "\<exists>v. utf8_tail (length cs) (pre @ map utf8_cont cs @ post) (length pre) u = Some (Inr v, length pre + length cs) \<and>
    unat v = foldl (\<lambda>a c. 64 * a + c) (unat u) cs"
  using assms
proof (induction cs arbitrary: pre u)
  case (Cons c cs)
  have c: "c < 64" using Cons.prems(1) by simp
  have "(unat u + 1) * 64 \<le> (unat u + 1) * (64 * 64 ^ length cs)" by (intro mult_le_mono2) simp
  also have "\<dots> \<le> 2 ^ 32" using Cons.prems(2) unfolding length_Cons power_Suc .
  finally have u: "unat u < 2 ^ 26" by simp
  let ?i = "of_nat (0x80 + c) :: u32"
  have i: "(ucast (utf8_cont c) :: u32) = ?i" unfolding utf8_cont_def using c by (intro ucast_byte) simp
  have ui: "unat ?i = 0x80 + c" using c by (intro unat_u32) simp
  have ge: "\<not> ?i < 0x80" using ui by (simp add: word_less_nat_alt)
  let ?u = "push_bit 6 u OR (?i AND 0x3f)"
  have "(0x80 + c) mod 64 = c" using c mod_mult_self2 [of c 64 2] by (simp add: add.commute)
  then have u': "unat ?u = 64 * unat u + c" using unat_shift_or [OF u, of ?i] ui by simp
  have "(unat ?u + 1) * 64 ^ length cs \<le> ((unat u + 1) * 64) * 64 ^ length cs"
    unfolding u' using c by (intro mult_le_mono1) simp
  also have "\<dots> \<le> 2 ^ 32" using Cons.prems(2) unfolding length_Cons power_Suc mult.assoc .
  finally have le: "(unat ?u + 1) * 64 ^ length cs \<le> 2 ^ 32" .
  have "\<exists>v. utf8_tail (length cs) ((pre @ [utf8_cont c]) @ map utf8_cont cs @ post) (length (pre @ [utf8_cont c])) ?u =
      Some (Inr v, length (pre @ [utf8_cont c]) + length cs) \<and> unat v = foldl (\<lambda>a c. 64 * a + c) (unat ?u) cs"
    using Cons.prems(1) by (intro Cons.IH [OF _ le]) simp
  moreover have "utf8_tail (length (c # cs)) (pre @ map utf8_cont (c # cs) @ post) (length pre) u =
      utf8_tail (length cs) (pre @ map utf8_cont (c # cs) @ post) (length pre + 1) ?u"
    using i ge by (simp add: Let_def)
  ultimately show ?case using u' by simp
qed simp

lemma utf8_lead_byte:
  assumes "k < 256"
  shows "utf8_lead (ucast (of_nat k :: u8)) =
    (if k \<ge> 0xf0 then Some (of_nat (k mod 8), 0xffff, 3)
     else if k \<ge> 0xe0 then Some (of_nat (k mod 16), 0x7ff, 2)
     else if k \<ge> 0xc2 then Some (of_nat (k mod 32), 0x7f, 1)
     else None)"
proof -
  let ?k = "of_nat k :: u32"
  have uk: "unat ?k = k" using assms by (intro unat_u32) simp
  have low: "?k AND mask j = of_nat (k mod 2 ^ j)" for j
  proof -
    have "?k AND mask j = take_bit j ?k" by (simp add: take_bit_eq_mask)
    also have "\<dots> = of_nat (take_bit j k)" by (simp add: take_bit_of_nat)
    finally show ?thesis by (simp add: take_bit_eq_mod)
  qed
  have "?k AND 0x07 = of_nat (k mod 8)" "?k AND 0x0f = of_nat (k mod 16)" "?k AND 0x1f = of_nat (k mod 32)"
    using low [of 3] low [of 4] low [of 5] by (simp_all add: mask_numeral)
  then show ?thesis using assms uk
    by (simp add: utf8_lead_def ucast_byte word_le_nat_alt)
qed

text \<open>A sequence of more than one byte is its lead byte and its continuation bytes.\<close>

definition utf8_parts :: "nat \<Rightarrow> nat \<times> nat list" where
  "utf8_parts cp =
     (if cp < 0x800 then (0xc0 + cp div 64, [cp mod 64])
      else if cp < 0x10000 then (0xe0 + cp div 4096, [cp div 64 mod 64, cp mod 64])
      else (0xf0 + cp div 262144, [cp div 4096 mod 64, cp div 64 mod 64, cp mod 64]))"

lemma utf8_encode_parts:
  "0x80 \<le> cp \<Longrightarrow> utf8_encode cp = of_nat (fst (utf8_parts cp)) # map utf8_cont (snd (utf8_parts cp))"
  by (simp add: utf8_encode_def utf8_parts_def utf8_cont_def)

lemma utf8_parts_lead:
  assumes "0x80 \<le> cp" "cp < 0x110000"
  obtains u valid where
    "utf8_lead (ucast (of_nat (fst (utf8_parts cp)) :: u8)) = Some (of_nat u, of_nat valid, length (snd (utf8_parts cp)))"
    "u < 32" "(u + 1) * 64 ^ length (snd (utf8_parts cp)) \<le> 2 ^ 32"
    "foldl (\<lambda>a c. 64 * a + c) u (snd (utf8_parts cp)) = cp" "valid < cp" "valid < 2 ^ 16"
proof -
  have low32: "(0xc0 + q) mod 32 = q" if "q < 32" for q :: nat using that mod_mult_self2 [of q 32 6] by (simp add: add.commute)
  have low16: "(0xe0 + q) mod 16 = q" if "q < 16" for q :: nat using that mod_mult_self2 [of q 16 14] by (simp add: add.commute)
  have low8: "(0xf0 + q) mod 8 = q" if "q < 8" for q :: nat using that mod_mult_self2 [of q 8 30] by (simp add: add.commute)
  have split: "64 * (a div 64) + a mod 64 = a" for a :: nat by simp
  have d: "cp div 4096 = cp div 64 div 64" "cp div 262144 = cp div 64 div 64 div 64" by (simp_all add: div_mult2_eq [symmetric])
  consider "cp < 0x800" | "0x800 \<le> cp" "cp < 0x10000" | "0x10000 \<le> cp" by linarith
  then show thesis
  proof cases
    case 1
    have k: "0xc0 + cp div 64 < 256" "0xc2 \<le> 0xc0 + cp div 64" "0xc0 + cp div 64 < 0xe0" using 1 assms by auto
    have "(0xc0 + cp div 64) mod 32 = cp div 64" using 1 low32 [of "cp div 64"] by simp
    then show thesis using 1 assms k that [of "cp div 64" "0x7f"] utf8_lead_byte [OF k(1)] by (simp add: utf8_parts_def)
  next
    case 2
    have k: "0xe0 + cp div 4096 < 256" "0xe0 \<le> 0xe0 + cp div 4096" "0xe0 + cp div 4096 < 0xf0" using 2 by auto
    have m: "(0xe0 + cp div 4096) mod 16 = cp div 4096" using 2 low16 [of "cp div 4096"] by simp
    have f: "64 * (64 * (cp div 4096) + cp div 64 mod 64) + cp mod 64 = cp" by (simp only: d split)
    show thesis using 2 k m f that [of "cp div 4096" "0x7ff"] utf8_lead_byte [OF k(1)] by (simp add: utf8_parts_def)
  next
    case 3
    have k: "0xf0 + cp div 262144 < 256" "0xf0 \<le> 0xf0 + cp div 262144" using assms(2) by auto
    have m: "(0xf0 + cp div 262144) mod 8 = cp div 262144" using assms(2) low8 [of "cp div 262144"] by simp
    have f: "64 * (64 * (64 * (cp div 262144) + cp div 4096 mod 64) + cp div 64 mod 64) + cp mod 64 = cp" by (simp only: d split)
    show thesis using 3 assms(2) k m f that [of "cp div 262144" "0xffff"] utf8_lead_byte [OF k(1)] by (simp add: utf8_parts_def)
  qed
qed

lemma utf8_decode_encoded:
  assumes "0x80 \<le> cp" "cp < 0x110000" "length (utf8_encode cp) \<le> n"
  shows "swoole_utf8_decode (pre @ utf8_encode cp @ post) (length pre) n = Some (of_nat cp, length pre + length (utf8_encode cp))"
proof -
  define k cs where "k = fst (utf8_parts cp)" and "cs = snd (utf8_parts cp)"
  have enc: "utf8_encode cp = of_nat k # map utf8_cont cs" using utf8_encode_parts [OF assms(1)] by (simp add: k_def cs_def)
  have k: "k < 256" and cs: "\<forall>c\<in>set cs. c < 64" using assms(2) by (auto simp: k_def cs_def utf8_parts_def)
  obtain u valid where lead: "utf8_lead (ucast (of_nat k :: u8)) = Some (of_nat u, of_nat valid, length cs)"
    and u: "u < 32" "(u + 1) * 64 ^ length cs \<le> 2 ^ 32" "foldl (\<lambda>a c. 64 * a + c) u cs = cp" and valid: "valid < cp" "valid < 2 ^ 16"
    using utf8_parts_lead [OF assms(1,2)] unfolding k_def cs_def by blast
  have uu: "unat (of_nat u :: u32) = u" using u(1) by (intro unat_u32) simp
  obtain v where v: "utf8_tail (length cs) ((pre @ [of_nat k]) @ map utf8_cont cs @ post) (length (pre @ [of_nat k])) (of_nat u) =
      Some (Inr v, length (pre @ [of_nat k :: u8]) + length cs)" "unat v = cp"
    using utf8_tail_conts [OF cs, of "of_nat u" "pre @ [of_nat k]" post] u uu by auto
  let ?mem = "pre @ utf8_encode cp @ post"
  have mem: "(pre @ [of_nat k]) @ map utf8_cont cs @ post = ?mem" by (simp add: enc)
  have len: "length (pre @ [of_nat k :: u8]) + length cs = length pre + length (utf8_encode cp)" by (simp add: enc)
  have tail: "utf8_tail (length cs) ?mem (length pre + 1) (of_nat u) = Some (Inr v, length pre + length (utf8_encode cp))"
    using v(1) unfolding mem len by simp
  have first: "byte_at ?mem (length pre) = Some (of_nat k)" by (simp add: enc byte_at_def)
  have "v = of_nat cp" unfolding v(2) [symmetric] by simp
  moreover have "v > of_nat valid" using v(2) valid by (simp add: word_less_nat_alt unat_of_nat)
  moreover have "\<not> (n \<noteq> 0 \<and> n - 1 < length cs)" using assms(3) enc by auto
  ultimately show ?thesis unfolding swoole_utf8_decode_def first bind.simps lead option.case prod.case
    by (simp only: if_False tail bind.simps prod.case sum.case if_True)
qed

text \<open>On text that is the encoding of code points the counter counts them, and reads nothing else.\<close>

lemma utf8_encode_first: "cp < 0x80 \<Longrightarrow> utf8_encode cp = [of_nat cp]"
  by (simp add: utf8_encode_def)

lemma utf8_length_encoded:
  assumes "\<forall>cp\<in>set cps. cp < 0x110000" "n = length pre + length (concat (map utf8_encode cps))"
  shows "swoole_utf8_length_loop (pre @ concat (map utf8_encode cps)) n (length pre) k = Some (k + length cps)"
  using assms
proof (induction cps arbitrary: pre k)
  case Nil
  then show ?case by (simp add: swoole_utf8_length_loop.simps)
next
  case (Cons cp cps)
  let ?rest = "concat (map utf8_encode cps)" and ?enc = "utf8_encode cp"
  let ?mem = "pre @ concat (map utf8_encode (cp # cps))"
  have cp: "cp < 0x110000" using Cons.prems(1) by simp
  have n: "n = length pre + length ?enc + length ?rest" using Cons.prems(2) by simp
  have ih: "swoole_utf8_length_loop ?mem n (length pre + length ?enc) (k + 1) = Some (k + length (cp # cps))"
    using Cons.IH [of "pre @ ?enc" "k + 1"] Cons.prems(1) n by simp
  show ?case
  proof (cases "cp < 0x80")
    case True
    have enc: "?enc = [of_nat cp]" using True by (rule utf8_encode_first)
    have "(of_nat cp :: u8) < 0x80" using True by (simp add: word_less_nat_alt unat_of_nat)
    then show ?thesis using ih n enc
      by (subst swoole_utf8_length_loop.simps) (simp add: byte_at_def)
  next
    case False
    then have dec: "swoole_utf8_decode ?mem (length pre) n = Some (of_nat cp, length pre + length ?enc)"
      using utf8_decode_encoded [of cp n pre ?rest] cp n by simp
    have small: "\<not> (of_nat cp :: u32) > 0x10ffff" using cp by (simp add: word_less_nat_alt unat_of_nat)
    define b where "b = (of_nat (fst (utf8_parts cp)) :: u8)"
    have enc: "?enc = b # map utf8_cont (snd (utf8_parts cp))" unfolding b_def using False by (intro utf8_encode_parts) simp
    have "fst (utf8_parts cp) < 256" "0x80 \<le> fst (utf8_parts cp)" using cp False by (auto simp: utf8_parts_def)
    then have "\<not> b < 0x80" unfolding b_def by (simp add: word_less_nat_alt unat_of_nat)
    moreover have "byte_at ?mem (length pre) = Some b" by (simp add: enc byte_at_def)
    moreover have "length pre < n" using n enc by simp
    ultimately show ?thesis using ih dec small by (subst swoole_utf8_length_loop.simps) simp
  qed
qed

text \<open>C27. Decoding is the inverse of encoding for every code point outside ASCII, and the length of an encoded
  text is the number of its code points; nothing outside the text is read.\<close>

theorem swoole_utf8_roundtrip:
  assumes "\<forall>cp\<in>set cps. cp < 0x110000"
  shows "swoole_utf8_length (concat (map utf8_encode cps)) (length (concat (map utf8_encode cps))) = Some (length cps) \<and>
    (\<forall>cp\<in>set cps. 0x80 \<le> cp \<longrightarrow>
      swoole_utf8_decode (utf8_encode cp) 0 (length (utf8_encode cp)) = Some (of_nat cp, length (utf8_encode cp)))"
proof
  show "swoole_utf8_length (concat (map utf8_encode cps)) (length (concat (map utf8_encode cps))) = Some (length cps)"
    using utf8_length_encoded [OF assms, of _ "[]" 0] by (simp add: swoole_utf8_length_def)
  show "\<forall>cp\<in>set cps. 0x80 \<le> cp \<longrightarrow>
      swoole_utf8_decode (utf8_encode cp) 0 (length (utf8_encode cp)) = Some (of_nat cp, length (utf8_encode cp))"
    using assms utf8_decode_encoded [of _ _ "[]" "[]"] by simp
qed

theorem swoole_utf8_roundtrip_witness:
  "swoole_utf8_length [65, 0xe4, 0xb8, 0xad] (length [65, 0xe4, 0xb8, 0xad :: u8]) = Some (length [65, 0x4e2d :: nat])"
  using swoole_utf8_roundtrip [of "[65, 0x4e2d]"] by (simp add: utf8_encode_def)

text \<open>At a truncated sequence the length of the whole text is no bound: the read leaves the text.\<close>

lemma swoole_utf8_length_overrun: "swoole_utf8_length [65, 65, 0xe4] 3 = None"
proof -
  have lead: "utf8_lead (ucast (0xe4 :: u8)) = Some (4, 0x7ff, 2)"
    using utf8_lead_byte [of "0xe4"] by simp
  have tail: "utf8_tail 2 [65, 65, 0xe4] 3 4 = None"
    by (subst Suc_1 [symmetric], subst utf8_tail.simps(2)) (simp add: byte_at_def)
  have "swoole_utf8_decode [65, 65, 0xe4] 2 3 = None"
    using lead tail by (simp add: swoole_utf8_decode_def byte_at_def)
  then have "swoole_utf8_length_loop [65, 65, 0xe4] 3 2 2 = None"
    by (subst swoole_utf8_length_loop.simps) (simp add: byte_at_def)
  moreover have "swoole_utf8_length_loop [65, 65, 0xe4] 3 0 0 = swoole_utf8_length_loop [65, 65, 0xe4] 3 1 1"
    by (subst swoole_utf8_length_loop.simps) (simp add: byte_at_def)
  moreover have "swoole_utf8_length_loop [65, 65, 0xe4] 3 1 1 = swoole_utf8_length_loop [65, 65, 0xe4] 3 2 2"
    by (subst swoole_utf8_length_loop.simps) (simp add: byte_at_def numeral_2_eq_2 [symmetric])
  ultimately show ?thesis by (simp add: swoole_utf8_length_def)
qed

end
