(* ===== verification/Sw_Channel.thy ===== *)
theory Sw_Channel
  imports Sw_Interfaces
begin

unbundle bit_operations_syntax

text \<open>
  The channel (\<open>src/core/Channel.c\<close>): a ring of messages of different lengths in one block of memory.
  Each message is stored as its length in four bytes followed by its bytes; a message that starts
  inside the ring may end behind it, in an overflow space, and the next one then starts at 0 again. Two
  tags count the laps of the two ends modulo two. \<open>None\<close> is a failed assertion or an access outside the
  block; the lock of \<open>swChannel_push\<close> and \<open>swChannel_pop\<close> makes them atomic.
\<close>

section \<open>The structure and its operations\<close>

record sw_channel =
  ch_head :: nat
  ch_tail :: nat
  ch_size :: nat
  ch_head_tag :: nat
  ch_tail_tag :: nat
  ch_num :: nat
  ch_flag :: u32
  ch_maxlen :: nat
  ch_mem :: bytes

definition SW_CHAN_LOCK :: u32 where "SW_CHAN_LOCK = 2"
definition SW_CHANNEL_MIN_MEM :: nat where "SW_CHANNEL_MIN_MEM = 1024 * 64"

text \<open>The block of \<open>sz\<close> bytes holds the structure itself (\<open>hdr\<close> bytes) before the ring; the ring gets the
  rest. \<open>raw\<close> is what the block contains; \<open>lock_ok\<close> and \<open>notify_ok\<close> are the answers of the lock and of the
  pipe, where the flags ask for them.\<close>

definition swChannel_new ::
  "nat \<Rightarrow> bytes option \<Rightarrow> bool \<Rightarrow> bool \<Rightarrow> nat \<Rightarrow> nat \<Rightarrow> u32 \<Rightarrow> sw_channel option option" where
  "swChannel_new hdr raw lock_ok notify_ok sz maxlen flag =
     (if \<not> sz > SW_CHANNEL_MIN_MEM + maxlen then None
      else case raw of
        None \<Rightarrow> Some None
      | Some blk \<Rightarrow>
          if \<not> lock_ok \<or> \<not> notify_ok then Some None
          else Some (Some \<lparr>ch_head = 0, ch_tail = 0, ch_size = sz - maxlen, ch_head_tag = 0, ch_tail_tag = 0, ch_num = 0,
            ch_flag = flag, ch_maxlen = maxlen, ch_mem = drop hdr blk\<rparr>))"

definition swChannel_empty :: "sw_channel \<Rightarrow> bool" where
  "swChannel_empty q \<longleftrightarrow> ch_num q = 0"

definition swChannel_full :: "sw_channel \<Rightarrow> bool" where
  "swChannel_full q \<longleftrightarrow> ch_head q = ch_tail q \<and> ch_tail_tag q \<noteq> ch_head_tag q"

text \<open>A message in memory.\<close>

definition ch_enc :: "bytes \<Rightarrow> bytes" where
  "ch_enc x = le_bytes 4 (length x) @ x"

definition swChannel_in :: "sw_channel \<Rightarrow> bytes \<Rightarrow> (int \<times> sw_channel) option" where
  "swChannel_in q inp =
     (if \<not> length inp < ch_maxlen q then None
      else if swChannel_full q then Some (SW_ERR, q)
      else
        let msize = 4 + length inp; item = ch_tail q in
        if ch_tail q < ch_head q then
          (if ch_head q - ch_tail q < msize then Some (SW_ERR, q)
           else do {
             m \<leftarrow> put_at (ch_mem q) item (ch_enc inp);
             Some (SW_OK, q\<lparr>ch_tail := ch_tail q + msize, ch_num := ch_num q + 1, ch_mem := m\<rparr>) })
        else do {
          m \<leftarrow> put_at (ch_mem q) item (ch_enc inp);
          let q = q\<lparr>ch_tail := ch_tail q + msize\<rparr>;
          let q = (if ch_tail q \<ge> ch_size q then q\<lparr>ch_tail := 0, ch_tail_tag := 1 - ch_tail_tag q\<rparr> else q);
          Some (SW_OK, q\<lparr>ch_num := ch_num q + 1, ch_mem := m\<rparr>) })"

definition swChannel_out :: "sw_channel \<Rightarrow> nat \<Rightarrow> (int \<times> bytes \<times> sw_channel) option" where
  "swChannel_out q buffer_length =
     (if swChannel_empty q then Some (SW_ERR, [], q)
      else do {
        l \<leftarrow> slice_at (ch_mem q) (ch_head q) 4;
        let len = le_value l;
        (if \<not> buffer_length \<ge> len then None else Some ());
        out \<leftarrow> slice_at (ch_mem q) (ch_head q + 4) len;
        let q = q\<lparr>ch_head := ch_head q + (len + 4)\<rparr>;
        let q = (if ch_head q \<ge> ch_size q then q\<lparr>ch_head := 0, ch_head_tag := 1 - ch_head_tag q\<rparr> else q);
        Some (int len, out, q\<lparr>ch_num := ch_num q - 1\<rparr>) })"

definition swChannel_push :: "sw_channel \<Rightarrow> bytes \<Rightarrow> (int \<times> sw_channel) option" where
  "swChannel_push q inp = (if ch_flag q AND SW_CHAN_LOCK = 0 then None else swChannel_in q inp)"

definition swChannel_pop :: "sw_channel \<Rightarrow> nat \<Rightarrow> (int \<times> bytes \<times> sw_channel) option" where
  "swChannel_pop q buffer_length = (if ch_flag q AND SW_CHAN_LOCK = 0 then None else swChannel_out q buffer_length)"

section \<open>Layout of the messages\<close>

definition stored :: "bytes \<Rightarrow> nat \<Rightarrow> bytes \<Rightarrow> bool" where
  "stored m p x \<longleftrightarrow> slice_at m p (length (ch_enc x)) = Some (ch_enc x) \<and> length x < 256 ^ 4"

text \<open>\<open>run m p xs e\<close>: the messages \<open>xs\<close> stand one after the other from \<open>p\<close> to \<open>e\<close>. \<open>lap m sz p xs\<close>: they run from \<open>p\<close>
  to the end of the ring, the last one starting inside it and ending at or behind \<open>sz\<close>.\<close>

fun run :: "bytes \<Rightarrow> nat \<Rightarrow> bytes list \<Rightarrow> nat \<Rightarrow> bool" where
  "run m p [] e \<longleftrightarrow> p = e"
| "run m p (x # xs) e \<longleftrightarrow> stored m p x \<and> run m (p + 4 + length x) xs e"

fun lap :: "bytes \<Rightarrow> nat \<Rightarrow> nat \<Rightarrow> bytes list \<Rightarrow> bool" where
  "lap m sz p [] \<longleftrightarrow> False"
| "lap m sz p (x # xs) \<longleftrightarrow> stored m p x \<and>
     (if p + 4 + length x \<ge> sz then xs = [] else lap m sz (p + 4 + length x) xs)"

text \<open>The tags agree while both ends are in the same lap.\<close>

definition ch_rep :: "sw_channel \<Rightarrow> bytes list \<Rightarrow> bool" where
  "ch_rep q xs \<longleftrightarrow> ch_head q < ch_size q \<and> ch_tail q < ch_size q \<and> ch_num q = length xs \<and>
     ch_head_tag q \<le> 1 \<and> ch_tail_tag q \<le> 1 \<and>
     (if ch_head_tag q = ch_tail_tag q then run (ch_mem q) (ch_head q) xs (ch_tail q)
      else ch_tail q \<le> ch_head q \<and>
        (\<exists>ys zs. xs = ys @ zs \<and> lap (ch_mem q) (ch_size q) (ch_head q) ys \<and> run (ch_mem q) 0 zs (ch_tail q)))"

lemma length_ch_enc [simp]: "length (ch_enc x) = 4 + length x"
  by (simp add: ch_enc_def)

lemma stored_put: "put_at m p (ch_enc x) = Some m' \<Longrightarrow> length x < 256 ^ 4 \<Longrightarrow> stored m' p x"
  unfolding stored_def using slice_put_same [of m p "ch_enc x" m'] by simp

lemma stored_keep:
  "put_at m i d = Some m' \<Longrightarrow> p + 4 + length x \<le> i \<or> i + length d \<le> p \<Longrightarrow> stored m' p x = stored m p x"
  unfolding stored_def using slice_put_other [of m i d m' p "length (ch_enc x)"] by (simp add: add.assoc)

lemma run_le: "run m p xs e \<Longrightarrow> p \<le> e"
  by (induction xs arbitrary: p) force+

lemma run_keep:
  "put_at m i d = Some m' \<Longrightarrow> run m p xs e \<Longrightarrow> e \<le> i \<or> i + length d \<le> p \<Longrightarrow> run m' p xs e"
proof (induction xs arbitrary: p)
  case (Cons x xs)
  have e: "p + 4 + length x \<le> e" using Cons.prems(2) by (auto dest: run_le)
  have "run m' (p + 4 + length x) xs e" using Cons e by (intro Cons.IH) auto
  moreover have "stored m' p x" using stored_keep [OF Cons.prems(1), of p x] Cons.prems(2,3) e by auto
  ultimately show ?case by simp
qed simp

lemma lap_keep: "put_at m i d = Some m' \<Longrightarrow> lap m sz p xs \<Longrightarrow> i + length d \<le> p \<Longrightarrow> lap m' sz p xs"
proof (induction xs arbitrary: p)
  case (Cons x xs)
  have "stored m' p x" using stored_keep [OF Cons.prems(1), of p x] Cons.prems by auto
  moreover have "lap m' sz (p + 4 + length x) xs" if "\<not> p + 4 + length x \<ge> sz" using that Cons by (intro Cons.IH) auto
  ultimately show ?case using Cons.prems(2) by auto
qed simp

lemma run_snoc: "run m p xs e \<Longrightarrow> stored m e x \<Longrightarrow> run m p (xs @ [x]) (e + 4 + length x)"
  by (induction xs arbitrary: p) auto

lemma run_lap: "run m p xs e \<Longrightarrow> e < sz \<Longrightarrow> stored m e x \<Longrightarrow> sz \<le> e + 4 + length x \<Longrightarrow> lap m sz p (xs @ [x])"
proof (induction xs arbitrary: p)
  case (Cons y xs)
  then have "p + 4 + length y \<le> e" by (auto dest: run_le)
  with Cons show ?case by auto
qed auto

text \<open>The bytes messages take in the ring.\<close>

definition ch_bytes :: "bytes list \<Rightarrow> nat" where
  "ch_bytes xs = sum_list (map (\<lambda>x. 4 + length x) xs)"

lemma ch_bytes_simps [simp]: "ch_bytes [] = 0" "ch_bytes (x # xs) = 4 + length x + ch_bytes xs" "ch_bytes (xs @ ys) = ch_bytes xs + ch_bytes ys"
  by (simp_all add: ch_bytes_def)

lemma run_bytes: "run m p xs e \<Longrightarrow> e = p + ch_bytes xs"
  by (induction xs arbitrary: p) force+

lemma lap_bytes: "lap m sz p xs \<Longrightarrow> sz \<le> p + ch_bytes xs"
  by (induction xs arbitrary: p) (force split: if_splits)+

section \<open>Pushing\<close>

lemma swChannel_in_rep:
  assumes rep: "ch_rep q xs" and short: "length x < ch_maxlen q" "length x < 256 ^ 4"
    and room: "ch_tail q + 4 + length x \<le> length (ch_mem q)"
  shows "\<exists>r q'. swChannel_in q x = Some (r, q') \<and>
    (r = SW_OK \<and> ch_rep q' (xs @ [x]) \<or> r = SW_ERR \<and> q' = q \<and> ch_size q < ch_bytes xs + 4 + length x) \<and>
    length (ch_mem q') = length (ch_mem q) \<and> ch_maxlen q' = ch_maxlen q \<and> ch_size q' = ch_size q \<and> ch_flag q' = ch_flag q"
proof -
  obtain m where m: "put_at (ch_mem q) (ch_tail q) (ch_enc x) = Some m" using room by (auto simp: put_at_def)
  note new = stored_put [OF m short(2)]
  have len: "length m = length (ch_mem q)" using m by (rule length_put_at)
  show ?thesis
  proof (cases "ch_head_tag q = ch_tail_tag q")
    case True
    then have run: "run (ch_mem q) (ch_head q) xs (ch_tail q)" using rep by (simp add: ch_rep_def)
    have le: "\<not> ch_tail q < ch_head q" using run_le [OF run] by simp
    have run': "run m (ch_head q) xs (ch_tail q)" using run_keep [OF m run] by simp
    define q' where "q' = (if ch_tail q + 4 + length x \<ge> ch_size q
      then q\<lparr>ch_tail := 0, ch_tail_tag := 1 - ch_tail_tag q, ch_num := ch_num q + 1, ch_mem := m\<rparr>
      else q\<lparr>ch_tail := ch_tail q + 4 + length x, ch_num := ch_num q + 1, ch_mem := m\<rparr>)"
    have in': "swChannel_in q x = Some (SW_OK, q')"
      using True short le m by (simp add: swChannel_in_def swChannel_full_def q'_def Let_def add.assoc)
    have "ch_rep q' (xs @ [x])"
    proof (cases "ch_tail q + 4 + length x \<ge> ch_size q")
      case wrap: True
      have "lap m (ch_size q) (ch_head q) (xs @ [x])" using run_lap [OF run' _ new] rep wrap by (simp add: ch_rep_def)
      moreover have "ch_tail_tag q \<le> 1" using rep by (simp add: ch_rep_def)
      then have "ch_head_tag q \<noteq> 1 - ch_tail_tag q" using True by (cases "ch_tail_tag q") auto
      moreover from calculation(1) have "\<exists>ys zs. xs @ [x] = ys @ zs \<and> lap m (ch_size q) (ch_head q) ys \<and> run m 0 zs 0"
        by (metis append_Nil2 run.simps(1))
      ultimately show ?thesis using wrap rep unfolding ch_rep_def q'_def by auto
    next
      case False
      then show ?thesis using run_snoc [OF run' new] rep True unfolding ch_rep_def q'_def by auto
    qed
    with in' show ?thesis using len by (auto simp: q'_def)
  next
    case False
    obtain ys zs where xs: "xs = ys @ zs" "lap (ch_mem q) (ch_size q) (ch_head q) ys" "run (ch_mem q) 0 zs (ch_tail q)"
      and le: "ch_tail q \<le> ch_head q" using rep False by (auto simp: ch_rep_def)
    show ?thesis
    proof (cases "ch_head q - ch_tail q < 4 + length x")
      case True
      then have "swChannel_in q x = Some (SW_ERR, q)"
        using False short le by (auto simp: swChannel_in_def swChannel_full_def Let_def)
      moreover have "ch_size q < ch_bytes xs + 4 + length x"
        using True le lap_bytes [OF xs(2)] run_bytes [OF xs(3)] xs(1) by simp
      ultimately show ?thesis by auto
    next
      case fits: False
      define q' where "q' = q\<lparr>ch_tail := ch_tail q + (4 + length x), ch_num := ch_num q + 1, ch_mem := m\<rparr>"
      have "swChannel_in q x = Some (SW_OK, q')"
        using False fits short le m by (auto simp: swChannel_in_def swChannel_full_def q'_def Let_def)
      moreover have "lap m (ch_size q) (ch_head q) ys" using lap_keep [OF m xs(2)] fits by simp
      moreover have "run m 0 zs (ch_tail q)" using run_keep [OF m xs(3)] by simp
      then have "run m 0 (zs @ [x]) (ch_tail q + 4 + length x)" using new by (rule run_snoc)
      ultimately have "ch_rep q' (xs @ [x])"
        using rep False fits le xs(1) unfolding ch_rep_def q'_def by (auto simp: add.assoc intro: exI [of _ ys])
      with \<open>swChannel_in q x = Some (SW_OK, q')\<close> show ?thesis using len by (auto simp: q'_def)
    qed
  qed
qed

section \<open>Popping\<close>

text \<open>Reading back what the length field and the data say.\<close>

lemma stored_read:
  assumes "stored m p x"
  shows "slice_at m p 4 = Some (le_bytes 4 (length x))" "le_value (le_bytes 4 (length x)) = length x"
    "slice_at m (p + 4) (length x) = Some x"
proof -
  have in_range: "p + (4 + length x) \<le> length m"
    using assms by (auto simp: stored_def slice_at_def split: if_splits)
  then have enc: "take (4 + length x) (drop p m) = le_bytes 4 (length x) @ x"
    using assms by (simp add: stored_def slice_at_def ch_enc_def)
  have "take 4 (drop p m) = take 4 (take (4 + length x) (drop p m))" by (simp add: min_def)
  then show "slice_at m p 4 = Some (le_bytes 4 (length x))" using in_range enc by (simp add: slice_at_def)
  have "take (length x) (drop (p + 4) m) = drop 4 (take (4 + length x) (drop p m))"
    by (simp add: drop_take add.commute)
  then show "slice_at m (p + 4) (length x) = Some x" using in_range enc by (simp add: slice_at_def)
  show "le_value (le_bytes 4 (length x)) = length x" using assms by (intro le_value_bytes) (simp add: stored_def)
qed

lemma swChannel_out_rep:
  assumes rep: "ch_rep q (x # xs)" and buf: "length x \<le> n"
  shows "\<exists>q'. swChannel_out q n = Some (int (length x), x, q') \<and> ch_rep q' xs \<and> ch_mem q' = ch_mem q \<and>
    ch_maxlen q' = ch_maxlen q \<and> ch_size q' = ch_size q \<and> ch_flag q' = ch_flag q"
proof -
  let ?h = "ch_head q + 4 + length x"
  define q' where "q' = (if ?h \<ge> ch_size q
    then q\<lparr>ch_head := 0, ch_head_tag := 1 - ch_head_tag q, ch_num := ch_num q - 1\<rparr>
    else q\<lparr>ch_head := ?h, ch_num := ch_num q - 1\<rparr>)"
  have tags: "ch_head_tag q \<le> 1" "ch_tail_tag q \<le> 1" using rep by (auto simp: ch_rep_def)
  have st: "stored (ch_mem q) (ch_head q) x"
  proof (cases "ch_head_tag q = ch_tail_tag q")
    case False
    then obtain ys zs where "x # xs = ys @ zs" "lap (ch_mem q) (ch_size q) (ch_head q) ys" using rep by (auto simp: ch_rep_def)
    then show ?thesis by (cases ys) auto
  qed (use rep in \<open>auto simp: ch_rep_def\<close>)
  have out: "swChannel_out q n = Some (int (length x), x, q')"
    using stored_read [OF st] buf rep
    by (simp add: swChannel_out_def swChannel_empty_def ch_rep_def q'_def Let_def add.assoc add.commute [of "length x"]
        del: slice_at_in)
  have "ch_rep q' xs"
  proof (cases "ch_head_tag q = ch_tail_tag q")
    case True
    then have run: "run (ch_mem q) ?h xs (ch_tail q)" and t: "ch_tail q < ch_size q" "ch_num q = Suc (length xs)"
      using rep by (auto simp: ch_rep_def)
    have "\<not> ?h \<ge> ch_size q" using run_le [OF run] t by simp
    then show ?thesis using True run t tags by (simp add: ch_rep_def q'_def)
  next
    case False
    obtain ys zs where xs: "x # xs = ys @ zs" "lap (ch_mem q) (ch_size q) (ch_head q) ys" "run (ch_mem q) 0 zs (ch_tail q)"
      and t: "ch_tail q \<le> ch_head q" "ch_head q < ch_size q" "ch_tail q < ch_size q" "ch_num q = Suc (length xs)"
      using rep False by (auto simp: ch_rep_def)
    from xs obtain ys' where ys: "ys = x # ys'" "xs = ys' @ zs" by (cases ys) auto
    show ?thesis
    proof (cases "?h \<ge> ch_size q")
      case True
      then have "ys' = []" using xs(2) ys by simp
      moreover have "1 - ch_head_tag q = ch_tail_tag q" using False tags by arith
      ultimately show ?thesis using True xs(3) ys t tags by (simp add: ch_rep_def q'_def)
    next
      case inside: False
      have lap': "lap (ch_mem q) (ch_size q) ?h ys'" using inside xs(2) ys(1) by simp
      have "ch_tail q \<le> ?h" using t(1) by simp
      then show ?thesis using inside False lap' xs(3) ys(2) t tags by (auto simp: ch_rep_def q'_def intro: exI [of _ ys'])
    qed
  qed
  with out show ?thesis by (auto simp: q'_def)
qed

section \<open>The channel is a first-in first-out queue\<close>

text \<open>The messages a channel holds, read from its memory.\<close>

fun ch_walk :: "nat \<Rightarrow> bytes \<Rightarrow> nat \<Rightarrow> nat \<Rightarrow> bytes list" where
  "ch_walk 0 m sz p = []"
| "ch_walk (Suc n) m sz p =
     (let len = le_value (take 4 (drop p m)); e = p + 4 + len
      in take len (drop (p + 4) m) # ch_walk n m sz (if e \<ge> sz then 0 else e))"

definition ch_items :: "sw_channel \<Rightarrow> bytes list" where
  "ch_items q = ch_walk (ch_num q) (ch_mem q) (ch_size q) (ch_head q)"

lemma ch_walk_stored:
  assumes "stored m p x"
  shows "ch_walk (Suc n) m sz p = x # ch_walk n m sz (if p + 4 + length x \<ge> sz then 0 else p + 4 + length x)"
proof -
  have "take 4 (drop p m) = le_bytes 4 (length x)" "take (length x) (drop (p + 4) m) = x"
    using stored_read [OF assms] by (auto simp: slice_at_def split: if_splits)
  with stored_read(2) [OF assms] show ?thesis by (simp add: Let_def)
qed

lemma ch_walk_run: "run m p xs e \<Longrightarrow> e < sz \<Longrightarrow> ch_walk (length xs) m sz p = xs"
proof (induction xs arbitrary: p)
  case (Cons x xs)
  then have "p + 4 + length x \<le> e" by (auto dest: run_le)
  with Cons show ?case by (auto simp: ch_walk_stored simp del: ch_walk.simps)
qed simp

lemma ch_walk_lap: "lap m sz p ys \<Longrightarrow> ch_walk (length ys + n) m sz p = ys @ ch_walk n m sz 0"
proof (induction ys arbitrary: p)
  case (Cons y ys)
  then show ?case by (cases "p + 4 + length y \<ge> sz") (auto simp: ch_walk_stored simp del: ch_walk.simps)
qed simp

lemma ch_items_rep: "ch_rep q xs \<Longrightarrow> ch_items q = xs"
  unfolding ch_items_def ch_rep_def using ch_walk_run ch_walk_lap by (auto split: if_splits)

text \<open>What stays the same while a channel is used: its sizes \<open>sz\<close>, \<open>ml\<close> and \<open>ms\<close> (the ring, the limit of a
  message, the memory), the lock, and that every message fits the buffer of \<open>n\<close> bytes of the receiver.\<close>

definition ch_inv :: "nat \<Rightarrow> nat \<Rightarrow> nat \<Rightarrow> nat \<Rightarrow> sw_channel \<Rightarrow> bool" where
  "ch_inv sz ml ms n q \<longleftrightarrow> (\<exists>xs. ch_rep q xs \<and> (\<forall>x \<in> set xs. length x \<le> n)) \<and> ch_size q = sz \<and> ch_maxlen q = ml \<and>
     length (ch_mem q) = ms \<and> ml \<le> n \<and> n < 2 ^ 31 \<and> ch_flag q AND SW_CHAN_LOCK \<noteq> 0"

text \<open>What a sender owes: a message below the limit that does not leave the memory from any start in the
  ring.\<close>

definition ch_ok :: "nat \<Rightarrow> nat \<Rightarrow> nat \<Rightarrow> bytes \<Rightarrow> bool" where
  "ch_ok sz ml ms x \<longleftrightarrow> length x < ml \<and> sz + 3 + length x \<le> ms"

text \<open>The two operations with their answers as the queue interface has them; \<open>None\<close> stays a crash.\<close>

definition ch_push :: "sw_channel \<Rightarrow> bytes \<Rightarrow> (bool \<times> sw_channel) option" where
  "ch_push q x = map_option (\<lambda>(r, q). (r = SW_OK, q)) (swChannel_push q x)"

definition ch_pop :: "nat \<Rightarrow> sw_channel \<Rightarrow> (bytes option \<times> sw_channel) option" where
  "ch_pop n q = map_option (\<lambda>(r, x, q). (if r < 0 then None else Some x, q)) (swChannel_pop q n)"

lemma ch_push_ok:
  assumes "ch_inv sz ml ms n q" "ch_ok sz ml ms x"
  shows "\<exists>b q'. ch_push q x = Some (b, q') \<and> ch_inv sz ml ms n q' \<and> ch_items q' = ch_items q @ (if b then [x] else []) \<and>
    (b \<or> sz < ch_bytes (ch_items q) + 4 + length x)"
proof -
  obtain xs where xs: "ch_rep q xs" "\<forall>x \<in> set xs. length x \<le> n" using assms(1) by (auto simp: ch_inv_def)
  have q: "ch_size q = sz" "ch_maxlen q = ml" "length (ch_mem q) = ms" "ml \<le> n" "n < 2 ^ 31" "ch_flag q AND SW_CHAN_LOCK \<noteq> 0"
    using assms(1) by (auto simp: ch_inv_def)
  have "length x < ch_maxlen q" "length x < 256 ^ 4" "ch_tail q + 4 + length x \<le> length (ch_mem q)"
    using q assms(2) xs(1) by (auto simp: ch_ok_def ch_rep_def)
  from swChannel_in_rep [OF xs(1) this] obtain r q' where in': "swChannel_in q x = Some (r, q')"
    "r = SW_OK \<and> ch_rep q' (xs @ [x]) \<or> r = SW_ERR \<and> q' = q \<and> ch_size q < ch_bytes xs + 4 + length x"
    "length (ch_mem q') = length (ch_mem q)" "ch_maxlen q' = ch_maxlen q" "ch_size q' = ch_size q" "ch_flag q' = ch_flag q"
    by blast
  have push: "ch_push q x = Some (r = SW_OK, q')" using in'(1) q(6) by (simp add: ch_push_def swChannel_push_def)
  from in'(2) show ?thesis
  proof (elim disjE conjE)
    assume r: "r = SW_OK" "ch_rep q' (xs @ [x])"
    moreover have "ch_inv sz ml ms n q'" using r(2) in'(3-6) q xs(2) assms(2) by (force simp: ch_inv_def ch_ok_def)
    ultimately show ?thesis using push ch_items_rep xs(1) by auto
  next
    assume r: "r = SW_ERR" "q' = q" "ch_size q < ch_bytes xs + 4 + length x"
    then have "ch_push q x = Some (False, q)" using push by simp
    with r(3) q(1) ch_items_rep [OF xs(1)] assms(1) show ?thesis by (intro exI [of _ False] exI [of _ q]) simp
  qed
qed

lemma ch_pop_ok:
  assumes "ch_inv sz ml ms n q"
  shows "\<exists>q'. ch_pop n q = Some (front (ch_items q), q') \<and> ch_inv sz ml ms n q' \<and> ch_items q' = tl (ch_items q)"
proof -
  obtain xs where xs: "ch_rep q xs" "\<forall>x \<in> set xs. length x \<le> n" using assms(1) by (auto simp: ch_inv_def)
  have lock: "ch_flag q AND SW_CHAN_LOCK \<noteq> 0" using assms by (simp add: ch_inv_def)
  show ?thesis
  proof (cases xs)
    case Nil
    then have "ch_num q = 0" "ch_items q = []" using xs(1) ch_items_rep by (auto simp: ch_rep_def)
    with lock assms show ?thesis
      by (simp add: ch_pop_def swChannel_pop_def swChannel_out_def swChannel_empty_def SW_ERR_def)
  next
    case (Cons y ys)
    then obtain q' where q': "swChannel_out q n = Some (int (length y), y, q')" "ch_rep q' ys" "ch_mem q' = ch_mem q"
      "ch_maxlen q' = ch_maxlen q" "ch_size q' = ch_size q" "ch_flag q' = ch_flag q"
      using swChannel_out_rep [of q y ys n] xs by auto
    have "ch_pop n q = Some (Some y, q')" using q'(1) lock by (simp add: ch_pop_def swChannel_pop_def)
    moreover have "ch_inv sz ml ms n q'" using assms q'(2-6) xs(2) Cons by (auto simp: ch_inv_def)
    ultimately show ?thesis using ch_items_rep [OF xs(1)] ch_items_rep [OF q'(2)] Cons by auto
  qed
qed

interpretation chanq: fifo_queue "ch_inv sz ml ms n" ch_items "\<lambda>_. ch_ok sz ml ms" "\<lambda>x. x"
    "\<lambda>xs x. sz < ch_bytes xs + 4 + length x" ch_push "ch_pop n" for sz ml ms n
  by unfold_locales (erule ch_push_ok, assumption, rule ch_pop_ok)

text \<open>A fresh channel.\<close>

lemma ch_new_inv:
  assumes "swChannel_new hdr (Some blk) True True sz maxlen flag = Some (Some q)" "flag AND SW_CHAN_LOCK \<noteq> 0" "maxlen \<le> n" "n < 2 ^ 31"
  shows "ch_inv (sz - maxlen) maxlen (length blk - hdr) n q \<and> ch_items q = [] \<and> maxlen < sz"
proof -
  have q: "q = \<lparr>ch_head = 0, ch_tail = 0, ch_size = sz - maxlen, ch_head_tag = 0, ch_tail_tag = 0, ch_num = 0,
      ch_flag = flag, ch_maxlen = maxlen, ch_mem = drop hdr blk\<rparr>" and sz: "SW_CHANNEL_MIN_MEM + maxlen < sz"
    using assms(1) by (auto simp: swChannel_new_def split: if_splits)
  then have rep: "ch_rep q []" by (simp add: ch_rep_def)
  then show ?thesis using assms(2-4) sz ch_items_rep [OF rep] by (auto simp: ch_inv_def q)
qed

text \<open>C28. Through a channel with \<open>hdr\<close> bytes of header, any sequence of pushes of messages of at most
  \<open>maxlen - hdr - 3\<close> bytes and of pops into a buffer of \<open>n\<close> bytes (an \<open>int\<close>, at least \<open>maxlen\<close>) returns: no
  assertion fails and no access leaves the memory block. The answers are those of a queue: a pop gives the
  first message that was accepted and not yet taken, unchanged, and fails only when there is none; a push
  is refused only when the messages in the channel and the new one take more bytes than the ring has.\<close>

theorem swChannel_fifo:
  assumes "swChannel_new hdr (Some blk) True True (length blk) maxlen flag = Some (Some q)"
    and "flag AND SW_CHAN_LOCK \<noteq> 0" and "maxlen \<le> n" and "n < 2 ^ 31"
    and "\<And>x. Push x \<in> set ops \<Longrightarrow> length x + hdr + 3 \<le> maxlen"
  shows "\<exists>rs q'. queue_run (\<lambda>_ _. True) ch_push (ch_pop n) ops q = Some (rs, q') \<and>
    queue_spec (\<lambda>xs x. length blk - maxlen < ch_bytes xs + 4 + length x) (\<lambda>x. x) ops rs [] (ch_items q')"
proof -
  note new = ch_new_inv [OF assms(1-4)]
  let ?ok = "ch_ok (length blk - maxlen) maxlen (length blk - hdr)"
  have "?ok x" if "Push x \<in> set ops" for x using assms(5) [OF that] new by (auto simp: ch_ok_def)
  then obtain rs q' where r: "queue_run (\<lambda>_. ?ok) ch_push (ch_pop n) ops q = Some (rs, q')"
    "queue_spec (\<lambda>xs x. length blk - maxlen < ch_bytes xs + 4 + length x) (\<lambda>x. x) ops rs (ch_items q) (ch_items q')"
    using chanq.run_queue [OF conjunct1 [OF new], of ops] by blast
  with queue_run_mono [OF r(1)] new show ?thesis by (intro exI [of _ rs] exI [of _ q']) simp
qed

definition ch_demo :: sw_channel where
  "ch_demo = \<lparr>ch_head = 0, ch_tail = 0, ch_size = 69900, ch_head_tag = 0, ch_tail_tag = 0, ch_num = 0,
     ch_flag = 2, ch_maxlen = 100, ch_mem = drop 50 (replicate 70000 0)\<rparr>"

theorem swChannel_fifo_witness:
  "\<exists>rs q'. queue_run (\<lambda>_ _. True) ch_push (ch_pop 100) [Push [1, 2], Pop, Pop] ch_demo = Some (rs, q') \<and>
    queue_spec (\<lambda>xs x. length (replicate 70000 (0 :: u8)) - 100 < ch_bytes xs + 4 + length x) (\<lambda>x. x) [Push [1, 2], Pop, Pop] rs [] (ch_items q')"
  by (rule swChannel_fifo [of 50 "replicate 70000 0" 100 2])
    (auto simp: swChannel_new_def SW_CHANNEL_MIN_MEM_def ch_demo_def SW_CHAN_LOCK_def)

text \<open>C29. The maximum message length is not safe: with the sizes the constructor accepts, two messages below the
  maximum length run over the end of the memory block, however small the header is.\<close>

theorem swChannel_overruns:
  assumes "length blk = 135537" and "hdr \<le> 1000"
  shows "\<exists>q q1. swChannel_new hdr (Some blk) True True (length blk) 70000 2 = Some (Some q) \<and>
    swChannel_push q (replicate 65532 0) = Some (SW_OK, q1) \<and> swChannel_push q1 (replicate 69999 0) = None"
proof -
  let ?x = "replicate 65532 (0 :: u8)" and ?m = "drop hdr blk"
  have "0 + length (ch_enc ?x) \<le> length ?m" using assms by simp
  then obtain m where m1: "put_at ?m 0 (ch_enc ?x) = Some m" using put_at_in by blast
  have "length m = 135537 - hdr" using length_put_at [OF m1] assms by simp
  note m = m1 this
  have "swChannel_new hdr (Some blk) True True (length blk) 70000 2 =
      Some (Some \<lparr>ch_head = 0, ch_tail = 0, ch_size = 65537, ch_head_tag = 0, ch_tail_tag = 0, ch_num = 0,
        ch_flag = 2, ch_maxlen = 70000, ch_mem = ?m\<rparr>)"
    using assms by (simp add: swChannel_new_def SW_CHANNEL_MIN_MEM_def)
  moreover have "swChannel_push \<lparr>ch_head = 0, ch_tail = 0, ch_size = 65537, ch_head_tag = 0, ch_tail_tag = 0, ch_num = 0,
        ch_flag = 2, ch_maxlen = 70000, ch_mem = ?m\<rparr> ?x =
      Some (SW_OK, \<lparr>ch_head = 0, ch_tail = 65536, ch_size = 65537, ch_head_tag = 0, ch_tail_tag = 0, ch_num = 1,
        ch_flag = 2, ch_maxlen = 70000, ch_mem = m\<rparr>)"
    using m(1) by (simp add: swChannel_push_def swChannel_in_def swChannel_full_def SW_CHAN_LOCK_def Let_def)
  moreover have "put_at m 65536 (ch_enc (replicate 69999 0)) = None" using m(2) by (simp add: put_at_def)
  then have "swChannel_push \<lparr>ch_head = 0, ch_tail = 65536, ch_size = 65537, ch_head_tag = 0, ch_tail_tag = 0, ch_num = 1,
        ch_flag = 2, ch_maxlen = 70000, ch_mem = m\<rparr> (replicate 69999 0) = None"
    by (simp add: swChannel_push_def swChannel_in_def swChannel_full_def SW_CHAN_LOCK_def Let_def)
  ultimately show ?thesis by blast
qed

theorem swChannel_overruns_witness:
  "\<exists>q q1. swChannel_new 200 (Some (replicate 135537 0)) True True (length (replicate 135537 (0 :: u8))) 70000 2 = Some (Some q) \<and>
    swChannel_push q (replicate 65532 0) = Some (SW_OK, q1) \<and> swChannel_push q1 (replicate 69999 0) = None"
  by (rule swChannel_overruns) simp_all

end
