(* ===== verification/Sw_Buffer.thy ===== *)
theory Sw_Buffer
  imports Sw_Dll
begin

text \<open>
  The chunk queue (\<open>src/memory/Buffer.c\<close>, \<open>include/buffer.h\<close>): a singly linked list of chunks with a
  pointer to its last one. Chunks live in a store; freeing one removes it. The data block of a chunk
  belongs to it and is kept with it. The allocator's answers are arguments: an address for the chunk,
  the contents of the new data block. \<open>None\<close> as a result is an access through an invalid pointer.
\<close>

section \<open>The structures and their operations\<close>

datatype chunk_type = SW_CHUNK_DATA | SW_CHUNK_SENDFILE | SW_CHUNK_CLOSE

text \<open>\<open>swTask_sendfile\<close>: the file of a chunk of type \<open>SW_CHUNK_SENDFILE\<close>.\<close>

record sendfile_task =
  tk_filename :: string
  tk_fd :: int
  tk_filesize :: int
  tk_offset :: int

datatype chunk_store = NoStore | Block bytes | Task sendfile_task | Vals u32 u32

record chunk =
  ck_type :: chunk_type
  ck_length :: u32
  ck_offset :: u32
  ck_store :: chunk_store
  ck_size :: u32
  ck_destroy :: bool
  ck_next :: ptr

record sw_buffer =
  bu_fd :: int
  bu_trunk_num :: u8
  bu_trunk_size :: u16
  bu_length :: u32
  bu_head :: ptr
  bu_tail :: ptr
  bu_mem :: "ptr \<rightharpoonup> chunk"

definition swBuffer_new :: "bool \<Rightarrow> int \<Rightarrow> sw_buffer option" where
  "swBuffer_new malloc_ok trunk_size =
     (if \<not> malloc_ok then None
      else Some \<lparr>bu_fd = 0, bu_trunk_num = 0, bu_trunk_size = word_of_int trunk_size, bu_length = 0,
        bu_head = NULL, bu_tail = NULL, bu_mem = Map.empty\<rparr>)"

definition swBuffer_get_trunk :: "sw_buffer \<Rightarrow> ptr" where
  "swBuffer_get_trunk b = bu_head b"

text \<open>\<open>swBuffer_empty\<close>: the buffer itself may be missing.\<close>

definition swBuffer_empty :: "sw_buffer option \<Rightarrow> bool" where
  "swBuffer_empty ob = (case ob of None \<Rightarrow> True | Some b \<Rightarrow> bu_head b = NULL)"

record chunk_answer =
  an_chunk :: "ptr option"
  an_block :: "(nat \<Rightarrow> u8) option"

definition swBuffer_new_trunk ::
  "chunk_answer \<Rightarrow> sw_buffer \<Rightarrow> chunk_type \<Rightarrow> u32 \<Rightarrow> (ptr \<times> sw_buffer) option" where
  "swBuffer_new_trunk ans b type sz =
     (case an_chunk ans of
        None \<Rightarrow> Some (NULL, b)
      | Some p \<Rightarrow>
          let c = \<lparr>ck_type = SW_CHUNK_DATA, ck_length = 0, ck_offset = 0, ck_store = NoStore, ck_size = 0,
                ck_destroy = False, ck_next = NULL\<rparr> in
          if type = SW_CHUNK_DATA \<and> sz > 0 \<and> an_block ans = None then Some (NULL, b)
          else
            let c = (if type = SW_CHUNK_DATA \<and> sz > 0
                  then c\<lparr>ck_size := sz, ck_store := Block (map (the (an_block ans)) [0..<unat sz])\<rparr> else c);
                c = c\<lparr>ck_type := type\<rparr>;
                b = b\<lparr>bu_trunk_num := bu_trunk_num b + 1\<rparr>
            in if bu_head b = NULL then
                 Some (p, b\<lparr>bu_mem := (bu_mem b)(p \<mapsto> c), bu_head := p, bu_tail := p\<rparr>)
               else do {
                 m \<leftarrow> mod_at (bu_tail b) (\<lambda>t. t\<lparr>ck_next := p\<rparr>) (bu_mem b);
                 Some (p, b\<lparr>bu_mem := m(p \<mapsto> c), bu_tail := p\<rparr>) })"

text \<open>The chunk popped is freed with its data block; its destructor, if it has one, is called on it: the
  operation also returns the chunk.\<close>

definition swBuffer_pop_trunk :: "sw_buffer \<Rightarrow> ptr \<Rightarrow> (chunk \<times> sw_buffer) option" where
  "swBuffer_pop_trunk b p = do {
     c \<leftarrow> bu_mem b p;
     let b = (if ck_next c = NULL
        then b\<lparr>bu_head := NULL, bu_tail := NULL, bu_length := 0, bu_trunk_num := 0\<rparr>
        else b\<lparr>bu_head := ck_next c, bu_length := bu_length b - ck_length c, bu_trunk_num := bu_trunk_num b - 1\<rparr>);
     Some (c, b\<lparr>bu_mem := (bu_mem b)(p := None)\<rparr>) }"

text \<open>Freeing the whole buffer does not call the destructors.\<close>

fun swBuffer_free_loop :: "nat \<Rightarrow> (ptr \<rightharpoonup> chunk) \<Rightarrow> ptr \<Rightarrow> (ptr \<rightharpoonup> chunk) option" where
  "swBuffer_free_loop 0 m p = (if p = NULL then Some m else None)"
| "swBuffer_free_loop (Suc fuel) m p =
     (if p = NULL then Some m
      else do { c \<leftarrow> m p; swBuffer_free_loop fuel (m(p := None)) (ck_next c) })"

definition swBuffer_free :: "nat \<Rightarrow> sw_buffer \<Rightarrow> (int \<times> (ptr \<rightharpoonup> chunk)) option" where
  "swBuffer_free fuel b = do { m \<leftarrow> swBuffer_free_loop fuel (bu_mem b) (bu_head b); Some (SW_OK, m) }"

text \<open>Copying into the data block of a chunk; a chunk without block can take nothing.\<close>

definition chunk_fill :: "bytes \<Rightarrow> chunk \<Rightarrow> chunk option" where
  "chunk_fill d c =
     (case ck_store c of
        Block blk \<Rightarrow> do { blk' \<leftarrow> put_at blk 0 d; Some (c\<lparr>ck_store := Block blk'\<rparr>) }
      | _ \<Rightarrow> if d = [] then Some c else None)"

definition swBuffer_append :: "chunk_answer \<Rightarrow> sw_buffer \<Rightarrow> bytes \<Rightarrow> (int \<times> sw_buffer) option" where
  "swBuffer_append ans b d = do {
     let sz = of_nat (length d);
     (p, b) \<leftarrow> swBuffer_new_trunk ans b SW_CHUNK_DATA sz;
     if p = NULL then Some (SW_ERR, b)
     else do {
       c \<leftarrow> bu_mem b p;
       c' \<leftarrow> chunk_fill d (c\<lparr>ck_length := sz\<rparr>);
       Some (SW_OK, b\<lparr>bu_length := bu_length b + sz, bu_mem := (bu_mem b)(p \<mapsto> c')\<rparr>) } }"

section \<open>Representation\<close>

abbreviation bu_nx :: "(ptr \<rightharpoonup> chunk) \<Rightarrow> ptr \<Rightarrow> ptr" where
  "bu_nx m x \<equiv> ck_next (the (m x))"

fun chain :: "(ptr \<Rightarrow> ptr) \<Rightarrow> ptr list \<Rightarrow> bool" where
  "chain n [] \<longleftrightarrow> True"
| "chain n (x # xs) \<longleftrightarrow> x \<noteq> NULL \<and> n x = hd (xs @ [NULL]) \<and> chain n xs"

lemma chain_cong: "(\<And>x. x \<in> set xs \<Longrightarrow> n' x = n x) \<Longrightarrow> chain n' xs = chain n xs"
  by (induction xs) auto

lemma chain_not_null: "chain n xs \<Longrightarrow> NULL \<notin> set xs"
  by (induction xs) auto

lemma chain_snoc:
  assumes "chain n xs" "distinct xs" "x \<noteq> NULL" "n' x = NULL" "xs \<noteq> [] \<Longrightarrow> n' (last xs) = x"
    "\<And>y. y \<in> set xs \<Longrightarrow> y \<noteq> last xs \<Longrightarrow> n' y = n y"
  shows "chain n' (xs @ [x])"
  using assms
proof (induction xs)
  case (Cons y ys)
  show ?case
  proof (cases "ys = []")
    case False
    then have "y \<noteq> last ys" using Cons.prems(2) by auto
    then show ?thesis using Cons False by (auto simp: hd_append)
  qed (use Cons.prems in auto)
qed simp

text \<open>\<open>cs\<close> are the chunks of the buffer in order, without their links, at the addresses \<open>ps\<close>.\<close>

definition unlinked :: "chunk \<Rightarrow> chunk" where
  "unlinked c = c\<lparr>ck_next := NULL\<rparr>"

definition bu_rep :: "sw_buffer \<Rightarrow> ptr list \<Rightarrow> chunk list \<Rightarrow> bool" where
  "bu_rep b ps cs \<longleftrightarrow> distinct ps \<and> chain (bu_nx (bu_mem b)) ps \<and> dom (bu_mem b) = set ps \<and>
     cs = map (\<lambda>p. unlinked (the (bu_mem b p))) ps \<and> bu_head b = hd (ps @ [NULL]) \<and> bu_tail b = last (NULL # ps) \<and>
     bu_length b = sum_list (map ck_length cs) \<and> bu_trunk_num b = of_nat (length ps)"

lemma unlinked_fields [simp]:
  "ck_type (unlinked c) = ck_type c" "ck_length (unlinked c) = ck_length c" "ck_offset (unlinked c) = ck_offset c"
  "ck_store (unlinked c) = ck_store c" "ck_size (unlinked c) = ck_size c" "ck_destroy (unlinked c) = ck_destroy c"
  "ck_next (unlinked c) = NULL" "unlinked (c\<lparr>ck_next := x\<rparr>) = unlinked c"
  by (simp_all add: unlinked_def)

lemma unlinked_id: "ck_next c = NULL \<Longrightarrow> unlinked c = c"
  by (simp add: unlinked_def)

lemma bu_rep_facts:
  assumes "bu_rep b ps cs"
  shows "distinct ps" "NULL \<notin> set ps" "dom (bu_mem b) = set ps" "(bu_head b = NULL) = (ps = [])" "length cs = length ps"
    "ps \<noteq> [] \<Longrightarrow> bu_tail b = last ps"
proof -
  show nn: "NULL \<notin> set ps" using assms by (auto simp: bu_rep_def dest: chain_not_null)
  show "(bu_head b = NULL) = (ps = [])" using assms nn by (cases ps) (auto simp: bu_rep_def)
qed (use assms in \<open>auto simp: bu_rep_def\<close>)

lemma bu_rep_first:
  assumes "bu_rep b ps (c # cs)"
  obtains p ps' k where "ps = p # ps'" "bu_head b = p" "p \<noteq> NULL" "bu_mem b p = Some k" "unlinked k = c"
    "ck_next k = hd (ps' @ [NULL])" "p \<notin> set ps'"
proof -
  obtain p ps' where ps: "ps = p # ps'" using bu_rep_facts(5) [OF assms] by (cases ps) auto
  have "p \<in> dom (bu_mem b)" using bu_rep_facts(3) [OF assms] ps by simp
  then obtain k where "bu_mem b p = Some k" by auto
  then show thesis using that [of p ps' k] assms ps by (auto simp: bu_rep_def)
qed

lemma swBuffer_new_rep: "\<exists>b. swBuffer_new True n = Some b \<and> bu_rep b [] []"
  by (simp add: swBuffer_new_def bu_rep_def)

lemma swBuffer_empty_rep: "bu_rep b ps cs \<Longrightarrow> swBuffer_empty (Some b) = (cs = [])"
  using bu_rep_facts [of b ps cs] by (auto simp: swBuffer_empty_def)

text \<open>Replacing the first chunk by one with the same link.\<close>

lemma bu_rep_update:
  assumes rep: "bu_rep b ps (c # cs)" and k: "bu_mem b (bu_head b) = Some k" and nx: "ck_next k' = ck_next k"
    and len: "ck_length k' = ck_length k"
  shows "bu_rep (b\<lparr>bu_mem := (bu_mem b)(bu_head b \<mapsto> k')\<rparr>) ps (unlinked k' # cs)"
proof -
  obtain p ps' where ps: "ps = p # ps'" "bu_head b = p" "p \<notin> set ps'" using bu_rep_first [OF rep] by metis
  have "chain (bu_nx ((bu_mem b)(p \<mapsto> k'))) ps' = chain (bu_nx (bu_mem b)) ps'" using ps(3) by (intro chain_cong) auto
  then show ?thesis using rep k nx len ps by (auto simp: bu_rep_def)
qed

text \<open>The new chunk at the end: the general step of the operations that add one.\<close>

lemma bu_rep_snoc:
  assumes rep: "bu_rep b ps cs" and p: "p \<noteq> NULL" "p \<notin> set ps" and c: "ck_next c = NULL"
    and mem: "bu_mem b' = (if ps = [] then bu_mem b else wr (last ps) (\<lambda>t. t\<lparr>ck_next := p\<rparr>) (bu_mem b))(p \<mapsto> c)"
    and ends: "bu_head b' = hd (ps @ [p])" "bu_tail b' = p"
    and num: "bu_length b' = bu_length b + ck_length c" "bu_trunk_num b' = bu_trunk_num b + 1"
  shows "bu_rep b' (ps @ [p]) (cs @ [c])"
proof -
  note facts = bu_rep_facts [OF rep]
  have at: "the (bu_mem b' x) = (if x = p then c else if ps \<noteq> [] \<and> x = last ps then the (bu_mem b x)\<lparr>ck_next := p\<rparr>
      else the (bu_mem b x))" for x unfolding mem by (auto simp: the_wr)
  have ne: "x \<noteq> p" if "x \<in> set ps" for x using that p by auto
  have "chain (bu_nx (bu_mem b')) (ps @ [p])"
  proof (rule chain_snoc)
    show "chain (bu_nx (bu_mem b)) ps" "distinct ps" using rep by (auto simp: bu_rep_def)
  qed (use at ne p c in auto)
  moreover have "dom (bu_mem b') = set (ps @ [p])" unfolding mem using facts(3) by auto
  moreover have "unlinked (the (bu_mem b' x)) = unlinked (the (bu_mem b x))" if "x \<in> set ps" for x
    using at ne [OF that] by auto
  then have "map (\<lambda>x. unlinked (the (bu_mem b' x))) (ps @ [p]) = cs @ [c]"
    using rep at unlinked_id [OF c] by (simp add: bu_rep_def)
  ultimately show ?thesis using rep ends num p(2) by (auto simp: bu_rep_def hd_append)
qed

section \<open>Adding and removing chunks\<close>

definition fresh_chunk :: "chunk_type \<Rightarrow> chunk" where
  "fresh_chunk type = \<lparr>ck_type = type, ck_length = 0, ck_offset = 0, ck_store = NoStore, ck_size = 0,
     ck_destroy = False, ck_next = NULL\<rparr>"

text \<open>A chunk of another type, or an empty one, has no data block.\<close>

definition data_chunk :: "(nat \<Rightarrow> u8) \<Rightarrow> chunk_type \<Rightarrow> u32 \<Rightarrow> chunk" where
  "data_chunk fill type sz = (if type = SW_CHUNK_DATA \<and> sz > 0
     then (fresh_chunk type)\<lparr>ck_size := sz, ck_store := Block (map fill [0..<unat sz])\<rparr> else fresh_chunk type)"

definition bu_add :: "sw_buffer \<Rightarrow> ptr list \<Rightarrow> ptr \<Rightarrow> chunk \<Rightarrow> sw_buffer" where
  "bu_add b ps p c = b\<lparr>bu_trunk_num := bu_trunk_num b + 1,
     bu_mem := (if ps = [] then bu_mem b else wr (last ps) (\<lambda>t. t\<lparr>ck_next := p\<rparr>) (bu_mem b))(p \<mapsto> c),
     bu_head := hd (ps @ [p]), bu_tail := p\<rparr>"

lemma swBuffer_new_trunk_add:
  assumes rep: "bu_rep b ps cs" and ans: "an_chunk ans = Some p" "an_block ans = Some fill"
  shows "swBuffer_new_trunk ans b type sz = Some (p, bu_add b ps p (data_chunk fill type sz))"
proof -
  note facts = bu_rep_facts [OF rep]
  have "ps \<noteq> [] \<Longrightarrow> last ps \<in> dom (bu_mem b)" using facts(3) by simp
  moreover have "ps \<noteq> [] \<Longrightarrow> bu_head b = hd ps" using rep by (simp add: bu_rep_def)
  ultimately show ?thesis
    using ans facts(4,6) by (auto simp: swBuffer_new_trunk_def bu_add_def data_chunk_def fresh_chunk_def Let_def)
qed

lemma bu_add_rep:
  "bu_rep b ps cs \<Longrightarrow> p \<noteq> NULL \<Longrightarrow> p \<notin> set ps \<Longrightarrow> bu_rep (bu_add b ps p (data_chunk fill type sz)) (ps @ [p]) (cs @ [data_chunk fill type sz])"
  by (rule bu_rep_snoc) (auto simp: bu_add_def data_chunk_def fresh_chunk_def)

lemma swBuffer_new_trunk_fails:
  "an_chunk ans = None \<Longrightarrow> swBuffer_new_trunk ans b type sz = Some (NULL, b)"
  "an_block ans = None \<Longrightarrow> sz > 0 \<Longrightarrow> swBuffer_new_trunk ans b SW_CHUNK_DATA sz = Some (NULL, b)"
  by (auto simp: swBuffer_new_trunk_def Let_def split: option.splits)

lemma swBuffer_pop_trunk_rep:
  assumes rep: "bu_rep b ps (c # cs)"
  shows "\<exists>k b'. swBuffer_pop_trunk b (bu_head b) = Some (k, b') \<and> unlinked k = c \<and> bu_rep b' (tl ps) cs \<and>
    bu_trunk_size b' = bu_trunk_size b"
proof -
  obtain p ps' k where ps: "ps = p # ps'" "bu_head b = p" "p \<noteq> NULL" "bu_mem b p = Some k" "unlinked k = c"
    "ck_next k = hd (ps' @ [NULL])" "p \<notin> set ps'" using bu_rep_first [OF rep] by metis
  have "NULL \<notin> set ps'" using bu_rep_facts(2) [OF rep] ps(1) by simp
  then have last: "ck_next k = NULL \<longleftrightarrow> ps' = []" using ps(6) by (cases ps') auto
  define b' where "b' = (if ps' = []
    then b\<lparr>bu_head := NULL, bu_tail := NULL, bu_length := 0, bu_trunk_num := 0, bu_mem := (bu_mem b)(p := None)\<rparr>
    else b\<lparr>bu_head := hd (ps' @ [NULL]), bu_length := bu_length b - ck_length k, bu_trunk_num := bu_trunk_num b - 1,
      bu_mem := (bu_mem b)(p := None)\<rparr>)"
  have pop: "swBuffer_pop_trunk b (bu_head b) = Some (k, b')"
    using ps last by (auto simp: swBuffer_pop_trunk_def b'_def Let_def)
  have "chain (bu_nx ((bu_mem b)(p := None))) ps' = chain (bu_nx (bu_mem b)) ps'" using ps(7) by (intro chain_cong) auto
  moreover have "map (\<lambda>x. unlinked (the (((bu_mem b)(p := None)) x))) ps' = map (\<lambda>x. unlinked (the (bu_mem b x))) ps'"
    using ps(7) by (intro map_cong) auto
  ultimately have "bu_rep b' ps' cs"
    using rep ps(1,4,5,7) by (cases "ps' = []") (auto simp: bu_rep_def b'_def simp del: fun_upd_apply)
  with pop show ?thesis using ps(1,5) by (auto simp: b'_def)
qed

lemma swBuffer_append_rep:
  assumes rep: "bu_rep b ps cs" and p: "p \<noteq> NULL" "p \<notin> set ps"
    and ans: "an_chunk ans = Some p" "an_block ans = Some fill" and d: "length d < 2 ^ 32"
  shows "\<exists>b' c. swBuffer_append ans b d = Some (SW_OK, b') \<and> bu_rep b' (ps @ [p]) (cs @ [c]) \<and>
    ck_type c = SW_CHUNK_DATA \<and> ck_length c = of_nat (length d) \<and> ck_offset c = 0 \<and>
    ck_store c = (if d = [] then NoStore else Block d)"
proof -
  let ?sz = "of_nat (length d) :: u32"
  have sz: "unat ?sz = length d" using d by (intro unat_u32)
  then have pos: "?sz > 0 \<longleftrightarrow> d \<noteq> []" by (metis length_greater_0_conv unat_gt_0 word_gt_0)
  let ?c0 = "data_chunk fill SW_CHUNK_DATA ?sz"
  define c where "c = ?c0\<lparr>ck_length := ?sz, ck_store := (if d = [] then NoStore else Block d)\<rparr>"
  define b' where "b' = (bu_add b ps p c)\<lparr>bu_length := bu_length b + ?sz\<rparr>"
  have fill: "chunk_fill d (?c0\<lparr>ck_length := ?sz\<rparr>) = Some c"
    using pos sz by (auto simp: chunk_fill_def c_def data_chunk_def fresh_chunk_def put_at_def)
  have "swBuffer_append ans b d = Some (SW_OK, b')"
    using swBuffer_new_trunk_add [OF rep ans, of SW_CHUNK_DATA ?sz] fill p(1)
    by (simp add: swBuffer_append_def Let_def) (simp add: bu_add_def b'_def)
  moreover have "bu_rep b' (ps @ [p]) (cs @ [c])"
    by (rule bu_rep_snoc [OF rep p]) (auto simp: b'_def bu_add_def c_def data_chunk_def fresh_chunk_def)
  ultimately show ?thesis by (auto simp: c_def data_chunk_def fresh_chunk_def)
qed

text \<open>When a block cannot be allocated nothing changes.\<close>

lemma swBuffer_append_fails:
  "an_chunk ans = None \<Longrightarrow> swBuffer_append ans b d = Some (SW_ERR, b)"
  by (simp add: swBuffer_append_def swBuffer_new_trunk_fails)

section \<open>Freeing the buffer\<close>

lemma swBuffer_free_loop_all:
  "chain (bu_nx m) ps \<Longrightarrow> distinct ps \<Longrightarrow> set ps \<subseteq> dom m \<Longrightarrow> length ps \<le> fuel \<Longrightarrow>
    swBuffer_free_loop fuel m (hd (ps @ [NULL])) = Some (m |` (- set ps))"
proof (induction ps arbitrary: m fuel)
  case Nil
  then show ?case by (cases fuel) auto
next
  case (Cons p ps)
  obtain c f where c: "m p = Some c" and f: "fuel = Suc f" using Cons.prems by (cases fuel) auto
  have "chain (bu_nx (m(p := None))) ps" using Cons.prems by (subst chain_cong [of _ _ "bu_nx m"]) auto
  then have "swBuffer_free_loop f (m(p := None)) (hd (ps @ [NULL])) = Some (m(p := None) |` (- set ps))"
    using Cons.prems f by (intro Cons.IH) auto
  moreover have "m(p := None) |` (- set ps) = m |` (- set (p # ps))" by (auto simp: restrict_map_def)
  ultimately show ?case using Cons.prems(1) c f by simp
qed

text \<open>Freeing gives back every chunk, each once.\<close>

lemma swBuffer_free_all:
  "bu_rep b ps cs \<Longrightarrow> length ps \<le> fuel \<Longrightarrow> swBuffer_free fuel b = Some (SW_OK, Map.empty)"
proof -
  assume rep: "bu_rep b ps cs" and fuel: "length ps \<le> fuel"
  then have "swBuffer_free_loop fuel (bu_mem b) (bu_head b) = Some (bu_mem b |` (- set ps))"
    using swBuffer_free_loop_all [of "bu_mem b" ps fuel] by (simp add: bu_rep_def)
  moreover have "bu_mem b |` (- set ps) = Map.empty" using bu_rep_facts(3) [OF rep] by (auto simp: restrict_map_def fun_eq_iff)
  ultimately show ?thesis by (simp add: swBuffer_free_def)
qed

end
