(* ===== verification/Sw_String.thy ===== *)
theory Sw_String
  imports Sw_Base
begin

unbundle bit_operations_syntax

text \<open>
  Growable strings and UTF-8 (\<open>src/core/string.c\<close>, \<open>swString_clear\<close> of \<open>include/swoole.h\<close>). A string is
  its length, its capacity, an offset and a block of memory; the allocator's answers are arguments:
  \<open>None\<close> when it fails, otherwise the contents a new byte happens to have. The page size of the machine
  is an argument, too. \<open>None\<close> as a result is an access outside a block or a failed assertion.
\<close>

section \<open>The structure and its operations\<close>

record sw_string =
  st_length :: nat
  st_size :: nat
  st_offset :: int
  st_str :: bytes

type_synonym alloc_answer = "(nat \<Rightarrow> u8) option"

definition swString_new :: "bool \<Rightarrow> alloc_answer \<Rightarrow> nat \<Rightarrow> sw_string option" where
  "swString_new malloc0 ans sz =
     (if \<not> malloc0 then None
      else case ans of
        None \<Rightarrow> None
      | Some fill \<Rightarrow> Some \<lparr>st_length = 0, st_size = sz, st_offset = 0, st_str = map fill [0..<sz]\<rparr>)"

definition swString_dup2 :: "bool \<Rightarrow> alloc_answer \<Rightarrow> sw_string \<Rightarrow> sw_string option option" where
  "swString_dup2 malloc0 ans src =
     (case swString_new malloc0 ans (st_size src) of
        None \<Rightarrow> Some None
      | Some dst \<Rightarrow> do {
          d \<leftarrow> slice_at (st_str src) 0 (st_length src);
          buf \<leftarrow> put_at (st_str dst) 0 d;
          Some (Some (dst\<lparr>st_length := st_length src, st_offset := st_offset src, st_str := buf\<rparr>)) })"

text \<open>\<open>swString_dup\<close> copies one byte more than the length, the terminating zero of its argument.\<close>

definition swString_dup :: "bool \<Rightarrow> alloc_answer \<Rightarrow> bytes \<Rightarrow> nat \<Rightarrow> sw_string option option" where
  "swString_dup malloc0 ans src_str len =
     (if \<not> malloc0 then Some None
      else case ans of
        None \<Rightarrow> Some None
      | Some fill \<Rightarrow> do {
          d \<leftarrow> slice_at src_str 0 (len + 1);
          buf \<leftarrow> put_at (map fill [0..<len + 1]) 0 d;
          Some (Some \<lparr>st_length = len, st_size = len + 1, st_offset = 0, st_str = buf\<rparr>) })"

definition swString_extend :: "alloc_answer \<Rightarrow> sw_string \<Rightarrow> nat \<Rightarrow> (int \<times> sw_string) option" where
  "swString_extend ans str new_size =
     (if \<not> new_size > st_size str then None
      else case ans of
        None \<Rightarrow> Some (SW_ERR, str)
      | Some fill \<Rightarrow> Some (SW_OK, str\<lparr>st_str := realloc_bytes fill new_size (st_str str), st_size := new_size\<rparr>))"

text \<open>The common first part of the three appends. The new size is a 32-bit integer: it is compared with
  and passed on as a 64-bit one after sign extension.\<close>

definition swString_reserve :: "alloc_answer \<Rightarrow> nat \<Rightarrow> sw_string \<Rightarrow> nat \<Rightarrow> (int \<times> sw_string) option" where
  "swString_reserve ans pagesize str len =
     (let new_size = of_nat (st_length str + len) :: u32 in
      if unat (scast new_size :: u64) > st_size str
      then swString_extend ans str (swoole_size_align (unat (scast (new_size * 2) :: u64)) pagesize mod 2 ^ 64)
      else Some (SW_OK, str))"

definition swString_append_ptr :: "alloc_answer \<Rightarrow> nat \<Rightarrow> sw_string \<Rightarrow> bytes \<Rightarrow> (int \<times> sw_string) option" where
  "swString_append_ptr ans pagesize str d = do {
     (r, str) \<leftarrow> swString_reserve ans pagesize str (length d);
     if r < 0 then Some (SW_ERR, str)
     else do {
       buf \<leftarrow> put_at (st_str str) (st_length str) d;
       Some (SW_OK, str\<lparr>st_str := buf, st_length := st_length str + length d\<rparr>) } }"

definition swString_append :: "alloc_answer \<Rightarrow> nat \<Rightarrow> sw_string \<Rightarrow> sw_string \<Rightarrow> (int \<times> sw_string) option" where
  "swString_append ans pagesize str append_str = do {
     (r, str) \<leftarrow> swString_reserve ans pagesize str (st_length append_str);
     if r < 0 then Some (SW_ERR, str)
     else do {
       d \<leftarrow> slice_at (st_str append_str) 0 (st_length append_str);
       buf \<leftarrow> put_at (st_str str) (st_length str) d;
       Some (SW_OK, str\<lparr>st_str := buf, st_length := st_length str + st_length append_str\<rparr>) } }"

text \<open>The decimal text is first written, with a terminating zero, into a local buffer of 16 bytes.\<close>

definition swString_append_int :: "alloc_answer \<Rightarrow> nat \<Rightarrow> sw_string \<Rightarrow> u32 \<Rightarrow> (int \<times> sw_string) option" where
  "swString_append_int ans pagesize str value = do {
     let txt = swoole_itoa (scast value);
     (if length txt + 1 > 16 then None else Some ());
     (r, str) \<leftarrow> swString_reserve ans pagesize str (length txt);
     if r < 0 then Some (SW_ERR, str)
     else do {
       buf \<leftarrow> put_at (st_str str) (st_length str) txt;
       Some (SW_OK, str\<lparr>st_str := buf, st_length := st_length str + length txt\<rparr>) } }"

definition swString_clear :: "sw_string \<Rightarrow> sw_string" where
  "swString_clear str = str\<lparr>st_length := 0, st_offset := 0\<rparr>"

section \<open>Contents\<close>

definition st_inv :: "sw_string \<Rightarrow> bool" where
  "st_inv s \<longleftrightarrow> length (st_str s) = st_size s \<and> st_length s \<le> st_size s"

definition st_contents :: "sw_string \<Rightarrow> bytes" where
  "st_contents s = take (st_length s) (st_str s)"

lemma sint_u32: "n < 2 ^ 31 \<Longrightarrow> unat (scast (of_nat n :: u32) :: u64) = n"
proof -
  assume "n < 2 ^ 31"
  then have "sint (of_nat n :: u32) = int n" by (simp add: signed_of_nat signed_take_bit_int_eq_self)
  moreover have "(scast (of_nat n :: u32) :: u64) = of_int (sint (of_nat n :: u32))" by simp
  ultimately have "(scast (of_nat n :: u32) :: u64) = of_nat n" by (metis of_int_of_nat_eq)
  moreover have "unat (of_nat n :: u64) = n" using \<open>n < 2 ^ 31\<close> by (intro unat_u64) simp
  ultimately show ?thesis by simp
qed

text \<open>Below one gigabyte none of the conversions loses anything.\<close>

lemma swString_reserve_cases:
  assumes "st_length s + n < 2 ^ 30" "0 < p" "p < 2 ^ 32"
  shows "swString_reserve ans p s n =
    (if st_length s + n \<le> st_size s then Some (SW_OK, s)
     else case ans of None \<Rightarrow> Some (SW_ERR, s)
      | Some fill \<Rightarrow> (let m = swoole_size_align (2 * (st_length s + n)) p in
          Some (SW_OK, s\<lparr>st_str := realloc_bytes fill m (st_str s), st_size := m\<rparr>)))"
proof -
  let ?n = "st_length s + n"
  have sz: "unat (scast (of_nat ?n :: u32) :: u64) = ?n" using assms(1) by (intro sint_u32) simp
  have "(of_nat ?n * 2 :: u32) = of_nat (2 * ?n)" by simp
  moreover have "unat (scast (of_nat (2 * ?n) :: u32) :: u64) = 2 * ?n" using assms(1) by (intro sint_u32) simp
  ultimately have dbl: "unat (scast (of_nat ?n * 2 :: u32) :: u64) = 2 * ?n" by metis
  let ?m = "swoole_size_align (2 * ?n) p"
  have "?m \<le> 2 * ?n + p" by (simp add: swoole_size_align_def)
  then have "?m < 2 ^ 64" using assms by simp
  then have m: "?m mod 2 ^ 64 = ?m" by simp
  have big: "2 * ?n < ?m" using size_align_multiple [OF assms(2), of "2 * ?n"] by simp
  show ?thesis unfolding swString_reserve_def Let_def sz dbl m
    using big by (auto simp: swString_extend_def split: option.splits)
qed

text \<open>What follows the reservation: room for the new bytes, contents unchanged.\<close>

lemma swString_reserve_ok:
  assumes "st_inv s" "st_length s + n < 2 ^ 30" "0 < p" "p < 2 ^ 32"
  shows "\<exists>s'. swString_reserve (Some fill) p s n = Some (SW_OK, s') \<and> st_inv s' \<and> st_length s' = st_length s \<and>
    st_contents s' = st_contents s \<and> st_length s + n \<le> st_size s' \<and> st_offset s' = st_offset s"
proof (cases "st_length s + n \<le> st_size s")
  case True
  then show ?thesis using assms by (simp add: swString_reserve_cases)
next
  case False
  let ?m = "swoole_size_align (2 * (st_length s + n)) p"
  have big: "2 * (st_length s + n) < ?m" using size_align_multiple [OF assms(3)] by blast
  have len: "st_length s \<le> length (st_str s)" using assms(1) by (simp add: st_inv_def)
  have "take (st_length s) (realloc_bytes fill ?m (st_str s)) = take (st_length s) (st_str s)"
    using big len by (intro take_realloc_bytes) auto
  then show ?thesis using False assms big by (simp add: swString_reserve_cases st_inv_def st_contents_def Let_def)
qed

lemma st_put_contents:
  assumes "st_inv s" "st_length s + length d \<le> st_size s"
  shows "\<exists>buf. put_at (st_str s) (st_length s) d = Some buf \<and>
    st_inv (s\<lparr>st_str := buf, st_length := st_length s + length d\<rparr>) \<and>
    st_contents (s\<lparr>st_str := buf, st_length := st_length s + length d\<rparr>) = st_contents s @ d"
  using assms by (simp add: put_at_in st_inv_def st_contents_def)

lemma append_ptr_grows:
  assumes "st_inv s" and "st_length s + length d < 2 ^ 30" and "0 < p" and "p < 2 ^ 32"
  shows "\<exists>s'. swString_append_ptr (Some fill) p s d = Some (SW_OK, s') \<and> st_inv s' \<and> st_contents s' = st_contents s @ d"
proof -
  obtain s1 where s1: "swString_reserve (Some fill) p s (length d) = Some (SW_OK, s1)" "st_inv s1"
    "st_length s1 = st_length s" "st_contents s1 = st_contents s" "st_length s + length d \<le> st_size s1"
    using swString_reserve_ok [OF assms] by blast
  obtain buf where "put_at (st_str s1) (st_length s1) d = Some buf"
    "st_inv (s1\<lparr>st_str := buf, st_length := st_length s1 + length d\<rparr>)"
    "st_contents (s1\<lparr>st_str := buf, st_length := st_length s1 + length d\<rparr>) = st_contents s1 @ d"
    using st_put_contents [OF s1(2), of d] s1(3,5) by auto
  then show ?thesis using s1 by (simp add: swString_append_ptr_def SW_OK_def)
qed

text \<open>C25. Appending bytes to a string below one gigabyte yields the old contents followed by the new
  bytes, growing the block when it is too small; when the block cannot grow the string is unchanged
  and the error is returned.\<close>

theorem swString_append_ptr_correct:
  assumes "st_inv s" and "st_length s + length d < 2 ^ 30" and "0 < p" and "p < 2 ^ 32"
  shows "(\<exists>s'. swString_append_ptr (Some fill) p s d = Some (SW_OK, s') \<and> st_inv s' \<and>
      st_contents s' = st_contents s @ d) \<and>
    (st_size s < st_length s + length d \<longrightarrow> swString_append_ptr None p s d = Some (SW_ERR, s))"
  using append_ptr_grows [OF assms] assms by (simp add: swString_append_ptr_def swString_reserve_cases SW_ERR_def)

theorem swString_append_ptr_correct_witness:
  "\<exists>s'. swString_append_ptr (Some (\<lambda>_. 0)) 4096
    \<lparr>st_length = 1, st_size = 2, st_offset = 0, st_str = [65, 0]\<rparr> [66, 67] = Some (SW_OK, s') \<and>
    st_contents s' = [65, 66, 67]"
  using swString_append_ptr_correct [of "\<lparr>st_length = 1, st_size = 2, st_offset = 0, st_str = [65, 0]\<rparr>" "[66, 67]" 4096 "\<lambda>_. 0"]
  by (auto simp: st_inv_def st_contents_def)

lemma swString_append_contents:
  assumes "st_inv s" "st_inv t" "st_length s + st_length t < 2 ^ 30" "0 < p" "p < 2 ^ 32"
  shows "\<exists>s'. swString_append (Some fill) p s t = Some (SW_OK, s') \<and> st_inv s' \<and>
    st_contents s' = st_contents s @ st_contents t"
proof -
  obtain s1 where s1: "swString_reserve (Some fill) p s (st_length t) = Some (SW_OK, s1)" "st_inv s1"
    "st_length s1 = st_length s" "st_contents s1 = st_contents s" "st_length s + st_length t \<le> st_size s1"
    using swString_reserve_ok [OF assms(1,3-5)] by blast
  have t: "slice_at (st_str t) 0 (st_length t) = Some (st_contents t)" "length (st_contents t) = st_length t"
    using assms(2) by (auto simp: st_inv_def st_contents_def)
  show ?thesis using st_put_contents [OF s1(2), of "st_contents t"] s1 t
    by (auto simp: swString_append_def SW_OK_def simp del: slice_at_in)
qed

text \<open>A copy has the contents of the original, and later changes of the one do not show in the other.\<close>

lemma swString_dup2_contents:
  "st_inv s \<Longrightarrow> \<exists>t. swString_dup2 True (Some fill) s = Some (Some t) \<and> st_inv t \<and> st_contents t = st_contents s"
  by (auto simp: swString_dup2_def swString_new_def st_inv_def st_contents_def put_at_in)

lemma swString_dup_contents:
  "length src = n \<Longrightarrow> \<exists>t. swString_dup True (Some fill) (src @ [0]) n = Some (Some t) \<and> st_inv t \<and> st_contents t = src"
  by (auto simp: swString_dup_def st_inv_def st_contents_def put_at_in)

section \<open>Appending a number\<close>

lemma itoa_digits_length: "unat nn < 10 ^ Suc k \<Longrightarrow> length (swoole_itoa_digits nn) \<le> Suc k"
proof (induction k arbitrary: nn)
  case 0
  then have "unat (nn div 10) = 0" by (simp add: unat_div)
  then have "nn div 10 = 0" by (simp add: unat_eq_zero)
  then show ?case by (subst swoole_itoa_digits.simps) (simp add: Let_def)
next
  case (Suc k)
  have "unat (nn div 10) < 10 ^ Suc k" using Suc.prems by (simp add: unat_div)
  then have "length (swoole_itoa_digits (nn div 10)) \<le> Suc k" by (rule Suc.IH)
  then show ?case by (subst swoole_itoa_digits.simps) (simp add: Let_def)
qed

lemma sint_scast_u32: "sint (scast (v :: u32) :: u64) = sint v"
proof -
  have "- (2 ^ 31) \<le> sint v" "sint v < 2 ^ 31" using sint_greater_eq [of v] sint_less [of v] by simp_all
  then have "signed_take_bit 63 (sint v) = sint v" by (intro signed_take_bit_int_eq_self) simp_all
  then show ?thesis by (simp add: signed_scast_eq)
qed

lemma itoa_int_length: "length (swoole_itoa (scast (v :: u32))) \<le> 11"
proof -
  let ?w = "scast v :: u64"
  have "- (2 ^ 31) \<le> sint ?w" "sint ?w < 2 ^ 31"
    using sint_greater_eq [of v] sint_less [of v] by (simp_all add: sint_scast_u32)
  then have "int (unat (if sint ?w < 0 then - ?w else ?w)) < int (10 ^ Suc 9)"
    using unat_minus_sint [of ?w] unat_sint [of ?w] by (cases "sint ?w < 0") auto
  then have "unat (if sint ?w < 0 then - ?w else ?w) < 10 ^ Suc 9" by (simp only: of_nat_less_iff)
  then have "length (swoole_itoa_digits (if sint ?w < 0 then - ?w else ?w)) \<le> Suc 9" by (rule itoa_digits_length)
  then show ?thesis by (auto simp: itoa_text)
qed

text \<open>C26. Appending an integer never overruns the local buffer of 16 bytes, and what it appends reads
  back as the integer.\<close>

theorem swString_append_int_reads_back:
  assumes "st_inv s" and "st_length s < 2 ^ 29" and "0 < p" and "p < 2 ^ 32"
  shows "\<exists>s' txt. swString_append_int (Some fill) p s v = Some (SW_OK, s') \<and> st_inv s' \<and>
    st_contents s' = st_contents s @ txt \<and> read_decimal txt = Some (sint v)"
proof -
  let ?t = "swoole_itoa (scast v)"
  have len: "length ?t \<le> 11" by (rule itoa_int_length)
  have "st_length s + length ?t < 2 ^ 30" using assms(2) len by simp
  then obtain s1 where s1: "swString_reserve (Some fill) p s (length ?t) = Some (SW_OK, s1)" "st_inv s1"
    "st_length s1 = st_length s" "st_contents s1 = st_contents s" "st_length s + length ?t \<le> st_size s1"
    using swString_reserve_ok [OF assms(1) _ assms(3,4)] by blast
  obtain buf where buf: "put_at (st_str s1) (st_length s1) ?t = Some buf"
    "st_inv (s1\<lparr>st_str := buf, st_length := st_length s1 + length ?t\<rparr>)"
    "st_contents (s1\<lparr>st_str := buf, st_length := st_length s1 + length ?t\<rparr>) = st_contents s1 @ ?t"
    using st_put_contents [OF s1(2), of ?t] s1(3,5) by auto
  then have "swString_append_int (Some fill) p s v = Some (SW_OK, s1\<lparr>st_str := buf, st_length := st_length s1 + length ?t\<rparr>)"
    using s1(1) len by (simp add: swString_append_int_def SW_OK_def)
  moreover have "read_decimal ?t = Some (sint v)" using itoa_reads [of "scast v"] by (simp add: sint_scast_u32)
  ultimately show ?thesis using buf s1(4) by auto
qed

theorem swString_append_int_reads_back_witness:
  "\<exists>s' txt. swString_append_int (Some (\<lambda>_. 0)) 4096 \<lparr>st_length = 0, st_size = 0, st_offset = 0, st_str = []\<rparr> (-7) = Some (SW_OK, s') \<and>
    st_contents s' = txt \<and> read_decimal txt = Some (-7)"
  using swString_append_int_reads_back [of "\<lparr>st_length = 0, st_size = 0, st_offset = 0, st_str = []\<rparr>" 4096 "\<lambda>_. 0" "-7"]
  by (auto simp: st_inv_def st_contents_def)

end
