(* ===== verification/Sw_Connection.thy ===== *)
theory Sw_Connection
  imports Sw_Buffer Sw_String
begin

text \<open>
  Connections (\<open>src/network/Connection.c\<close>, \<open>include/Connection.h\<close>, \<open>swConnection\<close> of \<open>include/swoole.h\<close>): the
  flags of a socket and its input and output buffers, and the functions that send what the output
  buffer holds. The answers of \<open>send\<close> and \<open>sendfile\<close> are arguments: the number returned and the error
  number after the call; an answer never exceeds what was asked for. The connection is not encrypted.
  \<open>None\<close> is an access through an invalid pointer or an abort.
\<close>

section \<open>Structures\<close>

record sw_connection =
  cn_fd :: int
  cn_session_id :: u32
  cn_socket_type :: u8
  cn_fdtype :: u8
  cn_events :: u32
  cn_active :: bool
  cn_connect_notify :: bool
  cn_close_notify :: bool
  cn_recv_wait :: bool
  cn_send_wait :: bool
  cn_direct_send :: bool
  cn_ssl_send :: bool
  cn_protect :: bool
  cn_close_wait :: bool
  cn_closed :: bool
  cn_closing :: bool
  cn_close_force :: bool
  cn_close_reset :: bool
  cn_removed :: bool
  cn_overflow :: bool
  cn_from_id :: u16
  cn_from_fd :: u16
  cn_object :: "sw_string option"
  cn_in_buffer :: "sw_buffer option"
  cn_out_buffer :: "sw_buffer option"
  cn_connect_time :: int
  cn_last_time :: int
  cn_uid :: int
  cn_buffer_size :: int
  cn_websocket_status :: u8

datatype errno = ENONE | EFAULT | ECONNRESET | EPIPE | ENOTCONN | ETIMEDOUT | ECONNREFUSED | ENETDOWN
  | ENETUNREACH | EHOSTDOWN | EHOSTUNREACH | EAGAIN | EINTR | EOTHER

datatype conn_error = SW_WAIT | SW_CLOSE | SW_ERROR

type_synonym io_result = "int \<times> errno"

text \<open>\<open>None\<close>: the bad address aborts the process.\<close>

fun swConnection_error :: "errno \<Rightarrow> conn_error option" where
  "swConnection_error EFAULT = None"
| "swConnection_error ECONNRESET = Some SW_CLOSE"
| "swConnection_error EPIPE = Some SW_CLOSE"
| "swConnection_error ENOTCONN = Some SW_CLOSE"
| "swConnection_error ETIMEDOUT = Some SW_CLOSE"
| "swConnection_error ECONNREFUSED = Some SW_CLOSE"
| "swConnection_error ENETDOWN = Some SW_CLOSE"
| "swConnection_error ENETUNREACH = Some SW_CLOSE"
| "swConnection_error EHOSTDOWN = Some SW_CLOSE"
| "swConnection_error EHOSTUNREACH = Some SW_CLOSE"
| "swConnection_error EAGAIN = Some SW_WAIT"
| "swConnection_error ENONE = Some SW_WAIT"
| "swConnection_error EINTR = Some SW_ERROR"
| "swConnection_error EOTHER = Some SW_ERROR"

section \<open>Sending\<close>

text \<open>The bytes a call of \<open>send\<close> may read, and what the kernel takes of them.\<close>

definition chunk_read :: "chunk \<Rightarrow> nat \<Rightarrow> nat \<Rightarrow> bytes option" where
  "chunk_read c off n = (case ck_store c of Block d \<Rightarrow> slice_at d off n | _ \<Rightarrow> None)"

text \<open>\<open>sendn\<close> is an \<open>int\<close> in the code; the chunks \<open>swReactor_write\<close> makes are shorter than \<open>2 ^ 31\<close> bytes.\<close>

definition swConnection_buffer_send ::
  "io_result \<Rightarrow> sw_connection \<Rightarrow> (int \<times> bytes \<times> sw_connection) option" where
  "swConnection_buffer_send ans conn = do {
     buffer \<leftarrow> cn_out_buffer conn;
     let p = swBuffer_get_trunk buffer;
     trunk \<leftarrow> bu_mem buffer p;
     let sendn = ck_length trunk - ck_offset trunk;
     if sendn = 0 then do {
       (_, b') \<leftarrow> swBuffer_pop_trunk buffer p;
       Some (SW_OK, [], conn\<lparr>cn_out_buffer := Some b'\<rparr>) }
     else do {
       d \<leftarrow> chunk_read trunk (unat (ck_offset trunk)) (unat sendn);
       let ret = min (fst ans) (int (unat sendn));
       if ret < 0 then do {
         e \<leftarrow> swConnection_error (snd ans);
         case e of
           SW_ERROR \<Rightarrow> Some (SW_OK, [], conn)
         | SW_CLOSE \<Rightarrow> Some (SW_ERR, [], conn\<lparr>cn_close_wait := True\<rparr>)
         | SW_WAIT \<Rightarrow> Some (SW_ERR, [], conn\<lparr>cn_send_wait := True\<rparr>) }
       else if ret = int (unat sendn) then do {
         (_, b') \<leftarrow> swBuffer_pop_trunk buffer p;
         Some (SW_OK, d, conn\<lparr>cn_out_buffer := Some b'\<rparr>) }
       else
         Some (SW_OK, take (nat ret) d, conn\<lparr>cn_out_buffer := Some (buffer\<lparr>bu_mem :=
           (bu_mem buffer)(p \<mapsto> trunk\<lparr>ck_offset := ck_offset trunk + of_int ret\<rparr>)\<rparr>)\<rparr>) } }"

definition SW_SENDFILE_TRUNK :: int where
  "SW_SENDFILE_TRUNK = 65536"

text \<open>\<open>swoole_sendfile\<close> advances the offset of the task by what it sent. The third value is the number of
  bytes of the file that were sent. The socket options around the transfer have no effect on the model.\<close>

definition swConnection_onSendfile ::
  "io_result \<Rightarrow> sw_connection \<Rightarrow> ptr \<Rightarrow> (int \<times> int \<times> sw_connection) option" where
  "swConnection_onSendfile ans conn p = do {
     buffer \<leftarrow> cn_out_buffer conn;
     chunk \<leftarrow> bu_mem buffer p;
     task \<leftarrow> (case ck_store chunk of Task t \<Rightarrow> Some t | _ \<Rightarrow> None);
     let sendn = (if tk_filesize task - tk_offset task > SW_SENDFILE_TRUNK then SW_SENDFILE_TRUNK
        else tk_filesize task - tk_offset task);
     let ret = min (fst ans) sendn;
     let task = (if ret > 0 then task\<lparr>tk_offset := tk_offset task + ret\<rparr> else task);
     let buffer = buffer\<lparr>bu_mem := (bu_mem buffer)(p \<mapsto> chunk\<lparr>ck_store := Task task\<rparr>)\<rparr>;
     let conn = conn\<lparr>cn_out_buffer := Some buffer\<rparr>;
     e \<leftarrow> (if ret \<le> 0 then swConnection_error (snd ans) else Some SW_WAIT);
     if ret \<le> 0 \<and> e = SW_ERROR then do {
       (_, b') \<leftarrow> swBuffer_pop_trunk buffer p;
       Some (SW_OK, 0, conn\<lparr>cn_out_buffer := Some b'\<rparr>) }
     else if ret \<le> 0 \<and> e = SW_CLOSE then Some (SW_ERR, 0, conn\<lparr>cn_close_wait := True\<rparr>)
     else if tk_offset task \<ge> tk_filesize task then do {
       (_, b') \<leftarrow> swBuffer_pop_trunk buffer p;
       Some (SW_OK, max ret 0, conn\<lparr>cn_out_buffer := Some b'\<rparr>) }
     else Some (SW_OK, max ret 0, conn) }"

section \<open>Buffers of a connection\<close>

text \<open>\<open>SW_BUFFER_SIZE\<close>: what a message between processes can carry behind its header of 12 bytes.\<close>

definition SW_IPC_MAX_SIZE :: int where
  "SW_IPC_MAX_SIZE = 8192"

definition SW_BUFFER_SIZE :: int where
  "SW_BUFFER_SIZE = SW_IPC_MAX_SIZE - 12"

definition swConnection_get_string_buffer :: "bool \<Rightarrow> alloc_answer \<Rightarrow> sw_connection \<Rightarrow> sw_string option" where
  "swConnection_get_string_buffer malloc0 ans conn =
     (case cn_object conn of None \<Rightarrow> swString_new malloc0 ans (nat SW_BUFFER_SIZE) | Some s \<Rightarrow> Some s)"

definition swConnection_clear_string_buffer :: "sw_connection \<Rightarrow> sw_connection" where
  "swConnection_clear_string_buffer conn =
     (case cn_object conn of None \<Rightarrow> conn | Some _ \<Rightarrow> conn\<lparr>cn_object := None\<rparr>)"

text \<open>Both return the address of a chunk, \<open>NULL\<close> when it cannot be allocated.\<close>

definition swConnection_get_in_buffer ::
  "bool \<Rightarrow> chunk_answer \<Rightarrow> sw_connection \<Rightarrow> (ptr \<times> sw_connection) option" where
  "swConnection_get_in_buffer malloc_ok ans conn =
     (case cn_in_buffer conn of
        None \<Rightarrow>
          (case swBuffer_new malloc_ok SW_BUFFER_SIZE of
             None \<Rightarrow> Some (NULL, conn)
           | Some b \<Rightarrow> do {
               (p, b) \<leftarrow> swBuffer_new_trunk ans b SW_CHUNK_DATA (ucast (bu_trunk_size b));
               if p = NULL then Some (NULL, conn) else Some (p, conn\<lparr>cn_in_buffer := Some b\<rparr>) })
      | Some b \<Rightarrow> do {
          full \<leftarrow> (if bu_tail b = NULL then Some True
             else do { t \<leftarrow> bu_mem b (bu_tail b); Some (ck_length t = ucast (bu_trunk_size b)) });
          if full then do {
            (p, b) \<leftarrow> swBuffer_new_trunk ans b SW_CHUNK_DATA (ucast (bu_trunk_size b));
            Some (p, conn\<lparr>cn_in_buffer := Some b\<rparr>) }
          else Some (bu_tail b, conn) })"

definition swConnection_get_out_buffer ::
  "bool \<Rightarrow> chunk_answer \<Rightarrow> sw_connection \<Rightarrow> chunk_type \<Rightarrow> (ptr \<times> sw_connection) option" where
  "swConnection_get_out_buffer malloc_ok ans conn type =
     (case (case cn_out_buffer conn of None \<Rightarrow> swBuffer_new malloc_ok SW_BUFFER_SIZE | Some b \<Rightarrow> Some b) of
        None \<Rightarrow> Some (NULL, conn)
      | Some b \<Rightarrow>
          if type = SW_CHUNK_SENDFILE then do {
            (p, b) \<leftarrow> swBuffer_new_trunk ans b SW_CHUNK_SENDFILE 0;
            Some (p, conn\<lparr>cn_out_buffer := Some b\<rparr>) }
          else if swBuffer_get_trunk b = NULL then do {
            (p, b) \<leftarrow> swBuffer_new_trunk ans b SW_CHUNK_DATA (ucast (bu_trunk_size b));
            Some (p, conn\<lparr>cn_out_buffer := Some b\<rparr>) }
          else Some (swBuffer_get_trunk b, conn\<lparr>cn_out_buffer := Some b\<rparr>))"

text \<open>The answers \<open>swConnection_sendfile\<close> gets: of the allocator for the buffer and for the task, of \<open>open\<close>, of
  \<open>fstat\<close> (the size of the file), and of the allocator for the chunk. When the file cannot be opened the
  message reads the file name through the task that has just been freed.\<close>

record sendfile_answers =
  sf_buffer :: bool
  sf_task :: bool
  sf_open :: int
  sf_stat :: "int option"
  sf_chunk :: chunk_answer

definition swConnection_sendfile ::
  "sendfile_answers \<Rightarrow> sw_connection \<Rightarrow> string \<Rightarrow> (int \<times> sw_connection) option" where
  "swConnection_sendfile ans conn filename =
     (case (case cn_out_buffer conn of None \<Rightarrow> swBuffer_new (sf_buffer ans) SW_BUFFER_SIZE | Some b \<Rightarrow> Some b) of
        None \<Rightarrow> Some (SW_ERR, conn)
      | Some b \<Rightarrow>
          let conn = conn\<lparr>cn_out_buffer := Some b\<rparr> in
          if \<not> sf_task ans then Some (SW_ERR, conn)
          else if sf_open ans < 0 then None
          else case sf_stat ans of
            None \<Rightarrow> Some (SW_ERR, conn)
          | Some sz \<Rightarrow> do {
              (p, b) \<leftarrow> swBuffer_new_trunk (sf_chunk ans) b SW_CHUNK_SENDFILE 0;
              if p = NULL then Some (SW_ERR, conn)
              else do {
                m \<leftarrow> mod_at p (\<lambda>c. c\<lparr>ck_store := Task \<lparr>tk_filename = filename, tk_fd = sf_open ans, tk_filesize = sz,
                  tk_offset = 0\<rparr>, ck_destroy := True\<rparr>) (bu_mem b);
                Some (SW_OK, conn\<lparr>cn_out_buffer := Some (b\<lparr>bu_mem := m\<rparr>)\<rparr>) } })"

section \<open>The byte stream of a connection\<close>

text \<open>What a chunk of data still has to send, and the bytes the output buffer still has to send.\<close>

definition chunk_pending :: "chunk \<Rightarrow> bytes" where
  "chunk_pending c = (case ck_store c of Block d \<Rightarrow> drop (unat (ck_offset c)) (take (unat (ck_length c)) d) | _ \<Rightarrow> [])"

definition chunk_ok :: "chunk \<Rightarrow> bool" where
  "chunk_ok c \<longleftrightarrow> ck_type c = SW_CHUNK_DATA \<and> ck_offset c \<le> ck_length c \<and>
     (case ck_store c of Block d \<Rightarrow> unat (ck_length c) \<le> length d | NoStore \<Rightarrow> ck_length c = 0 | _ \<Rightarrow> False)"

definition stream :: "chunk list \<Rightarrow> bytes" where
  "stream cs = concat (map chunk_pending cs)"

definition cn_rep :: "sw_connection \<Rightarrow> ptr list \<Rightarrow> chunk list \<Rightarrow> bool" where
  "cn_rep conn ps cs \<longleftrightarrow> (\<forall>c\<in>set cs. chunk_ok c) \<and>
     (case cn_out_buffer conn of None \<Rightarrow> ps = [] \<and> cs = [] | Some b \<Rightarrow> bu_rep b ps cs)"

lemma stream_simps [simp]: "stream [] = []" "stream (c # cs) = chunk_pending c @ stream cs" "stream (xs @ ys) = stream xs @ stream ys"
  by (simp_all add: stream_def)

lemma chunk_ok_unlinked [simp]: "chunk_ok (unlinked c) = chunk_ok c" "chunk_pending (unlinked c) = chunk_pending c"
  by (auto simp: chunk_ok_def chunk_pending_def split: chunk_store.splits)

lemma swConnection_error_some: "e \<noteq> EFAULT \<Longrightarrow> \<exists>x. swConnection_error e = Some x"
  by (cases e) auto

lemma cn_rep_flags [simp]:
  "cn_rep (conn\<lparr>cn_close_wait := v\<rparr>) ps cs = cn_rep conn ps cs"
  "cn_rep (conn\<lparr>cn_send_wait := v\<rparr>) ps cs = cn_rep conn ps cs"
  by (simp_all add: cn_rep_def)

lemma chunk_sent_empty: "chunk_ok c \<Longrightarrow> ck_length c - ck_offset c = 0 \<Longrightarrow> chunk_pending c = []"
  by (auto simp: chunk_ok_def chunk_pending_def split: chunk_store.splits)

text \<open>The bytes handed to \<open>send\<close> are what is pending, and a partial send leaves the rest pending.\<close>

lemma chunk_read_pending:
  assumes "chunk_ok c" "ck_length c - ck_offset c \<noteq> 0"
  shows "chunk_read c (unat (ck_offset c)) (unat (ck_length c - ck_offset c)) = Some (chunk_pending c)"
    "length (chunk_pending c) = unat (ck_length c - ck_offset c)"
proof -
  have le: "ck_offset c \<le> ck_length c" using assms(1) by (simp add: chunk_ok_def)
  then have sub: "unat (ck_length c - ck_offset c) = unat (ck_length c) - unat (ck_offset c)"
    and le': "unat (ck_offset c) \<le> unat (ck_length c)" by (simp_all add: unat_sub word_le_nat_alt)
  obtain d where d: "ck_store c = Block d" "unat (ck_length c) \<le> length d"
    using assms le by (auto simp: chunk_ok_def split: chunk_store.splits)
  then show "chunk_read c (unat (ck_offset c)) (unat (ck_length c - ck_offset c)) = Some (chunk_pending c)"
    using le' by (simp add: chunk_read_def chunk_pending_def sub drop_take)
  show "length (chunk_pending c) = unat (ck_length c - ck_offset c)" using d le' by (simp add: chunk_pending_def sub)
qed

lemma chunk_advance:
  assumes "chunk_ok c" "n < unat (ck_length c - ck_offset c)"
  shows "chunk_ok (c\<lparr>ck_offset := ck_offset c + of_nat n\<rparr>)"
    "chunk_pending (c\<lparr>ck_offset := ck_offset c + of_nat n\<rparr>) = drop n (chunk_pending c)"
proof -
  have le: "ck_offset c \<le> ck_length c" using assms(1) by (simp add: chunk_ok_def)
  then have n: "unat (ck_offset c) + n < unat (ck_length c)" using assms(2) by (simp add: unat_sub word_le_nat_alt)
  moreover have "unat (ck_length c) < 2 ^ 32" using unsigned_less [of "ck_length c"] by simp
  ultimately have off: "unat (ck_offset c + of_nat n) = unat (ck_offset c) + n"
    by (simp add: unat_word_ariths unat_of_nat)
  then show "chunk_ok (c\<lparr>ck_offset := ck_offset c + of_nat n\<rparr>)"
    using assms(1) n by (auto simp: chunk_ok_def word_le_nat_alt split: chunk_store.splits)
  show "chunk_pending (c\<lparr>ck_offset := ck_offset c + of_nat n\<rparr>) = drop n (chunk_pending c)"
    using off by (auto simp: chunk_pending_def add.commute split: chunk_store.splits)
qed

text \<open>How much work a buffer is: bytes and chunks.\<close>

definition work :: "chunk list \<Rightarrow> nat" where
  "work cs = length (stream cs) + length cs"

text \<open>What \<open>swConnection_buffer_send\<close> does with the first chunk \<open>k\<close> of the buffer; \<open>b1\<close> is the buffer without it.\<close>

definition send_pending ::
  "sw_connection \<Rightarrow> sw_buffer \<Rightarrow> sw_buffer \<Rightarrow> ptr \<Rightarrow> chunk \<Rightarrow> io_result \<Rightarrow> (int \<times> bytes \<times> sw_connection) option" where
  "send_pending conn b b1 p k ans =
      (let ret = min (fst ans) (int (unat (ck_length k - ck_offset k))) in
       if ret < 0 then do {
         e \<leftarrow> swConnection_error (snd ans);
         case e of
           SW_ERROR \<Rightarrow> Some (SW_OK, [], conn)
         | SW_CLOSE \<Rightarrow> Some (SW_ERR, [], conn\<lparr>cn_close_wait := True\<rparr>)
         | SW_WAIT \<Rightarrow> Some (SW_ERR, [], conn\<lparr>cn_send_wait := True\<rparr>) }
       else if ret = int (unat (ck_length k - ck_offset k))
       then Some (SW_OK, chunk_pending k, conn\<lparr>cn_out_buffer := Some b1\<rparr>)
       else Some (SW_OK, take (nat ret) (chunk_pending k), conn\<lparr>cn_out_buffer := Some (b\<lparr>bu_mem :=
           (bu_mem b)(p \<mapsto> k\<lparr>ck_offset := ck_offset k + of_int ret\<rparr>)\<rparr>)\<rparr>))"

lemma buffer_send_first:
  assumes "cn_rep conn ps (c # cs)"
  obtains p ps' k b b1 where "ps = p # ps'" "cn_out_buffer conn = Some b" "bu_rep b ps (c # cs)" "bu_head b = p"
    "bu_mem b p = Some k" "unlinked k = c" "chunk_ok k" "cn_rep (conn\<lparr>cn_out_buffer := Some b1\<rparr>) ps' cs"
    "\<And>ans. ck_length k - ck_offset k = 0 \<Longrightarrow>
       swConnection_buffer_send ans conn = Some (SW_OK, [], conn\<lparr>cn_out_buffer := Some b1\<rparr>)"
    "\<And>ans. ck_length k - ck_offset k \<noteq> 0 \<Longrightarrow> swConnection_buffer_send ans conn =
      send_pending conn b b1 p k ans"
proof -
  obtain b where b: "cn_out_buffer conn = Some b" "bu_rep b ps (c # cs)" and ok: "chunk_ok c" "\<forall>k\<in>set cs. chunk_ok k"
    using assms(1) by (cases "cn_out_buffer conn") (auto simp: cn_rep_def)
  obtain p ps' k where ps: "ps = p # ps'" "bu_head b = p" "p \<noteq> NULL" "bu_mem b p = Some k" "unlinked k = c"
    using bu_rep_first [OF b(2)] by metis
  obtain k1 b1 where pop: "swBuffer_pop_trunk b p = Some (k1, b1)" "bu_rep b1 ps' cs"
    using swBuffer_pop_trunk_rep [OF b(2)] ps by auto
  have k: "chunk_ok k" using ok(1) ps(5) by auto
  show thesis
  proof (rule that [OF ps(1) b ps(2,4,5) k])
    show "cn_rep (conn\<lparr>cn_out_buffer := Some b1\<rparr>) ps' cs" using pop(2) ok by (simp add: cn_rep_def)
  qed (use b(1) ps(2,4) pop(1) chunk_read_pending(1) [OF k] in
    \<open>simp_all add: swConnection_buffer_send_def swBuffer_get_trunk_def send_pending_def Let_def cong: if_cong\<close>)
qed

text \<open>A partial send of \<open>m\<close> bytes.\<close>

lemma chunk_partial:
  assumes "bu_rep b ps (c # cs)" "bu_mem b (bu_head b) = Some k" "unlinked k = c" "chunk_ok k" "\<forall>k\<in>set cs. chunk_ok k"
    and m: "m < unat (ck_length k - ck_offset k)"
  shows "\<exists>k'. cn_rep (conn\<lparr>cn_out_buffer := Some (b\<lparr>bu_mem := (bu_mem b)(bu_head b \<mapsto> k\<lparr>ck_offset := ck_offset k + of_nat m\<rparr>)\<rparr>)\<rparr>)
      ps (k' # cs) \<and> chunk_pending k' = drop m (chunk_pending c) \<and> (m \<noteq> 0 \<longrightarrow> work (k' # cs) < work (c # cs))"
proof -
  let ?k = "k\<lparr>ck_offset := ck_offset k + of_nat m\<rparr>"
  have "bu_rep (b\<lparr>bu_mem := (bu_mem b)(bu_head b \<mapsto> ?k)\<rparr>) ps (unlinked ?k # cs)"
    using bu_rep_update [OF assms(1), of k ?k] assms(2) by simp
  moreover note chunk_advance [OF assms(4) m]
  moreover have "chunk_pending k = chunk_pending c" using assms(3) by auto
  moreover have "ck_length k - ck_offset k \<noteq> 0" using m by (intro notI) simp
  moreover from calculation have "length (chunk_pending c) = unat (ck_length k - ck_offset k)"
    using chunk_read_pending(2) [OF assms(4)] by simp
  ultimately show ?thesis using assms(5) m by (intro exI [of _ "unlinked ?k"]) (auto simp: cn_rep_def work_def)
qed

lemma buffer_send_step:
  assumes "cn_rep conn ps (c # cs)" "snd ans \<noteq> EFAULT"
  shows "\<exists>r out conn' ps' cs'. swConnection_buffer_send ans conn = Some (r, out, conn') \<and> cn_rep conn' ps' cs' \<and>
    out @ stream cs' = stream (c # cs) \<and> set ps' \<subseteq> set ps \<and>
    (r = SW_OK \<and> (work cs' < work (c # cs) \<or> fst ans \<le> 0) \<and> (\<exists>b. conn' = conn\<lparr>cn_out_buffer := b\<rparr>) \<or>
     r = SW_ERR \<and> out = [] \<and> cs' = c # cs \<and> fst ans < 0 \<and>
       (swConnection_error (snd ans) = Some SW_CLOSE \<and> conn' = conn\<lparr>cn_close_wait := True\<rparr> \<or>
        swConnection_error (snd ans) = Some SW_WAIT \<and> conn' = conn\<lparr>cn_send_wait := True\<rparr>))"
proof -
  have self: "\<exists>b. conn = conn\<lparr>cn_out_buffer := b\<rparr>" by (rule exI [of _ "cn_out_buffer conn"]) simp
  obtain p ps' k b b1 where first: "ps = p # ps'" "cn_out_buffer conn = Some b" "bu_rep b ps (c # cs)" "bu_head b = p"
    "bu_mem b p = Some k" "unlinked k = c" "chunk_ok k" "cn_rep (conn\<lparr>cn_out_buffer := Some b1\<rparr>) ps' cs"
    and send: "\<And>ans. ck_length k - ck_offset k = 0 \<Longrightarrow>
       swConnection_buffer_send ans conn = Some (SW_OK, [], conn\<lparr>cn_out_buffer := Some b1\<rparr>)"
    "\<And>ans. ck_length k - ck_offset k \<noteq> 0 \<Longrightarrow> swConnection_buffer_send ans conn = send_pending conn b b1 p k ans"
    by (rule buffer_send_first [OF assms(1)]) (rule that)
  have pk: "chunk_pending c = chunk_pending k" using first(6) by auto
  have oks: "\<forall>k\<in>set cs. chunk_ok k" using assms(1) by (simp add: cn_rep_def)
  define N where "N = unat (ck_length k - ck_offset k)"
  consider (empty) "ck_length k - ck_offset k = 0" | (neg) "ck_length k - ck_offset k \<noteq> 0" "fst ans < 0"
    | (all) "ck_length k - ck_offset k \<noteq> 0" "int N \<le> fst ans"
    | (part) "ck_length k - ck_offset k \<noteq> 0" "0 \<le> fst ans" "fst ans < int N" by linarith
  then show ?thesis
  proof cases
    case empty
    then have "chunk_pending c = []" using chunk_sent_empty [OF first(7)] pk by simp
    then show ?thesis using send(1) [OF empty, of ans] first(1,8) by (fastforce simp: work_def)
  next
    case neg
    obtain e where e: "swConnection_error (snd ans) = Some e" using swConnection_error_some [OF assms(2)] by auto
    have "min (fst ans) (int N) = fst ans" using neg(2) by simp
    note run = send(2) [OF neg(1), of ans, unfolded send_pending_def, folded N_def, unfolded this Let_def]
    show ?thesis
    proof (cases e)
      case SW_ERROR
      then have "swConnection_buffer_send ans conn = Some (SW_OK, [], conn)" using neg(2) e run by simp
      then show ?thesis using neg(2) assms(1) self
        by (intro exI [of _ SW_OK] exI [of _ "[]"] exI [of _ conn] exI [of _ ps] exI [of _ "c # cs"]) simp
    next
      case SW_CLOSE
      then show ?thesis using neg(2) assms(1) e run
        by (intro exI [of _ SW_ERR] exI [of _ "[]"] exI [of _ "conn\<lparr>cn_close_wait := True\<rparr>"] exI [of _ ps]
            exI [of _ "c # cs"]) simp
    next
      case SW_WAIT
      then show ?thesis using neg(2) assms(1) e run
        by (intro exI [of _ SW_ERR] exI [of _ "[]"] exI [of _ "conn\<lparr>cn_send_wait := True\<rparr>"] exI [of _ ps]
            exI [of _ "c # cs"]) simp
    qed
  next
    case all
    then have "min (fst ans) (int N) = int N" by simp
    note run = send(2) [OF all(1), of ans, unfolded send_pending_def, folded N_def, unfolded this Let_def]
    show ?thesis using first(1,8) pk run
      by (intro exI [of _ SW_OK] exI [of _ "chunk_pending k"] exI [of _ "conn\<lparr>cn_out_buffer := Some b1\<rparr>"]
          exI [of _ ps'] exI [of _ cs]) (auto simp: work_def)
  next
    case part
    define m where "m = nat (fst ans)"
    have m1: "fst ans = int m" using part(2) by (simp add: m_def)
    have m2: "m < N" using part(3) unfolding m1 of_nat_less_iff .
    have m3: "min (fst ans) (int N) = int m" unfolding m1 using m2 by (intro min_absorb1) (simp only: of_nat_le_iff less_imp_le)
    obtain k' where "cn_rep (conn\<lparr>cn_out_buffer := Some (b\<lparr>bu_mem := (bu_mem b)(p \<mapsto> k\<lparr>ck_offset := ck_offset k + of_nat m\<rparr>)\<rparr>)\<rparr>)
        ps (k' # cs)" "chunk_pending k' = drop m (chunk_pending c)" "m \<noteq> 0 \<longrightarrow> work (k' # cs) < work (c # cs)"
      using chunk_partial [OF first(3) _ first(6,7) oks m2 [unfolded N_def], of conn] first(4,5) by auto
    moreover have "swConnection_buffer_send ans conn = Some (SW_OK, take m (chunk_pending k), conn\<lparr>cn_out_buffer :=
        Some (b\<lparr>bu_mem := (bu_mem b)(p \<mapsto> k\<lparr>ck_offset := ck_offset k + of_nat m\<rparr>)\<rparr>)\<rparr>)"
      unfolding send(2) [OF part(1), of ans, unfolded send_pending_def, folded N_def, unfolded m3 Let_def] using m2 by simp
    moreover have "take m (chunk_pending k) @ stream (k' # cs) = stream (c # cs)" using calculation(2) pk by simp
    moreover have "work (k' # cs) < work (c # cs) \<or> fst ans \<le> 0" using calculation(3) m1 by auto
    ultimately show ?thesis
      by (intro exI [of _ SW_OK] exI [of _ "take m (chunk_pending k)"]
          exI [of _ "conn\<lparr>cn_out_buffer := Some (b\<lparr>bu_mem := (bu_mem b)(p \<mapsto> k\<lparr>ck_offset := ck_offset k + of_nat m\<rparr>)\<rparr>)\<rparr>"]
          exI [of _ ps] exI [of _ "k' # cs"]) auto
  qed
qed

text \<open>An error that is neither a wait nor a close leaves the buffer as it is and is reported as success.\<close>

lemma buffer_send_error:
  assumes "cn_rep conn ps (c # cs)" "chunk_pending c \<noteq> []" "fst ans < 0" "swConnection_error (snd ans) = Some SW_ERROR"
  shows "swConnection_buffer_send ans conn = Some (SW_OK, [], conn)"
proof -
  obtain p ps' k b b1 where first: "unlinked k = c" "chunk_ok k"
    and send: "\<And>ans. ck_length k - ck_offset k \<noteq> 0 \<Longrightarrow> swConnection_buffer_send ans conn = send_pending conn b b1 p k ans"
    by (rule buffer_send_first [OF assms(1)]) (rule that)
  define N where "N = unat (ck_length k - ck_offset k)"
  have "ck_length k - ck_offset k \<noteq> 0"
    using assms(2) chunk_sent_empty [OF first(2)] chunk_ok_unlinked(2) [of k] first(1) by metis
  note run = send [OF this, of ans, unfolded send_pending_def, folded N_def]
  have "min (fst ans) (int N) = fst ans" using assms(3) by simp
  then show ?thesis using assms(3,4) run by (simp add: Let_def)
qed

end
