(* ===== verification/Sw_Events.thy ===== *)
theory Sw_Events
  imports Sw_Prelude
begin

unbundle bit_operations_syntax

text \<open>
  Event words (\<open>include/swoole.h\<close>, \<open>swReactorEpoll_event_set\<close> of \<open>src/reactor/ReactorEpoll.c\<close>): a descriptor type
  in the low eight bits and three event bits above them. The lemmas say that the two parts never
  disturb each other and that an event word round-trips through the functions that take it apart.
\<close>

section \<open>Event types\<close>

definition SW_EVENT_DEAULT :: u32 where "SW_EVENT_DEAULT = 256"
definition SW_EVENT_READ :: u32 where "SW_EVENT_READ = 512"
definition SW_EVENT_WRITE :: u32 where "SW_EVENT_WRITE = 1024"
definition SW_EVENT_ERROR :: u32 where "SW_EVENT_ERROR = 2048"

definition swReactor_event_read :: "u32 \<Rightarrow> bool" where
  "swReactor_event_read fdtype \<longleftrightarrow> fdtype < SW_EVENT_DEAULT \<or> fdtype AND SW_EVENT_READ \<noteq> 0"

definition swReactor_event_write :: "u32 \<Rightarrow> bool" where
  "swReactor_event_write fdtype \<longleftrightarrow> fdtype AND SW_EVENT_WRITE \<noteq> 0"

definition swReactor_event_error :: "u32 \<Rightarrow> bool" where
  "swReactor_event_error fdtype \<longleftrightarrow> fdtype AND SW_EVENT_ERROR \<noteq> 0"

definition swReactor_fdtype :: "u32 \<Rightarrow> u32" where
  "swReactor_fdtype fdtype = fdtype AND NOT SW_EVENT_READ AND NOT SW_EVENT_WRITE AND NOT SW_EVENT_ERROR"

definition swReactor_events :: "u32 \<Rightarrow> u32" where
  "swReactor_events fdtype =
     (let events = 0;
          events = (if swReactor_event_read fdtype then events OR SW_EVENT_READ else events);
          events = (if swReactor_event_write fdtype then events OR SW_EVENT_WRITE else events);
          events = (if swReactor_event_error fdtype then events OR SW_EVENT_ERROR else events)
      in events)"

text \<open>The conditions a descriptor is watched for.\<close>

record epoll_flags =
  ep_in :: bool
  ep_out :: bool
  ep_err :: bool

definition swReactorEpoll_event_set :: "u32 \<Rightarrow> epoll_flags" where
  "swReactorEpoll_event_set fdtype =
     \<lparr>ep_in = swReactor_event_read fdtype, ep_out = swReactor_event_write fdtype, ep_err = swReactor_event_error fdtype\<rparr>"

section \<open>Event words\<close>

text \<open>The events of a connection are three bits beside the descriptor type, which takes eight.\<close>

definition ev_of :: "bool \<Rightarrow> bool \<Rightarrow> bool \<Rightarrow> u32" where
  "ev_of r w e = (if r then SW_EVENT_READ else 0) OR (if w then SW_EVENT_WRITE else 0) OR (if e then SW_EVENT_ERROR else 0)"

lemma small_take_bit: "x < 256 \<Longrightarrow> take_bit 8 (x :: u32) = x"
proof -
  assume "x < 256"
  then have "unat x < 256" by (simp add: word_less_nat_alt)
  then have "unat (x mod 256) = unat x" by (simp add: unat_mod)
  then have "x mod 256 = x" by (simp add: word_unat_eq_iff)
  then show ?thesis by (simp add: take_bit_eq_mod)
qed

lemma small_and_flag:
  assumes "x < 256"
  shows "x AND SW_EVENT_READ = 0" "x AND SW_EVENT_WRITE = 0" "x AND SW_EVENT_ERROR = 0"
proof -
  have mask: "x AND mask 8 = x" using small_take_bit [OF assms] unfolding take_bit_eq_mask .
  have low: "x AND b = x AND take_bit 8 b" for b
  proof -
    have "x AND b = (x AND mask 8) AND b" unfolding mask by (rule refl)
    also have "\<dots> = x AND take_bit 8 b" unfolding take_bit_eq_mask by (simp only: ac_simps)
    finally show ?thesis .
  qed
  show "x AND SW_EVENT_READ = 0" "x AND SW_EVENT_WRITE = 0" "x AND SW_EVENT_ERROR = 0"
    using low [of 512] low [of 1024] low [of 2048] by (simp_all add: SW_EVENT_READ_def SW_EVENT_WRITE_def SW_EVENT_ERROR_def)
qed

lemma byte_small: "(ucast (t :: u8) :: u32) < 256"
  by (simp add: word_less_nat_alt unsigned_ucast_eq take_bit_eq_mod le_less_trans [OF mod_less_eq_dividend unat_u8_less])

lemmas byte_and_flag [simp] = small_and_flag [OF byte_small]

lemma ev_of_flags [simp]:
  "ev_of r w e AND SW_EVENT_READ = (if r then SW_EVENT_READ else 0)"
  "ev_of r w e AND SW_EVENT_WRITE = (if w then SW_EVENT_WRITE else 0)"
  "ev_of r w e AND SW_EVENT_ERROR = (if e then SW_EVENT_ERROR else 0)"
  by (cases r; cases w; cases e; simp add: ev_of_def SW_EVENT_READ_def SW_EVENT_WRITE_def SW_EVENT_ERROR_def)+

lemma ev_of_zero: "ev_of r w e = 0 \<longleftrightarrow> \<not> r \<and> \<not> w \<and> \<not> e"
  by (cases r; cases w; cases e; simp add: ev_of_def SW_EVENT_READ_def SW_EVENT_WRITE_def SW_EVENT_ERROR_def)

lemma ev_of_or_write: "ev_of r w e OR SW_EVENT_WRITE = ev_of r True e"
  by (cases r; cases w; cases e; simp add: ev_of_def SW_EVENT_READ_def SW_EVENT_WRITE_def SW_EVENT_ERROR_def)

lemma ev_of_not_write: "ev_of r w e AND NOT SW_EVENT_WRITE = ev_of r False e"
  by (cases r; cases w; cases e; simp add: ev_of_def SW_EVENT_READ_def SW_EVENT_WRITE_def SW_EVENT_ERROR_def)

lemma SW_EVENT_nonzero [simp]: "SW_EVENT_READ \<noteq> 0" "SW_EVENT_WRITE \<noteq> 0" "SW_EVENT_ERROR \<noteq> 0"
  by (simp_all add: SW_EVENT_READ_def SW_EVENT_WRITE_def SW_EVENT_ERROR_def)

text \<open>A type with at least one event.\<close>

lemma event_word:
  fixes t :: u8
  assumes "r \<or> w \<or> e"
  shows "swReactor_event_read (ucast t OR ev_of r w e) = r" "swReactor_event_write (ucast t OR ev_of r w e) = w"
    "swReactor_event_error (ucast t OR ev_of r w e) = e"
proof -
  let ?x = "ucast t OR ev_of r w e"
  have flags: "?x AND SW_EVENT_READ = ev_of r w e AND SW_EVENT_READ" "?x AND SW_EVENT_WRITE = ev_of r w e AND SW_EVENT_WRITE"
    "?x AND SW_EVENT_ERROR = ev_of r w e AND SW_EVENT_ERROR" by (simp_all add: bit.conj_disj_distrib2)
  show "swReactor_event_write ?x = w" "swReactor_event_error ?x = e"
    using flags by (simp_all add: swReactor_event_write_def swReactor_event_error_def)
  have "\<not> ?x < 256"
  proof
    assume "?x < 256"
    then show False using small_and_flag [of ?x] flags assms by (auto split: if_splits)
  qed
  then show "swReactor_event_read ?x = r" using flags by (simp add: swReactor_event_read_def SW_EVENT_DEAULT_def)
qed

lemma swReactor_events_of:
  "swReactor_events x = ev_of (swReactor_event_read x) (swReactor_event_write x) (swReactor_event_error x)"
  by (simp add: swReactor_events_def ev_of_def Let_def or.assoc)

lemma event_word_events: "r \<or> w \<or> e \<Longrightarrow> swReactor_events (ucast (t :: u8) OR ev_of r w e) = ev_of r w e"
  by (simp add: swReactor_events_of event_word)

lemma event_word_epoll:
  "r \<or> w \<or> e \<Longrightarrow> swReactorEpoll_event_set (ucast (t :: u8) OR ev_of r w e) = \<lparr>ep_in = r, ep_out = w, ep_err = e\<rparr>"
  by (simp add: swReactorEpoll_event_set_def event_word)

lemma and_not_flag: "(a :: u32) AND m = 0 \<Longrightarrow> a AND NOT m = a"
proof -
  assume "a AND m = 0"
  moreover have "a AND (m OR NOT m) = (a AND m) OR (a AND NOT m)" by (rule bit.conj_disj_distrib)
  ultimately show ?thesis by simp
qed

lemma event_word_fdtype: "swReactor_fdtype (ucast (t :: u8) OR ev_of r w e) = ucast t"
proof -
  have ev: "ev_of r w e AND NOT SW_EVENT_READ AND NOT SW_EVENT_WRITE AND NOT SW_EVENT_ERROR = 0"
    by (cases r; cases w; cases e; simp add: ev_of_def SW_EVENT_READ_def SW_EVENT_WRITE_def SW_EVENT_ERROR_def)
  show ?thesis
    by (simp only: swReactor_fdtype_def bit.conj_disj_distrib2 ev) (simp add: and.assoc [symmetric] and_not_flag)
qed

end
