(* ===== verification/Sw_Reactor.thy ===== *)
theory Sw_Reactor
  imports Sw_Connection Sw_Events
begin

unbundle bit_operations_syntax

text \<open>
  The event loop's bookkeeping (\<open>src/reactor/ReactorBase.c\<close>, \<open>src/reactor/ReactorEpoll.c\<close>, the inline
  functions of \<open>include/swoole.h\<close>): which events of which descriptor are watched, the handlers, and the
  buffered output of a socket. The kernel's interest list of \<open>epoll\<close> is part of the state: adding a
  descriptor that is there and changing or removing one that is not fails, as does every call when the
  kernel has no resources (\<open>re_ctl_ok\<close>). Handlers and deferred callbacks are known by numbers.
\<close>

section \<open>The reactor\<close>

definition SW_MAX_FDTYPE :: nat where "SW_MAX_FDTYPE = 32"
definition SW_FD_CLOSE :: nat where "SW_FD_CLOSE = 2"
definition SW_FD_WRITE :: nat where "SW_FD_WRITE = 7"

text \<open>\<open>re_socks\<close> is the table of connections, shared memory for a reactor thread and a paged array otherwise;
  \<open>re_alloc_ok\<close> says for which descriptors the array can be extended. \<open>re_epoll\<close> is the kernel's list.\<close>

record reactor =
  re_thread :: bool
  re_max_sockets :: nat
  re_socks :: "nat \<Rightarrow> sw_connection"
  re_alloc_ok :: "nat \<Rightarrow> bool"
  re_epoll :: "nat \<rightharpoonup> epoll_flags"
  re_ctl_ok :: bool
  re_event_num :: int
  re_handle :: "nat option list"
  re_write_handle :: "nat option list"
  re_error_handle :: "nat option list"
  re_defer :: "nat list"

definition sock_upd :: "nat \<Rightarrow> (sw_connection \<Rightarrow> sw_connection) \<Rightarrow> reactor \<Rightarrow> reactor" where
  "sock_upd fd f re = re\<lparr>re_socks := (re_socks re)(fd := f (re_socks re fd))\<rparr>"

text \<open>\<open>swReactor_get\<close>: the outer \<open>None\<close> is the failed assertion, the inner one the null pointer. \<open>socket\<close> is the
  reactor after a successful call; the callers use the result without testing it.\<close>

definition swReactor_get :: "reactor \<Rightarrow> nat \<Rightarrow> (nat option \<times> reactor) option" where
  "swReactor_get re fd =
     (if \<not> fd < re_max_sockets re then None
      else if re_thread re then Some (Some fd, re)
      else if \<not> re_alloc_ok re fd then Some (None, re)
      else Some (Some fd, if \<not> cn_active (re_socks re fd) then sock_upd fd (\<lambda>c. c\<lparr>cn_fd := int fd\<rparr>) re else re))"

definition socket :: "reactor \<Rightarrow> nat \<Rightarrow> reactor option" where
  "socket re fd = (case swReactor_get re fd of Some (Some _, re') \<Rightarrow> Some re' | _ \<Rightarrow> None)"

definition swReactor_add :: "reactor \<Rightarrow> nat \<Rightarrow> u32 \<Rightarrow> (int \<times> reactor) option" where
  "swReactor_add re fd fdtype =
     (if \<not> fd \<le> re_max_sockets re then None
      else do {
        re \<leftarrow> socket re fd;
        Some (SW_OK, sock_upd fd (\<lambda>c. c\<lparr>cn_fdtype := ucast (swReactor_fdtype fdtype),
          cn_events := swReactor_events fdtype, cn_removed := False\<rparr>) re) })"

definition swReactor_del :: "reactor \<Rightarrow> nat \<Rightarrow> (int \<times> reactor) option" where
  "swReactor_del re fd = do {
     re \<leftarrow> socket re fd;
     Some (SW_OK, sock_upd fd (\<lambda>c. c\<lparr>cn_events := 0, cn_removed := True\<rparr>) re) }"

definition swReactor_set :: "reactor \<Rightarrow> nat \<Rightarrow> u32 \<Rightarrow> reactor option" where
  "swReactor_set re fd fdtype = do {
     re \<leftarrow> socket re fd;
     Some (sock_upd fd (\<lambda>c. c\<lparr>cn_events := swReactor_events fdtype\<rparr>) re) }"

definition swReactorEpoll_add :: "reactor \<Rightarrow> nat \<Rightarrow> u32 \<Rightarrow> (int \<times> reactor) option" where
  "swReactorEpoll_add re fd fdtype = do {
     (r, re) \<leftarrow> swReactor_add re fd fdtype;
     if r < 0 then Some (SW_ERR, re)
     else if \<not> re_ctl_ok re \<or> re_epoll re fd \<noteq> None then Some (SW_ERR, re)
     else Some (SW_OK, re\<lparr>re_epoll := (re_epoll re)(fd \<mapsto> swReactorEpoll_event_set fdtype),
       re_event_num := re_event_num re + 1\<rparr>) }"

definition swReactorEpoll_del :: "reactor \<Rightarrow> nat \<Rightarrow> (int \<times> reactor) option" where
  "swReactorEpoll_del re fd =
     (if fd = 0 then Some (SW_ERR, re)
      else if \<not> re_ctl_ok re \<or> re_epoll re fd = None then Some (SW_ERR, re)
      else do {
        (r, re) \<leftarrow> swReactor_del (re\<lparr>re_epoll := (re_epoll re)(fd := None)\<rparr>) fd;
        if r < 0 then Some (SW_ERR, re)
        else Some (SW_OK, re\<lparr>re_event_num := (if re_event_num re \<le> 0 then 0 else re_event_num re - 1)\<rparr>) })"

definition swReactorEpoll_set :: "reactor \<Rightarrow> nat \<Rightarrow> u32 \<Rightarrow> (int \<times> reactor) option" where
  "swReactorEpoll_set re fd fdtype =
     (if ep_out (swReactorEpoll_event_set fdtype) \<and> \<not> fd > 2 then None
      else if \<not> re_ctl_ok re \<or> re_epoll re fd = None then Some (SW_ERR, re)
      else do {
        re \<leftarrow> swReactor_set (re\<lparr>re_epoll := (re_epoll re)(fd \<mapsto> swReactorEpoll_event_set fdtype)\<rparr>) fd fdtype;
        Some (SW_OK, re) })"

section \<open>Handlers and deferred callbacks\<close>

datatype event_type = Read_event | Write_event | Error_event

definition swReactor_getHandle :: "reactor \<Rightarrow> event_type \<Rightarrow> nat \<Rightarrow> nat option option" where
  "swReactor_getHandle re event_type fdtype =
     (case event_type of
        Write_event \<Rightarrow> do { h \<leftarrow> byte_at (re_write_handle re) fdtype;
          if h \<noteq> None then Some h else byte_at (re_handle re) SW_FD_WRITE }
      | Error_event \<Rightarrow> do { h \<leftarrow> byte_at (re_error_handle re) fdtype;
          if h \<noteq> None then Some h else byte_at (re_handle re) SW_FD_CLOSE }
      | Read_event \<Rightarrow> byte_at (re_handle re) fdtype)"

definition swReactor_setHandle :: "reactor \<Rightarrow> u32 \<Rightarrow> nat option \<Rightarrow> int \<times> reactor" where
  "swReactor_setHandle re fdtype0 handle =
     (let fdtype = unat (swReactor_fdtype fdtype0) in
      if fdtype \<ge> SW_MAX_FDTYPE then (SW_ERR, re)
      else if swReactor_event_read fdtype0 then (SW_OK, re\<lparr>re_handle := (re_handle re)[fdtype := handle]\<rparr>)
      else if swReactor_event_write fdtype0 then (SW_OK, re\<lparr>re_write_handle := (re_write_handle re)[fdtype := handle]\<rparr>)
      else if swReactor_event_error fdtype0 then (SW_OK, re\<lparr>re_error_handle := (re_error_handle re)[fdtype := handle]\<rparr>)
      else (SW_ERR, re))"

definition swReactor_defer :: "bool \<Rightarrow> reactor \<Rightarrow> nat \<Rightarrow> int \<times> reactor" where
  "swReactor_defer malloc_ok re callback =
     (if \<not> malloc_ok then (SW_ERR, re) else (SW_OK, re\<lparr>re_defer := re_defer re @ [callback]\<rparr>))"

section \<open>Closing and writing\<close>

definition zero_connection :: sw_connection where
  "zero_connection = \<lparr>cn_fd = 0, cn_session_id = 0, cn_socket_type = 0, cn_fdtype = 0, cn_events = 0, cn_active = False,
     cn_connect_notify = False, cn_close_notify = False, cn_recv_wait = False, cn_send_wait = False,
     cn_direct_send = False, cn_ssl_send = False, cn_protect = False, cn_close_wait = False, cn_closed = False,
     cn_closing = False, cn_close_force = False, cn_close_reset = False, cn_removed = False, cn_overflow = False,
     cn_from_id = 0, cn_from_fd = 0, cn_object = None, cn_in_buffer = None, cn_out_buffer = None,
     cn_connect_time = 0, cn_last_time = 0, cn_uid = 0, cn_buffer_size = 0, cn_websocket_status = 0\<rparr>"

text \<open>Closing a descriptor also takes it off the kernel's list. \<open>fuel\<close> bounds the chunks freed.\<close>

definition swReactor_close :: "nat \<Rightarrow> reactor \<Rightarrow> nat \<Rightarrow> (int \<times> reactor) option" where
  "swReactor_close fuel re fd = do {
     re \<leftarrow> socket re fd;
     (case cn_out_buffer (re_socks re fd) of None \<Rightarrow> Some () | Some b \<Rightarrow> do { _ \<leftarrow> swBuffer_free fuel b; Some () });
     (case cn_in_buffer (re_socks re fd) of None \<Rightarrow> Some () | Some b \<Rightarrow> do { _ \<leftarrow> swBuffer_free fuel b; Some () });
     Some (0, sock_upd fd (\<lambda>_. zero_connection\<lparr>cn_removed := True\<rparr>) (re\<lparr>re_epoll := (re_epoll re)(fd := None)\<rparr>)) }"

text \<open>The answers a write gets besides those of \<open>send\<close>: of the allocator for the buffer and for the chunk. The
  size of the message structure for new buffers is \<open>SW_IPC_MAX_SIZE\<close>; the process-wide settings are
  \<open>socket_buffer_size\<close> and \<open>socket_dontwait\<close>.\<close>

record write_env =
  we_buffer :: bool
  we_chunk :: chunk_answer
  we_socket_buffer_size :: int
  we_dontwait :: bool

definition append_buffer :: "write_env \<Rightarrow> reactor \<Rightarrow> nat \<Rightarrow> bytes \<Rightarrow> (int \<times> reactor) option" where
  "append_buffer env re fd buf = do {
     buffer \<leftarrow> cn_out_buffer (re_socks re fd);
     if bu_length buffer > word_of_int (cn_buffer_size (re_socks re fd)) \<and> we_dontwait env then Some (SW_ERR, re)
     else do {
       (r, b) \<leftarrow> swBuffer_append (we_chunk env) buffer buf;
       let re = sock_upd fd (\<lambda>c. c\<lparr>cn_out_buffer := Some b\<rparr>) re;
       if r < 0 then Some (SW_ERR, re) else Some (SW_OK, re) } }"

definition do_buffer :: "write_env \<Rightarrow> reactor \<Rightarrow> nat \<Rightarrow> bytes \<Rightarrow> (int \<times> reactor) option" where
  "do_buffer env re fd buf =
     (case (case cn_out_buffer (re_socks re fd) of None \<Rightarrow> swBuffer_new (we_buffer env) SW_IPC_MAX_SIZE | Some b \<Rightarrow> Some b) of
        None \<Rightarrow> Some (SW_ERR, re)
      | Some b \<Rightarrow> do {
          let re = sock_upd fd (\<lambda>c. c\<lparr>cn_out_buffer := Some b, cn_events := cn_events c OR SW_EVENT_WRITE\<rparr>) re;
          let c = re_socks re fd;
          (_, re) \<leftarrow> (if cn_events c AND SW_EVENT_READ \<noteq> 0
             then swReactorEpoll_set re fd (ucast (cn_fdtype c) OR cn_events c)
             else swReactorEpoll_add re fd (ucast (cn_fdtype c) OR SW_EVENT_WRITE));
          append_buffer env re fd buf })"

text \<open>The answers of \<open>send\<close>, one per call; \<open>None\<close> while the call is still to be answered. The second component
  of a result are the bytes the kernel took.\<close>

primrec do_send :: "io_result list \<Rightarrow> write_env \<Rightarrow> reactor \<Rightarrow> nat \<Rightarrow> bytes \<Rightarrow> (int \<times> bytes \<times> reactor) option" where
  "do_send [] env re fd buf = None"
| "do_send (ans # rest) env re fd buf =
     (let ret = min (fst ans) (int (length buf)) in
      if ret > 0 then
        (if ret = int (length buf) then Some (ret, buf, re)
         else do { (r, re) \<leftarrow> do_buffer env re fd (drop (nat ret) buf); Some (r, take (nat ret) buf, re) })
      else if snd ans = EAGAIN then do { (r, re) \<leftarrow> do_buffer env re fd buf; Some (r, [], re) }
      else if snd ans = EINTR then do_send rest env re fd buf
      else Some (SW_ERR, [], re))"

definition swReactor_write ::
  "io_result list \<Rightarrow> write_env \<Rightarrow> reactor \<Rightarrow> nat \<Rightarrow> bytes \<Rightarrow> (int \<times> bytes \<times> reactor) option" where
  "swReactor_write answers env re fd buf = do {
     re \<leftarrow> socket re fd;
     let buffer = cn_out_buffer (re_socks re fd);
     let re = sock_upd fd (\<lambda>c. if cn_fd c = 0 then c\<lparr>cn_fd := int fd\<rparr> else c) re;
     let re = sock_upd fd (\<lambda>c. if cn_buffer_size c = 0 then c\<lparr>cn_buffer_size := we_socket_buffer_size env\<rparr> else c) re;
     if swBuffer_empty buffer then
       (if cn_ssl_send (re_socks re fd) then do { (r, re) \<leftarrow> do_buffer env re fd buf; Some (r, [], re) }
        else do_send answers env re fd buf)
     else do { (r, re) \<leftarrow> append_buffer env re fd buf; Some (r, [], re) } }"

text \<open>The loop of \<open>swReactor_onWrite\<close>, one answer per iteration: \<open>Inl\<close> is the early return.\<close>

primrec onWrite_loop ::
  "io_result list \<Rightarrow> nat \<Rightarrow> reactor \<Rightarrow> nat \<Rightarrow> bytes \<Rightarrow> ((unit + unit) \<times> bytes \<times> reactor) option" where
  "onWrite_loop [] fuel re fd out =
     (if swBuffer_empty (cn_out_buffer (re_socks re fd)) then Some (Inr (), out, re) else None)"
| "onWrite_loop (ans # rest) fuel re fd out =
     (if swBuffer_empty (cn_out_buffer (re_socks re fd)) then Some (Inr (), out, re)
      else do {
        b \<leftarrow> cn_out_buffer (re_socks re fd);
        chunk \<leftarrow> bu_mem b (swBuffer_get_trunk b);
        if ck_type chunk = SW_CHUNK_CLOSE then do { (_, re) \<leftarrow> swReactor_close fuel re fd; Some (Inl (), out, re) }
        else do {
          (ret, sent, conn) \<leftarrow>
            (if ck_type chunk = SW_CHUNK_SENDFILE
             then map_option (\<lambda>(r, n, c). (r, [], c)) (swConnection_onSendfile ans (re_socks re fd) (swBuffer_get_trunk b))
             else swConnection_buffer_send ans (re_socks re fd));
          let re = sock_upd fd (\<lambda>_. conn) re;
          if ret < 0 \<and> cn_close_wait conn then do { (_, re) \<leftarrow> swReactor_close fuel re fd; Some (Inl (), out @ sent, re) }
          else if ret < 0 \<and> cn_send_wait conn then Some (Inl (), out @ sent, re)
          else onWrite_loop rest fuel re fd (out @ sent) } })"

definition swReactor_onWrite ::
  "io_result list \<Rightarrow> nat \<Rightarrow> reactor \<Rightarrow> nat \<Rightarrow> (int \<times> bytes \<times> reactor) option" where
  "swReactor_onWrite answers fuel re fd = do {
     re \<leftarrow> socket re fd;
     (r, out, re) \<leftarrow> onWrite_loop answers fuel re fd [];
     case r of
       Inl _ \<Rightarrow> Some (SW_OK, out, re)
     | Inr _ \<Rightarrow>
         let c = re_socks re fd in
         if cn_events c AND SW_EVENT_READ \<noteq> 0 then do {
           let re = sock_upd fd (\<lambda>c. c\<lparr>cn_events := cn_events c AND NOT SW_EVENT_WRITE\<rparr>) re;
           (_, re) \<leftarrow> swReactorEpoll_set re fd (ucast (cn_fdtype c) OR cn_events (re_socks re fd));
           Some (SW_OK, out, re) }
         else do {
           (_, re) \<leftarrow> swReactorEpoll_del re fd;
           Some (SW_OK, out, re) } }"

definition swReactor_wait_write_buffer ::
  "io_result list \<Rightarrow> nat \<Rightarrow> reactor \<Rightarrow> nat \<Rightarrow> (int \<times> bytes \<times> reactor) option" where
  "swReactor_wait_write_buffer answers fuel re fd = do {
     re \<leftarrow> socket re fd;
     if cn_out_buffer (re_socks re fd) \<noteq> None then swReactor_onWrite answers fuel re fd
     else Some (SW_OK, [], re) }"

end
