(* ===== verification/Sw_Reactor_Props.thy ===== *)
theory Sw_Reactor_Props
  imports Sw_Reactor
begin

unbundle bit_operations_syntax

text \<open>
  What the reactor's output path guarantees: bytes accepted by \<open>swReactor_write\<close> leave in order, each
  once, and as long as some are pending the kernel watches the descriptor for writing.
\<close>

section \<open>The state of one descriptor\<close>

definition re_ok :: "reactor \<Rightarrow> nat \<Rightarrow> bool" where
  "re_ok re fd \<longleftrightarrow> 2 < fd \<and> fd < re_max_sockets re \<and> (re_thread re \<or> re_alloc_ok re fd) \<and> re_ctl_ok re"

text \<open>\<open>r\<close>, \<open>w\<close>, \<open>e\<close>: watched for reading, writing, errors. The connection's record and the kernel's list agree,
  and a descriptor with pending output is watched for writing.\<close>

definition good :: "reactor \<Rightarrow> nat \<Rightarrow> ptr list \<Rightarrow> chunk list \<Rightarrow> bool \<Rightarrow> bool \<Rightarrow> bool \<Rightarrow> bool" where
  "good re fd ps cs r w e \<longleftrightarrow> re_ok re fd \<and> cn_rep (re_socks re fd) ps cs \<and> cn_events (re_socks re fd) = ev_of r w e \<and>
     re_epoll re fd = (if r \<or> w \<or> e then Some \<lparr>ep_in = r, ep_out = w, ep_err = e\<rparr> else None) \<and>
     (cs \<noteq> [] \<longrightarrow> w) \<and> (e \<longrightarrow> r) \<and> \<not> cn_ssl_send (re_socks re fd) \<and> \<not> cn_close_wait (re_socks re fd)"

lemma sock_upd_simps [simp]:
  "re_socks (sock_upd fd f re) fd = f (re_socks re fd)" "re_epoll (sock_upd fd f re) = re_epoll re"
  "re_max_sockets (sock_upd fd f re) = re_max_sockets re" "re_thread (sock_upd fd f re) = re_thread re"
  "re_alloc_ok (sock_upd fd f re) = re_alloc_ok re" "re_ctl_ok (sock_upd fd f re) = re_ctl_ok re"
  "re_event_num (sock_upd fd f re) = re_event_num re"
  by (simp_all add: sock_upd_def)

lemma re_ok_simps [simp]:
  "re_ok (sock_upd fd f re) fd' = re_ok re fd'" "re_ok (re\<lparr>re_epoll := k\<rparr>) fd' = re_ok re fd'"
  "re_ok (re\<lparr>re_event_num := n\<rparr>) fd' = re_ok re fd'"
  by (simp_all add: re_ok_def)

lemma cn_rep_fields [simp]:
  "cn_rep (c\<lparr>cn_fd := x\<rparr>) ps cs = cn_rep c ps cs" "cn_rep (c\<lparr>cn_events := v\<rparr>) ps cs = cn_rep c ps cs"
  "cn_rep (c\<lparr>cn_fdtype := t\<rparr>) ps cs = cn_rep c ps cs" "cn_rep (c\<lparr>cn_removed := m\<rparr>) ps cs = cn_rep c ps cs"
  "cn_rep (c\<lparr>cn_buffer_size := n\<rparr>) ps cs = cn_rep c ps cs"
  by (simp_all add: cn_rep_def)

lemma socket_ok: "re_ok re fd \<Longrightarrow> \<exists>x. socket re fd = Some (sock_upd fd (\<lambda>c. c\<lparr>cn_fd := x\<rparr>) re)"
proof -
  assume ok: "re_ok re fd"
  have "sock_upd fd (\<lambda>c. c\<lparr>cn_fd := cn_fd (re_socks re fd)\<rparr>) re = re" by (simp add: sock_upd_def)
  then show ?thesis using ok by (cases "re_thread re \<or> cn_active (re_socks re fd)")
    (auto simp: socket_def swReactor_get_def re_ok_def intro: exI [of _ "cn_fd (re_socks re fd)"])
qed

lemma epoll_set_ok:
  assumes "re_ok re fd" "re_epoll re fd \<noteq> None" "r \<or> w \<or> e" "t = cn_fdtype (re_socks re fd)"
  shows "\<exists>re' x. swReactorEpoll_set re fd (ucast t OR ev_of r w e) = Some (SW_OK, re') \<and> re_ok re' fd \<and>
    re_socks re' fd = (re_socks re fd)\<lparr>cn_fd := x, cn_events := ev_of r w e\<rparr> \<and>
    re_epoll re' fd = Some \<lparr>ep_in = r, ep_out = w, ep_err = e\<rparr>"
proof -
  let ?f = "\<lparr>ep_in = r, ep_out = w, ep_err = e\<rparr>" and ?re = "re\<lparr>re_epoll := (re_epoll re)(fd \<mapsto> \<lparr>ep_in = r, ep_out = w, ep_err = e\<rparr>)\<rparr>"
  obtain x where "socket ?re fd = Some (sock_upd fd (\<lambda>c. c\<lparr>cn_fd := x\<rparr>) ?re)" using socket_ok [of ?re fd] assms(1) by auto
  moreover have "2 < fd" "re_ctl_ok re" using assms(1) by (auto simp: re_ok_def)
  ultimately show ?thesis using assms
    by (auto simp: swReactorEpoll_set_def swReactor_set_def event_word_epoll event_word_events)
qed

lemma epoll_add_ok:
  assumes "re_ok re fd" "t = cn_fdtype (re_socks re fd)" "r \<or> w \<or> e"
  shows "\<exists>res re' x. swReactorEpoll_add re fd (ucast t OR ev_of r w e) = Some (res, re') \<and> re_ok re' fd \<and>
    re_socks re' fd = (re_socks re fd)\<lparr>cn_fd := x, cn_events := ev_of r w e, cn_removed := False\<rparr> \<and>
    re_epoll re' fd = (if re_epoll re fd = None then Some \<lparr>ep_in = r, ep_out = w, ep_err = e\<rparr> else re_epoll re fd)"
proof -
  obtain x where "socket re fd = Some (sock_upd fd (\<lambda>c. c\<lparr>cn_fd := x\<rparr>) re)" using socket_ok [OF assms(1)] by auto
  moreover have "fd \<le> re_max_sockets re" "re_ctl_ok re" using assms(1) by (auto simp: re_ok_def)
  moreover have "(ucast (ucast t :: u32) :: u8) = t" by (rule bit_word_eqI) (simp add: bit_simps)
  moreover have "(re_socks re fd)\<lparr>cn_fd := x, cn_fdtype := t, cn_events := ev_of r w e, cn_removed := False\<rparr> =
      (re_socks re fd)\<lparr>cn_fd := x, cn_events := ev_of r w e, cn_removed := False\<rparr>" using assms(2) by simp
  ultimately show ?thesis using assms
    by (auto simp: swReactorEpoll_add_def swReactor_add_def event_word_epoll event_word_events event_word_fdtype SW_OK_def)
qed

lemma epoll_del_ok:
  assumes "re_ok re fd" "re_epoll re fd \<noteq> None"
  shows "\<exists>re' x. swReactorEpoll_del re fd = Some (SW_OK, re') \<and> re_ok re' fd \<and>
    re_socks re' fd = (re_socks re fd)\<lparr>cn_fd := x, cn_events := 0, cn_removed := True\<rparr> \<and> re_epoll re' fd = None"
proof -
  let ?re = "re\<lparr>re_epoll := (re_epoll re)(fd := None)\<rparr>"
  obtain x where "socket ?re fd = Some (sock_upd fd (\<lambda>c. c\<lparr>cn_fd := x\<rparr>) ?re)" using socket_ok [of ?re fd] assms(1) by auto
  moreover have "fd \<noteq> 0" "re_ctl_ok re" using assms(1) by (auto simp: re_ok_def)
  ultimately show ?thesis using assms
    by (auto simp: swReactorEpoll_del_def swReactor_del_def SW_OK_def)
qed

section \<open>Writing\<close>

text \<open>The allocator can give a buffer and a new chunk.\<close>

definition env_ok :: "write_env \<Rightarrow> ptr list \<Rightarrow> bool" where
  "env_ok env ps \<longleftrightarrow> we_buffer env \<and>
     (\<exists>p f. we_chunk env = \<lparr>an_chunk = Some p, an_block = Some f\<rparr> \<and> p \<noteq> NULL \<and> p \<notin> set ps)"

lemma new_chunk_stream:
  "ck_type c = SW_CHUNK_DATA \<Longrightarrow> ck_length c = of_nat (length d) \<Longrightarrow> ck_offset c = 0 \<Longrightarrow>
   ck_store c = (if d = [] then NoStore else Block d) \<Longrightarrow> length d < 2 ^ 32 \<Longrightarrow> chunk_ok c \<and> chunk_pending c = d"
  by (auto simp: chunk_ok_def chunk_pending_def unat_u32)

text \<open>Appending keeps everything but the chunks; it can be refused only when the buffer is over its size and
  the process must not wait.\<close>

lemma append_buffer_ok:
  assumes rep: "cn_rep (re_socks re fd) ps cs" and b: "cn_out_buffer (re_socks re fd) = Some b"
    and env: "env_ok env ps" and d: "length buf < 2 ^ 32"
  shows "append_buffer env re fd buf = Some (SW_ERR, re) \<and> we_dontwait env \<and> cs \<noteq> [] \<or>
    (\<exists>p c b'. append_buffer env re fd buf = Some (SW_OK, sock_upd fd (\<lambda>c. c\<lparr>cn_out_buffer := Some b'\<rparr>) re) \<and>
      cn_rep ((re_socks re fd)\<lparr>cn_out_buffer := Some b'\<rparr>) (ps @ [p]) (cs @ [c]) \<and> chunk_pending c = buf)"
proof -
  obtain p f where p: "we_chunk env = \<lparr>an_chunk = Some p, an_block = Some f\<rparr>" "p \<noteq> NULL" "p \<notin> set ps"
    using env by (auto simp: env_ok_def)
  have bu: "bu_rep b ps cs" and ok: "\<forall>c\<in>set cs. chunk_ok c" using rep b by (auto simp: cn_rep_def)
  obtain b' c where b': "swBuffer_append (we_chunk env) b buf = Some (SW_OK, b')" "bu_rep b' (ps @ [p]) (cs @ [c])"
    "ck_type c = SW_CHUNK_DATA" "ck_length c = of_nat (length buf)" "ck_offset c = 0"
    "ck_store c = (if buf = [] then NoStore else Block buf)"
    using swBuffer_append_rep [OF bu p(2,3) _ _ d, of "we_chunk env" f] p(1) by auto
  have c: "chunk_ok c" "chunk_pending c = buf" using new_chunk_stream [OF b'(3-6) d] by auto
  show ?thesis
  proof (cases "bu_length b > word_of_int (cn_buffer_size (re_socks re fd)) \<and> we_dontwait env")
    case True
    moreover from this have "cs \<noteq> []" using bu by (auto simp: bu_rep_def)
    ultimately show ?thesis using b by (simp add: append_buffer_def)
  next
    case False
    then have "append_buffer env re fd buf = Some (SW_OK, sock_upd fd (\<lambda>c. c\<lparr>cn_out_buffer := Some b'\<rparr>) re)"
      using b b'(1) by (auto simp: append_buffer_def Let_def SW_OK_def)
    then show ?thesis using b'(2) ok c by (fastforce simp: cn_rep_def)
  qed
qed

lemma good_append:
  assumes g: "good re fd ps cs r True e" and rep: "cn_rep ((re_socks re fd)\<lparr>cn_out_buffer := Some b'\<rparr>) ps' cs'"
  shows "good (sock_upd fd (\<lambda>c. c\<lparr>cn_out_buffer := Some b'\<rparr>) re) fd ps' cs' r True e"
  using assms by (simp add: good_def)

text \<open>Starting to buffer: the descriptor is watched for writing from then on.\<close>

lemma do_buffer_ok:
  assumes g: "good re fd ps [] r w e" and env: "env_ok env ps" and d: "length buf < 2 ^ 32"
  shows "\<exists>re' ps' c. do_buffer env re fd buf = Some (SW_OK, re') \<and> good re' fd ps' [c] r True e \<and> chunk_pending c = buf"
proof -
  let ?c = "re_socks re fd"
  obtain b where b: "(case cn_out_buffer ?c of None \<Rightarrow> swBuffer_new (we_buffer env) SW_IPC_MAX_SIZE | Some b \<Rightarrow> Some b) = Some b"
    "bu_rep b ps []"
    using g env swBuffer_new_rep [of SW_IPC_MAX_SIZE] by (cases "cn_out_buffer ?c") (auto simp: good_def cn_rep_def env_ok_def)
  define re1 where "re1 = sock_upd fd (\<lambda>c. c\<lparr>cn_out_buffer := Some b, cn_events := cn_events c OR SW_EVENT_WRITE\<rparr>) re"
  have ev: "cn_events (re_socks re1 fd) = ev_of r True e" using g by (simp add: re1_def good_def ev_of_or_write)
  have ok1: "re_ok re1 fd" using g by (simp add: re1_def good_def)
  have "\<exists>res re2. (if cn_events (re_socks re1 fd) AND SW_EVENT_READ \<noteq> 0
       then swReactorEpoll_set re1 fd (ucast (cn_fdtype (re_socks re1 fd)) OR cn_events (re_socks re1 fd))
       else swReactorEpoll_add re1 fd (ucast (cn_fdtype (re_socks re1 fd)) OR SW_EVENT_WRITE)) = Some (res, re2) \<and>
     good re2 fd ps [] r True e \<and> cn_out_buffer (re_socks re2 fd) = Some b"
  proof (cases r)
    case True
    have "re_epoll re1 fd \<noteq> None" using g True by (simp add: re1_def good_def)
    from epoll_set_ok [OF ok1 this, of r True e] show ?thesis
      using True g b(2) ev by (auto simp: good_def re1_def cn_rep_def)
  next
    case False
    have w: "SW_EVENT_WRITE = ev_of False True False" by (simp add: ev_of_def)
    have e: "\<not> e" using g False by (simp add: good_def)
    obtain res re2 x where "swReactorEpoll_add re1 fd (ucast (cn_fdtype (re_socks re1 fd)) OR SW_EVENT_WRITE) = Some (res, re2)"
      and re2: "re_ok re2 fd" "re_socks re2 fd = (re_socks re1 fd)\<lparr>cn_fd := x, cn_events := ev_of False True False, cn_removed := False\<rparr>"
      "re_epoll re2 fd = (if re_epoll re1 fd = None then Some \<lparr>ep_in = False, ep_out = True, ep_err = False\<rparr> else re_epoll re1 fd)"
      using epoll_add_ok [OF ok1 refl, of False True False] unfolding w by blast
    moreover have "good re2 fd ps [] r True e \<and> cn_out_buffer (re_socks re2 fd) = Some b"
      using re2 False e g b(2) by (auto simp: good_def re1_def cn_rep_def split: if_splits)
    moreover have "cn_events (re_socks re1 fd) AND SW_EVENT_READ = 0" using ev False by simp
    ultimately show ?thesis by simp
  qed
  then obtain res re2 where step: "(if cn_events (re_socks re1 fd) AND SW_EVENT_READ \<noteq> 0
       then swReactorEpoll_set re1 fd (ucast (cn_fdtype (re_socks re1 fd)) OR cn_events (re_socks re1 fd))
       else swReactorEpoll_add re1 fd (ucast (cn_fdtype (re_socks re1 fd)) OR SW_EVENT_WRITE)) = Some (res, re2)"
    and g2: "good re2 fd ps [] r True e" "cn_out_buffer (re_socks re2 fd) = Some b" by blast
  have run: "do_buffer env re fd buf = append_buffer env re2 fd buf"
    by (simp only: do_buffer_def b(1) option.case Let_def re1_def [symmetric] step Option.bind.bind_lunit prod.case)
  have "cn_rep (re_socks re2 fd) ps []" using g2(1) by (simp add: good_def)
  from append_buffer_ok [OF this g2(2) env d] obtain p c b' where
    a: "append_buffer env re2 fd buf = Some (SW_OK, sock_upd fd (\<lambda>c. c\<lparr>cn_out_buffer := Some b'\<rparr>) re2)"
      "cn_rep ((re_socks re2 fd)\<lparr>cn_out_buffer := Some b'\<rparr>) (ps @ [p]) ([] @ [c])" "chunk_pending c = buf" by blast
  show ?thesis unfolding run using a(1,3) good_append [OF g2(1) a(2)] by (intro exI conjI) simp_all
qed

lemma do_send_ok:
  assumes g: "good re fd ps [] r w e" and env: "env_ok env ps" and d: "length buf < 2 ^ 32"
    and ret: "do_send answers env re fd buf = Some (res, out, re')"
  shows "\<exists>ps' cs' w'. good re' fd ps' cs' r w' e \<and>
    (if res < 0 then out = [] \<and> re' = re else out @ stream cs' = buf)"
  using ret
proof (induction answers)
  case (Cons ans answers)
  define N where "N = length buf"
  define n where "n = min (fst ans) (int N)"
  have N: "n \<le> int N" by (simp add: n_def)
  note run = Cons.prems [unfolded do_send.simps, folded N_def, folded n_def, unfolded Let_def]
  consider (all) "n > 0" "n = int N" | (part) "n > 0" "n < int N" | (again) "n \<le> 0" "snd ans = EAGAIN"
    | (intr) "n \<le> 0" "snd ans = EINTR" | (err) "n \<le> 0" "snd ans \<noteq> EAGAIN" "snd ans \<noteq> EINTR" using N by linarith
  then show ?case
  proof cases
    case all
    then have "res = n" "out = buf" "re' = re" using run by (auto simp: N_def)
    then show ?thesis using g all(1) by (intro exI [of _ ps] exI [of _ "[]"] exI [of _ w]) simp
  next
    case part
    have "length (drop (nat n) buf) < 2 ^ 32" using d by simp
    from do_buffer_ok [OF g env this] obtain re2 ps' c where db: "do_buffer env re fd (drop (nat n) buf) = Some (SW_OK, re2)"
      "good re2 fd ps' [c] r True e" "chunk_pending c = drop (nat n) buf" by blast
    then have "res = SW_OK" "out = take (nat n) buf" "re' = re2" using run part by (simp_all split: if_splits)
    then show ?thesis using db(2,3) by (intro exI [of _ ps'] exI [of _ "[c]"] exI [of _ True]) (simp add: SW_OK_def)
  next
    case again
    from do_buffer_ok [OF g env d] obtain re2 ps' c where db: "do_buffer env re fd buf = Some (SW_OK, re2)"
      "good re2 fd ps' [c] r True e" "chunk_pending c = buf" by blast
    then have "res = SW_OK" "out = []" "re' = re2" using run again by (simp_all split: if_splits)
    then show ?thesis using db(2,3) by (intro exI [of _ ps'] exI [of _ "[c]"] exI [of _ True]) (simp add: SW_OK_def)
  next
    case intr
    then show ?thesis using run Cons.IH by simp
  next
    case err
    then have "res = SW_ERR" "out = []" "re' = re" using run by auto
    then show ?thesis using g by (auto simp: SW_ERR_def)
  qed
qed simp

lemma cn_rep_empty: "cn_rep conn ps cs \<Longrightarrow> swBuffer_empty (cn_out_buffer conn) = (cs = [])"
  using swBuffer_empty_rep by (cases "cn_out_buffer conn") (auto simp: cn_rep_def, simp add: swBuffer_empty_def)

lemma good_empty: "good re fd ps cs r w e \<Longrightarrow> swBuffer_empty (cn_out_buffer (re_socks re fd)) = (cs = [])"
  using cn_rep_empty [of "re_socks re fd" ps cs] by (simp add: good_def)

lemma good_fields [simp]:
  "good (sock_upd fd (\<lambda>c. c\<lparr>cn_fd := x\<rparr>) re) fd ps cs r w e = good re fd ps cs r w e"
  "good (sock_upd fd (\<lambda>c. c\<lparr>cn_buffer_size := y\<rparr>) re) fd ps cs r w e = good re fd ps cs r w e"
  by (simp_all add: good_def)

text \<open>The start of a write: the descriptor and the size of the buffer are filled in.\<close>

lemma write_prepare:
  assumes "good re fd ps cs r w e"
  obtains re1 where "good re1 fd ps cs r w e" "cn_out_buffer (re_socks re1 fd) = cn_out_buffer (re_socks re fd)"
    "swReactor_write answers env re fd buf =
      (if swBuffer_empty (cn_out_buffer (re_socks re1 fd)) then do_send answers env re1 fd buf
       else do { (r, re) \<leftarrow> append_buffer env re1 fd buf; Some (r, [], re) })"
proof -
  obtain x where x: "socket re fd = Some (sock_upd fd (\<lambda>c. c\<lparr>cn_fd := x\<rparr>) re)"
    using assms socket_ok by (auto simp: good_def)
  let ?re1 = "sock_upd fd (\<lambda>c. c\<lparr>cn_fd := x\<rparr>) re"
  let ?re2 = "sock_upd fd (\<lambda>c. if cn_fd c = 0 then c\<lparr>cn_fd := int fd\<rparr> else c) ?re1"
  let ?re3 = "sock_upd fd (\<lambda>c. if cn_buffer_size c = 0 then c\<lparr>cn_buffer_size := we_socket_buffer_size env\<rparr> else c) ?re2"
  have "good ?re3 fd ps cs r w e" using assms by (simp add: good_def)
  moreover have "\<not> cn_ssl_send (re_socks ?re3 fd)" using assms by (simp add: good_def)
  moreover have "cn_out_buffer (re_socks ?re3 fd) = cn_out_buffer (re_socks re fd)" by simp
  ultimately show thesis using x by (intro that [of ?re3]) (simp_all add: swReactor_write_def Let_def)
qed

lemma write_step:
  assumes g: "good re fd ps cs r w e" and env: "env_ok env ps" and d: "length buf < 2 ^ 32"
    and ret: "swReactor_write answers env re fd buf = Some (res, out, re')"
  shows "\<exists>ps' cs' w'. good re' fd ps' cs' r w' e \<and>
    (if res < 0 then out = [] \<and> stream cs' = stream cs else out @ stream cs' = stream cs @ buf)"
proof -
  obtain re1 where g1: "good re1 fd ps cs r w e" and run: "swReactor_write answers env re fd buf =
      (if swBuffer_empty (cn_out_buffer (re_socks re1 fd)) then do_send answers env re1 fd buf
       else do { (r, re) \<leftarrow> append_buffer env re1 fd buf; Some (r, [], re) })"
    using write_prepare [OF g] by blast
  have rep: "cn_rep (re_socks re1 fd) ps cs" using g1 by (simp add: good_def)
  then have emp: "swBuffer_empty (cn_out_buffer (re_socks re1 fd)) = (cs = [])"
    by (rule cn_rep_empty)
  show ?thesis
  proof (cases "cs = []")
    case True
    then have "do_send answers env re1 fd buf = Some (res, out, re')" using ret run emp by simp
    from do_send_ok [OF _ env d this] g1 True obtain ps' cs' w' where "good re' fd ps' cs' r w' e"
      "if res < 0 then out = [] \<and> re' = re1 else out @ stream cs' = buf" by blast
    moreover have "good re1 fd ps [] r w e" using g1 True by simp
    ultimately show ?thesis using True by (cases "res < 0") (force, auto)
  next
    case False
    then obtain b where b: "cn_out_buffer (re_socks re1 fd) = Some b" using emp
      by (cases "cn_out_buffer (re_socks re1 fd)") (auto simp: swBuffer_empty_def)
    have w: "w" using g1 False by (simp add: good_def)
    from append_buffer_ok [OF rep b env d] show ?thesis
    proof (elim disjE exE conjE)
      assume "append_buffer env re1 fd buf = Some (SW_ERR, re1)"
      then have "re' = re1" "res < 0" "out = []" using ret run emp False by (simp_all add: SW_ERR_def)
      then show ?thesis using g1 by auto
    next
      fix p c b' assume a: "append_buffer env re1 fd buf = Some (SW_OK, sock_upd fd (\<lambda>c. c\<lparr>cn_out_buffer := Some b'\<rparr>) re1)"
        "cn_rep ((re_socks re1 fd)\<lparr>cn_out_buffer := Some b'\<rparr>) (ps @ [p]) (cs @ [c])" "chunk_pending c = buf"
      have "good (sock_upd fd (\<lambda>c. c\<lparr>cn_out_buffer := Some b'\<rparr>) re1) fd (ps @ [p]) (cs @ [c]) r True e"
        using good_append [OF _ a(2)] g1 w by simp
      moreover have "re' = sock_upd fd (\<lambda>c. c\<lparr>cn_out_buffer := Some b'\<rparr>) re1" "res = SW_OK" "out = []"
        using a(1) ret run emp False by simp_all
      ultimately show ?thesis using a(3) by (intro exI [of _ "ps @ [p]"] exI [of _ "cs @ [c]"] exI [of _ True]) (simp add: SW_OK_def)
    qed
  qed
qed

section \<open>Sending when the descriptor is writable\<close>

text \<open>An answer of \<open>send\<close> from a peer that is still there.\<close>

definition alive :: "io_result \<Rightarrow> bool" where
  "alive a \<longleftrightarrow> swConnection_error (snd a) \<notin> {None, Some SW_CLOSE}"

lemma cn_rep_chunk:
  assumes "cn_rep conn ps (c # cs)"
  shows "\<exists>b k. cn_out_buffer conn = Some b \<and> bu_mem b (swBuffer_get_trunk b) = Some k \<and> ck_type k = SW_CHUNK_DATA"
proof -
  obtain b where b: "cn_out_buffer conn = Some b" "bu_rep b ps (c # cs)" "chunk_ok c"
    using assms by (cases "cn_out_buffer conn") (auto simp: cn_rep_def)
  obtain p ps' k where "bu_head b = p" "bu_mem b p = Some k" "unlinked k = c" using bu_rep_first [OF b(2)] by metis
  then show ?thesis using b(1,3) by (auto simp: swBuffer_get_trunk_def chunk_ok_def)
qed

text \<open>One iteration on a chunk of data.\<close>

lemma onWrite_loop_data:
  assumes g: "good re fd ps (c # cs) r w e" and a: "alive ans"
  obtains ret sent conn ps' cs' where "swConnection_buffer_send ans (re_socks re fd) = Some (ret, sent, conn)"
    "good (sock_upd fd (\<lambda>_. conn) re) fd ps' cs' r w e" "sent @ stream cs' = stream (c # cs)"
    "ret = SW_OK \<and> (work cs' < work (c # cs) \<or> fst ans \<le> 0) \<or> ret = SW_ERR \<and> cn_send_wait conn \<and> fst ans < 0"
    "\<And>rest out. onWrite_loop (ans # rest) fuel re fd out =
       (if ret < 0 then Some (Inl (), out @ sent, sock_upd fd (\<lambda>_. conn) re)
        else onWrite_loop rest fuel (sock_upd fd (\<lambda>_. conn) re) fd (out @ sent))"
proof -
  let ?c = "re_socks re fd"
  have rep: "cn_rep ?c ps (c # cs)" and cw: "\<not> cn_close_wait ?c" and w: "w" using g by (auto simp: good_def)
  have "snd ans \<noteq> EFAULT" using a by (auto simp: alive_def)
  from buffer_send_step [OF rep this] obtain ret sent conn ps' cs' where
    st: "swConnection_buffer_send ans ?c = Some (ret, sent, conn)" "cn_rep conn ps' cs'" "sent @ stream cs' = stream (c # cs)"
      "ret = SW_OK \<and> (work cs' < work (c # cs) \<or> fst ans \<le> 0) \<and> (\<exists>b. conn = ?c\<lparr>cn_out_buffer := b\<rparr>) \<or>
       ret = SW_ERR \<and> sent = [] \<and> cs' = c # cs \<and> fst ans < 0 \<and>
       (swConnection_error (snd ans) = Some SW_CLOSE \<and> conn = ?c\<lparr>cn_close_wait := True\<rparr> \<or>
        swConnection_error (snd ans) = Some SW_WAIT \<and> conn = ?c\<lparr>cn_send_wait := True\<rparr>)" by blast
  have flags: "\<not> cn_close_wait conn \<and> (ret < 0 \<longrightarrow> cn_send_wait conn)"
    using st(4) a cw by (auto simp: alive_def SW_OK_def)
  have g': "good (sock_upd fd (\<lambda>_. conn) re) fd ps' cs' r w e"
    using st(2,4) g w a by (auto simp: good_def alive_def)
  have ret: "ret = SW_OK \<and> (work cs' < work (c # cs) \<or> fst ans \<le> 0) \<or> ret = SW_ERR \<and> cn_send_wait conn \<and> fst ans < 0"
    using st(4) flags by (auto simp: SW_ERR_def)
  obtain b k where bk: "cn_out_buffer ?c = Some b" "bu_mem b (swBuffer_get_trunk b) = Some k" "ck_type k = SW_CHUNK_DATA"
    using cn_rep_chunk [OF rep] by blast
  have ne: "\<not> swBuffer_empty (Some b)" using cn_rep_empty [OF rep] bk(1) by simp
  show thesis
    by (rule that [OF st(1) g' st(3) ret]) (use bk ne st(1) flags in \<open>simp add: Let_def\<close>)
qed

lemma onWrite_loop_step:
  assumes "good re fd ps cs r w e" "\<forall>a\<in>set answers. alive a" "onWrite_loop answers fuel re fd out = Some (x, out', re')"
  shows "\<exists>ps' cs'. good re' fd ps' cs' r w e \<and> out' @ stream cs' = out @ stream cs \<and> (x = Inr () \<longrightarrow> cs' = [])"
  using assms
proof (induction answers arbitrary: re ps cs out)
  case Nil
  have "swBuffer_empty (cn_out_buffer (re_socks re fd)) = (cs = [])" by (rule good_empty [OF Nil.prems(1)])
  then show ?case using Nil.prems(1,3) by (fastforce split: if_splits)
next
  case (Cons ans rest)
  have al: "alive ans" using Cons.prems(2) by simp
  have em: "swBuffer_empty (cn_out_buffer (re_socks re fd)) = (cs = [])" by (rule good_empty [OF Cons.prems(1)])
  show ?case
  proof (cases cs)
    case Nil
    then have "out' = out" "re' = re" using em Cons.prems(3) by simp_all
    then show ?thesis using Nil Cons.prems(1) by blast
  next
    case (Cons c cs2)
    have gc: "good re fd ps (c # cs2) r w e" using Cons.prems(1) Cons by simp
    obtain ret sent conn ps' cs' where "swConnection_buffer_send ans (re_socks re fd) = Some (ret, sent, conn)"
      and st: "good (sock_upd fd (\<lambda>_. conn) re) fd ps' cs' r w e" "sent @ stream cs' = stream (c # cs2)"
      and lp: "\<And>rest out. onWrite_loop (ans # rest) fuel re fd out =
       (if ret < 0 then Some (Inl (), out @ sent, sock_upd fd (\<lambda>_. conn) re)
        else onWrite_loop rest fuel (sock_upd fd (\<lambda>_. conn) re) fd (out @ sent))"
      by (rule onWrite_loop_data [OF gc al, of fuel]) (rule that)
    show ?thesis
    proof (cases "ret < 0")
      case True
      then have "x = Inl ()" "out' = out @ sent" "re' = sock_upd fd (\<lambda>_. conn) re" using lp Cons.prems(3) by simp_all
      then show ?thesis using st Cons by (intro exI [of _ ps'] exI [of _ cs']) simp
    next
      case False
      then have "onWrite_loop rest fuel (sock_upd fd (\<lambda>_. conn) re) fd (out @ sent) = Some (x, out', re')"
        using lp Cons.prems(3) by simp
      from Cons.IH [OF st(1) _ this] Cons.prems(2) st(2) Cons show ?thesis by simp
    qed
  qed
qed

text \<open>Every answer that takes bytes makes progress, so enough of them empty the buffer.\<close>

lemma onWrite_loop_done:
  assumes "good re fd ps cs r w e" "\<forall>a\<in>set answers. alive a \<and> fst a > 0" "work cs \<le> length answers"
  shows "\<exists>out' re'. onWrite_loop answers fuel re fd out = Some (Inr (), out', re')"
  using assms
proof (induction answers arbitrary: re ps cs out)
  case Nil
  then have "cs = []" by (simp add: work_def)
  moreover have "swBuffer_empty (cn_out_buffer (re_socks re fd)) = (cs = [])" by (rule good_empty [OF Nil.prems(1)])
  ultimately show ?case by simp
next
  case (Cons ans rest)
  have al: "alive ans" using Cons.prems(2) by simp
  have em: "swBuffer_empty (cn_out_buffer (re_socks re fd)) = (cs = [])" by (rule good_empty [OF Cons.prems(1)])
  show ?case
  proof (cases cs)
    case (Cons c cs2)
    have gc: "good re fd ps (c # cs2) r w e" using Cons.prems(1) Cons by simp
    obtain ret sent conn ps' cs' where "swConnection_buffer_send ans (re_socks re fd) = Some (ret, sent, conn)"
      and st: "good (sock_upd fd (\<lambda>_. conn) re) fd ps' cs' r w e"
      "ret = SW_OK \<and> (work cs' < work (c # cs2) \<or> fst ans \<le> 0) \<or> ret = SW_ERR \<and> cn_send_wait conn \<and> fst ans < 0"
      and lp: "\<And>rest out. onWrite_loop (ans # rest) fuel re fd out =
       (if ret < 0 then Some (Inl (), out @ sent, sock_upd fd (\<lambda>_. conn) re)
        else onWrite_loop rest fuel (sock_upd fd (\<lambda>_. conn) re) fd (out @ sent))"
      by (rule onWrite_loop_data [OF gc al, of fuel]) (rule that)
    have "ret = SW_OK" "work cs' \<le> length rest" using st(2) Cons.prems(2,3) Cons by auto
    then show ?thesis using lp Cons.IH [OF st(1)] Cons.prems(2) by (simp add: SW_OK_def)
  qed (use em in simp)
qed

lemma good_addresses: "good re fd ps [] r w e \<Longrightarrow> ps = []"
  using bu_rep_facts(5) by (fastforce simp: good_def cn_rep_def split: option.splits)

text \<open>What follows the loop when the buffer is empty: writing is no longer watched.\<close>

lemma onWrite_unwatch:
  assumes g: "good re fd ps [] r True e"
  obtains re' where "good re' fd ps [] r False e"
    "(if cn_events (re_socks re fd) AND SW_EVENT_READ \<noteq> 0
      then swReactorEpoll_set (sock_upd fd (\<lambda>c. c\<lparr>cn_events := cn_events c AND NOT SW_EVENT_WRITE\<rparr>) re) fd
        (ucast (cn_fdtype (re_socks re fd)) OR (cn_events (re_socks re fd) AND NOT SW_EVENT_WRITE))
      else swReactorEpoll_del re fd) = Some (SW_OK, re')"
proof (cases r)
  case True
  let ?re = "sock_upd fd (\<lambda>c. c\<lparr>cn_events := cn_events c AND NOT SW_EVENT_WRITE\<rparr>) re"
  have "re_ok ?re fd" "re_epoll ?re fd \<noteq> None" using g by (simp_all add: good_def)
  from epoll_set_ok [OF this, of r False e] True obtain re' x where
    a: "swReactorEpoll_set ?re fd (ucast (cn_fdtype (re_socks re fd)) OR ev_of r False e) = Some (SW_OK, re')" "re_ok re' fd"
      "re_socks re' fd = (re_socks ?re fd)\<lparr>cn_fd := x, cn_events := ev_of r False e\<rparr>"
      "re_epoll re' fd = Some \<lparr>ep_in = r, ep_out = False, ep_err = e\<rparr>" by auto
  have "good re' fd ps [] r False e" using g a(2-4) True by (auto simp: good_def)
  then show thesis using that a(1) g True by (auto simp: good_def ev_of_not_write)
next
  case False
  have "re_ok re fd" "re_epoll re fd \<noteq> None" using g by (simp_all add: good_def)
  from epoll_del_ok [OF this] obtain re' x where a: "swReactorEpoll_del re fd = Some (SW_OK, re')" "re_ok re' fd"
    "re_socks re' fd = (re_socks re fd)\<lparr>cn_fd := x, cn_events := 0, cn_removed := True\<rparr>" "re_epoll re' fd = None" by auto
  have "good re' fd ps [] r False e" using g a(2-4) False by (auto simp: good_def ev_of_def)
  then show thesis using that a(1) g False by (auto simp: good_def)
qed

lemma good_socket: "good re fd ps cs r w e \<Longrightarrow> \<exists>re1. socket re fd = Some re1 \<and> good re1 fd ps cs r w e"
  using socket_ok [of re fd] by (auto simp: good_def)

lemma onWrite_run:
  assumes g: "good re1 fd ps cs r True e" and al: "\<forall>a\<in>set answers. alive a" and so: "socket re fd = Some re1"
    and run: "onWrite_loop answers fuel re1 fd [] = Some (X, out, re2)"
  shows "\<exists>ps' cs' re'. swReactor_onWrite answers fuel re fd = Some (SW_OK, out, re') \<and>
    good re' fd ps' cs' r (X = Inl ()) e \<and> out @ stream cs' = stream cs \<and> (X = Inr () \<longrightarrow> cs' = [])"
proof -
  from onWrite_loop_step [OF g al run] obtain ps' cs' where
    st: "good re2 fd ps' cs' r True e" "out @ stream cs' = stream cs" "X = Inr () \<longrightarrow> cs' = []" by auto
  show ?thesis
  proof (cases X)
    case (Inl u)
    then have "swReactor_onWrite answers fuel re fd = Some (SW_OK, out, re2)" using so run by (simp add: swReactor_onWrite_def)
    then show ?thesis using st(1,2) Inl by (intro exI [of _ ps'] exI [of _ cs'] exI [of _ re2]) simp
  next
    case (Inr u)
    then have emp: "cs' = []" using st(3) by simp
    with st(1) obtain re' where re': "good re' fd ps' [] r False e" "(if cn_events (re_socks re2 fd) AND SW_EVENT_READ \<noteq> 0
      then swReactorEpoll_set (sock_upd fd (\<lambda>c. c\<lparr>cn_events := cn_events c AND NOT SW_EVENT_WRITE\<rparr>) re2) fd
        (ucast (cn_fdtype (re_socks re2 fd)) OR (cn_events (re_socks re2 fd) AND NOT SW_EVENT_WRITE))
      else swReactorEpoll_del re2 fd) = Some (SW_OK, re')" using onWrite_unwatch by blast
    then have "swReactor_onWrite answers fuel re fd = Some (SW_OK, out, re')"
      using so run Inr by (simp add: swReactor_onWrite_def Let_def split: if_splits)
    then show ?thesis using re'(1) st(2) emp Inr by (intro exI [of _ ps'] exI [of _ "[]"] exI [of _ re']) simp
  qed
qed

lemma onWrite_step:
  assumes "good re fd ps cs r True e" "\<forall>a\<in>set answers. alive a" "swReactor_onWrite answers fuel re fd = Some (res, out, re')"
  shows "\<exists>ps' cs' w'. good re' fd ps' cs' r w' e \<and> out @ stream cs' = stream cs"
proof -
  obtain re1 where re1: "socket re fd = Some re1" "good re1 fd ps cs r True e" using good_socket assms(1) by blast
  obtain X o2 re2 where "onWrite_loop answers fuel re1 fd [] = Some (X, o2, re2)"
    using assms(3) re1(1) by (cases "onWrite_loop answers fuel re1 fd []") (auto simp: swReactor_onWrite_def)
  from onWrite_run [OF re1(2) assms(2) re1(1) this] assms(3) show ?thesis by auto
qed

section \<open>Writes and events in any order\<close>

text \<open>The allocations of a write succeed, and the memory it gets is not already in the connection's buffer.
  (When the second one fails after a partial send, \<open>swReactor_write\<close> returns \<open>SW_ERR\<close> with bytes already
  sent, and the stream is broken.)\<close>

definition env_fresh :: "write_env \<Rightarrow> sw_connection \<Rightarrow> bool" where
  "env_fresh env conn \<longleftrightarrow> we_buffer env \<and> an_block (we_chunk env) \<noteq> None \<and>
     (case an_chunk (we_chunk env) of None \<Rightarrow> False
      | Some p \<Rightarrow> p \<noteq> NULL \<and> (case cn_out_buffer conn of None \<Rightarrow> True | Some b \<Rightarrow> bu_mem b p = None))"

lemma env_fresh_ok: "env_fresh env (re_socks re fd) \<Longrightarrow> good re fd ps cs r w e \<Longrightarrow> env_ok env ps"
proof -
  assume f: "env_fresh env (re_socks re fd)" and g: "good re fd ps cs r w e"
  obtain p k where pk: "we_chunk env = \<lparr>an_chunk = Some p, an_block = Some k\<rparr>" "p \<noteq> NULL"
    using f by (cases "we_chunk env") (auto simp: env_fresh_def split: option.splits)
  have "p \<notin> set ps"
  proof (cases "cn_out_buffer (re_socks re fd)")
    case (Some b)
    then have "bu_rep b ps cs" using g by (simp add: good_def cn_rep_def)
    then have "dom (bu_mem b) = set ps" by (rule bu_rep_facts(3))
    moreover have "p \<notin> dom (bu_mem b)" using f pk(1) Some by (auto simp: env_fresh_def)
    ultimately show ?thesis by simp
  qed (use g in \<open>simp add: good_def cn_rep_def\<close>)
  then show ?thesis using f pk by (auto simp: env_ok_def env_fresh_def)
qed

text \<open>The state, the bytes accepted by writes that reported success, and the bytes the kernel has taken. The kernel
  reports a descriptor as writable only when it watches it for writing.\<close>

inductive out_step :: "nat \<Rightarrow> reactor \<times> bytes \<times> bytes \<Rightarrow> reactor \<times> bytes \<times> bytes \<Rightarrow> bool" for fd where
  sw_write: "swReactor_write answers env re fd buf = Some (res, out, re') \<Longrightarrow> env_fresh env (re_socks re fd) \<Longrightarrow>
    length buf < 2 ^ 32 \<Longrightarrow> out_step fd (re, acc, sent) (re', if res < 0 then acc else acc @ buf, sent @ out)"
| on_write: "re_epoll re fd = Some k \<Longrightarrow> ep_out k \<Longrightarrow> \<forall>a\<in>set answers. alive a \<Longrightarrow>
    swReactor_onWrite answers fuel re fd = Some (res, out, re') \<Longrightarrow> out_step fd (re, acc, sent) (re', acc, sent @ out)"

definition out_inv :: "nat \<Rightarrow> bool \<Rightarrow> bool \<Rightarrow> reactor \<times> bytes \<times> bytes \<Rightarrow> bool" where
  "out_inv fd r e = (\<lambda>(re, acc, sent). \<exists>ps cs w. good re fd ps cs r w e \<and> acc = sent @ stream cs)"

lemma out_step_inv: "out_step fd x y \<Longrightarrow> out_inv fd r e x \<Longrightarrow> out_inv fd r e y"
proof (induction rule: out_step.induct)
  case (sw_write answers env re buf res out re' acc sent)
  then obtain ps cs w where g: "good re fd ps cs r w e" "acc = sent @ stream cs" by (auto simp: out_inv_def)
  from write_step [OF g(1) env_fresh_ok [OF sw_write(2) g(1)] sw_write(3,1)] obtain ps' cs' w' where
    "good re' fd ps' cs' r w' e" "if res < 0 then out = [] \<and> stream cs' = stream cs else out @ stream cs' = stream cs @ buf"
    by blast
  then show ?case using g(2) by (cases "res < 0") (auto simp: out_inv_def intro!: exI)
next
  case (on_write re k answers fuel res out re' acc sent)
  then obtain ps cs w where g: "good re fd ps cs r w e" "acc = sent @ stream cs" by (auto simp: out_inv_def)
  have "w" using g(1) on_write(1,2) by (auto simp: good_def split: if_splits)
  then have "good re fd ps cs r True e" using g(1) by simp
  then obtain ps' cs' w' where "good re' fd ps' cs' r w' e" "out @ stream cs' = stream cs"
    using onWrite_step [OF _ on_write(3,4)] by blast
  then show ?case using g(2) by (auto simp: out_inv_def intro!: exI)
qed

lemma out_steps_inv: "(out_step fd)\<^sup>*\<^sup>* x y \<Longrightarrow> out_inv fd r e x \<Longrightarrow> out_inv fd r e y"
  by (induction rule: rtranclp_induct) (auto intro: out_step_inv)

section \<open>A descriptor for the witnesses\<close>

text \<open>Descriptor 5, watched for reading, without or with a chunk of two bytes pending.\<close>

definition ex_reactor :: reactor where
  "ex_reactor = \<lparr>re_thread = True, re_max_sockets = 16, re_socks = (\<lambda>_. zero_connection\<lparr>cn_events := SW_EVENT_READ\<rparr>),
     re_alloc_ok = (\<lambda>_. True), re_epoll = [5 \<mapsto> \<lparr>ep_in = True, ep_out = False, ep_err = False\<rparr>], re_ctl_ok = True,
     re_event_num = 1, re_handle = [], re_write_handle = [], re_error_handle = [], re_defer = []\<rparr>"

definition ex_env :: write_env where
  "ex_env = \<lparr>we_buffer = True, we_chunk = \<lparr>an_chunk = Some 64, an_block = Some (\<lambda>_. 0)\<rparr>, we_socket_buffer_size = 8192,
     we_dontwait = False\<rparr>"

definition ex_chunk :: chunk where
  "ex_chunk = \<lparr>ck_type = SW_CHUNK_DATA, ck_length = 2, ck_offset = 0, ck_store = Block [7, 8], ck_size = 2, ck_destroy = False,
     ck_next = NULL\<rparr>"

definition ex_pending :: reactor where
  "ex_pending = ex_reactor\<lparr>re_socks := (\<lambda>_. zero_connection\<lparr>cn_events := SW_EVENT_READ OR SW_EVENT_WRITE,
     cn_out_buffer := Some \<lparr>bu_fd = 0, bu_trunk_num = 1, bu_trunk_size = 8192, bu_length = 2, bu_head = 64, bu_tail = 64,
       bu_mem = [64 \<mapsto> ex_chunk]\<rparr>\<rparr>), re_epoll := [5 \<mapsto> \<lparr>ep_in = True, ep_out = True, ep_err = False\<rparr>]\<rparr>"

lemma ex_reactor_good: "good ex_reactor 5 [] [] True False False"
  by (simp add: good_def ex_reactor_def re_ok_def cn_rep_def zero_connection_def ev_of_def)

lemma ex_pending_good: "good ex_pending 5 [64] [ex_chunk] True True False"
  by (simp add: good_def ex_pending_def ex_reactor_def re_ok_def cn_rep_def zero_connection_def ev_of_def bu_rep_def
      ex_chunk_def chunk_ok_def unlinked_def)

text \<open>C30. Whatever writes and writable events follow each other on a descriptor, as long as the peer is there,
  memory is available to the writes (\<open>env_fresh\<close>) and \<open>epoll_ctl\<close> succeeds (part of \<open>good\<close>): the
  bytes accepted are the bytes the kernel has taken followed by the bytes pending in the output buffer, so none is
  lost, repeated or reordered; the record of the watched events agrees with the kernel's; and while output is
  pending the descriptor is watched for writing.\<close>

theorem swReactor_output_in_order:
  assumes "good re0 fd [] [] r w e" "(out_step fd)\<^sup>*\<^sup>* (re0, [], []) (re, acc, sent)"
  shows "\<exists>ps cs w'. good re fd ps cs r w' e \<and> acc = sent @ stream cs \<and> (stream cs \<noteq> [] \<longrightarrow> w')"
proof -
  have "out_inv fd r e (re0, [], [])" using assms(1) by (auto simp: out_inv_def intro!: exI)
  from out_steps_inv [OF assms(2) this] obtain ps cs w' where
    g: "good re fd ps cs r w' e" "acc = sent @ stream cs" by (auto simp: out_inv_def)
  then have "stream cs \<noteq> [] \<longrightarrow> w'" by (auto simp: good_def)
  then show ?thesis using g by blast
qed

theorem swReactor_output_in_order_witness:
  "\<exists>re' ps cs w'. swReactor_write [(1, ENONE)] ex_env ex_reactor 5 [7, 8] = Some (SW_OK, [7], re') \<and>
     good re' 5 ps cs True w' False \<and> [7, 8] = [7] @ stream cs \<and> (stream cs \<noteq> [] \<longrightarrow> w')"
proof -
  have "map_option (\<lambda>(r, out, re). (r, out)) (swReactor_write [(1, ENONE)] ex_env ex_reactor 5 [7, 8]) = Some (SW_OK, [7])"
    by code_simp
  then obtain re' where w: "swReactor_write [(1, ENONE)] ex_env ex_reactor 5 [7, 8] = Some (SW_OK, [7], re')" by auto
  have "env_fresh ex_env (re_socks ex_reactor 5)"
    by (simp add: env_fresh_def ex_env_def ex_reactor_def zero_connection_def)
  from out_step.sw_write [OF w this, of "[]" "[]"]
  have "(out_step 5)\<^sup>*\<^sup>* (ex_reactor, [], []) (re', [7, 8], [7])" by (simp add: SW_OK_def)
  from swReactor_output_in_order [OF ex_reactor_good this] w show ?thesis by blast
qed

text \<open>C31. When the descriptor is writable and the kernel takes bytes at each of enough calls, \<open>swReactor_onWrite\<close>
  returns, has sent everything pending in order, and no longer watches the descriptor for writing.\<close>

theorem swReactor_onWrite_drains:
  assumes "good re fd ps cs r True e" "\<forall>a\<in>set answers. alive a \<and> fst a > 0" "work cs \<le> length answers"
  shows "\<exists>re'. swReactor_onWrite answers fuel re fd = Some (SW_OK, stream cs, re') \<and> good re' fd [] [] r False e"
proof -
  obtain re1 where re1: "socket re fd = Some re1" "good re1 fd ps cs r True e" using good_socket assms(1) by blast
  obtain out re2 where lp: "onWrite_loop answers fuel re1 fd [] = Some (Inr (), out, re2)"
    using onWrite_loop_done [OF re1(2) assms(2,3)] by blast
  obtain ps' re' where "swReactor_onWrite answers fuel re fd = Some (SW_OK, out, re')" "good re' fd ps' [] r False e"
    "out = stream cs" using onWrite_run [OF re1(2) _ re1(1) lp] assms(2) by auto
  then show ?thesis using good_addresses by blast
qed

theorem swReactor_onWrite_drains_witness:
  "\<exists>re'. swReactor_onWrite [(1, ENONE), (1, ENONE), (1, ENONE)] 9 ex_pending 5 = Some (SW_OK, [7, 8], re') \<and>
     good re' 5 [] [] True False False"
proof -
  have "stream [ex_chunk] = [7, 8]" "work [ex_chunk] = 3" by (simp_all add: ex_chunk_def chunk_pending_def work_def)
  then show ?thesis
    using swReactor_onWrite_drains [OF ex_pending_good, of "[(1, ENONE), (1, ENONE), (1, ENONE)]" 9] by (simp add: alive_def)
qed

text \<open>C32. When \<open>send\<close> keeps failing with an error that is neither a wait nor a lost peer, \<open>swReactor_onWrite\<close> never
  returns: \<open>swConnection_buffer_send\<close> reports success and keeps the chunk, so the loop runs on however often it
  is answered.\<close>

theorem swReactor_onWrite_spins:
  assumes "good re fd ps (c # cs) r True e" "chunk_pending c \<noteq> []"
    "\<forall>a\<in>set answers. fst a < 0 \<and> swConnection_error (snd a) = Some SW_ERROR"
  shows "swReactor_onWrite answers fuel re fd = None"
proof -
  obtain re1 where re1: "socket re fd = Some re1" "good re1 fd ps (c # cs) r True e" using good_socket assms(1) by blast
  have rep: "cn_rep (re_socks re1 fd) ps (c # cs)" and cw: "\<not> cn_close_wait (re_socks re1 fd)"
    using re1(2) by (auto simp: good_def)
  have same: "sock_upd fd (\<lambda>_. re_socks re1 fd) re1 = re1" by (simp add: sock_upd_def)
  obtain b k where bk: "cn_out_buffer (re_socks re1 fd) = Some b" "bu_mem b (swBuffer_get_trunk b) = Some k"
    "ck_type k = SW_CHUNK_DATA" using cn_rep_chunk [OF rep] by blast
  have ne: "\<not> swBuffer_empty (Some b)" using cn_rep_empty [OF rep] bk(1) by simp
  have "onWrite_loop answers fuel re1 fd out = None" for out
    using assms(3) by (induction answers arbitrary: out)
      (use bk ne same cw buffer_send_error [OF rep assms(2)] in \<open>simp_all add: Let_def SW_OK_def\<close>)
  then show ?thesis using re1(1) by (simp add: swReactor_onWrite_def)
qed

theorem swReactor_onWrite_spins_witness:
  "swReactor_onWrite (replicate 100 (- 1, EOTHER)) 9 ex_pending 5 = None"
proof -
  have "chunk_pending ex_chunk \<noteq> []" by (simp add: ex_chunk_def chunk_pending_def)
  then show ?thesis using swReactor_onWrite_spins [OF ex_pending_good] by simp
qed

end
