(* ===== verification/Sw_Protocol.thy ===== *)
theory Sw_Protocol
  imports Sw_Connection Sw_Interfaces
begin

unbundle bit_operations_syntax

text \<open>
  Cutting the input stream of a connection into packages (\<open>src/protocol/Base.c\<close>): by a length field in the
  header of a package, or by an end mark. What the peer has sent and the process has not yet read is the
  list \<open>rs_input\<close>; an answer of \<open>recv\<close> says how much of it arrives. The packages handed to the protocol's
  \<open>onPackage\<close> are collected in \<open>rs_packages\<close>; \<open>onPackage\<close> itself and \<open>get_package_length\<close>, function pointers
  of the structure, are arguments. \<open>None\<close> is an access outside a buffer or a call still to be answered.
\<close>

section \<open>The structure and its operations\<close>

record sw_protocol =
  pr_split_by_eof :: bool
  pr_package_eof :: bytes
  pr_package_length_type :: char
  pr_package_length_size :: nat
  pr_package_length_offset :: nat
  pr_package_body_offset :: nat
  pr_package_max_length :: nat

text \<open>\<open>data\<close> are the bytes received so far; the sum is one of 32-bit integers.\<close>

definition swProtocol_get_package_length :: "sw_protocol \<Rightarrow> bytes \<Rightarrow> int option" where
  "swProtocol_get_package_length pr data =
     (if length data < pr_package_length_offset pr + pr_package_length_size pr then Some 0
      else do {
        body_length \<leftarrow> swoole_unpack (pr_package_length_type pr) (drop (pr_package_length_offset pr) data);
        if sint body_length < 0 then Some SW_ERR
        else Some (sint (of_nat (pr_package_body_offset pr) + body_length :: u32)) })"

record recv_state =
  rs_conn :: sw_connection
  rs_buffer :: sw_string
  rs_input :: bytes
  rs_packages :: "bytes list"

text \<open>Result, bytes read and bytes left.\<close>

definition swConnection_recv :: "io_result \<Rightarrow> nat \<Rightarrow> bytes \<Rightarrow> int \<times> bytes \<times> bytes" where
  "swConnection_recv ans n input =
     (let ret = min (fst ans) (int (min n (length input))) in (ret, take (nat ret) input, drop (nat ret) input))"

definition recv_failed :: "io_result \<Rightarrow> recv_state \<Rightarrow> (int \<times> recv_state) option" where
  "recv_failed ans rs = do { e \<leftarrow> swConnection_error (snd ans); Some (if e = SW_CLOSE then SW_ERR else SW_OK, rs) }"

definition recv_into :: "bytes \<Rightarrow> bytes \<Rightarrow> recv_state \<Rightarrow> recv_state option" where
  "recv_into d input rs = do {
     str \<leftarrow> put_at (st_str (rs_buffer rs)) (st_length (rs_buffer rs)) d;
     Some (rs\<lparr>rs_buffer := (rs_buffer rs)\<lparr>st_str := str, st_length := st_length (rs_buffer rs) + length d\<rparr>, rs_input := input\<rparr>) }"

definition do_package :: "(bytes \<Rightarrow> int) \<Rightarrow> recv_state \<Rightarrow> (int \<times> recv_state) option" where
  "do_package onPackage rs = do {
     data \<leftarrow> slice_at (st_str (rs_buffer rs)) 0 (st_length (rs_buffer rs));
     Some (onPackage data, rs\<lparr>rs_packages := rs_packages rs @ [data], rs_conn := (rs_conn rs)\<lparr>cn_recv_wait := False\<rparr>,
       rs_buffer := swString_clear (rs_buffer rs)\<rparr>) }"

text \<open>The number of bytes to receive is the difference of two 64-bit numbers cut to 32 bits.\<close>

definition recvbuf_size :: "sw_protocol \<Rightarrow> sw_string \<Rightarrow> nat" where
  "recvbuf_size pr b = unat (if st_offset b > 0 then of_int (st_offset b - int (st_length b))
     else of_nat (pr_package_length_offset pr + pr_package_length_size pr) :: u32)"

primrec swProtocol_recv_check_length ::
  "io_result list \<Rightarrow> (sw_protocol \<Rightarrow> bytes \<Rightarrow> int option) \<Rightarrow> (bytes \<Rightarrow> int) \<Rightarrow> alloc_answer \<Rightarrow> sw_protocol \<Rightarrow> recv_state \<Rightarrow>
   (int \<times> recv_state) option" where
  "swProtocol_recv_check_length [] get_package_length onPackage al pr rs = None"
| "swProtocol_recv_check_length (ans # rest) get_package_length onPackage al pr rs =
     (let (n, d, input) = swConnection_recv ans (recvbuf_size pr (rs_buffer rs)) (rs_input rs) in
      if n < 0 then recv_failed ans rs
      else if n = 0 then Some (SW_ERR, rs)
      else do {
        rs \<leftarrow> recv_into d input rs;
        let buffer = rs_buffer rs;
        if cn_recv_wait (rs_conn rs) then
          (if int (st_length buffer) = st_offset buffer then do_package onPackage rs else Some (SW_OK, rs))
        else do {
          data \<leftarrow> slice_at (st_str buffer) 0 (st_length buffer);
          package_length \<leftarrow> get_package_length pr data;
          if package_length < 0 then Some (SW_ERR, rs)
          else if package_length = 0 then Some (SW_OK, rs)
          else if package_length > int (pr_package_max_length pr) then Some (SW_ERR, rs)
          else do {
            (r, buffer) \<leftarrow> (if int (st_size buffer) < package_length then swString_extend al buffer (nat package_length)
               else Some (SW_OK, buffer));
            if r < 0 then Some (SW_ERR, rs)
            else do {
              let rs = rs\<lparr>rs_conn := (rs_conn rs)\<lparr>cn_recv_wait := True\<rparr>, rs_buffer := buffer\<lparr>st_offset := package_length\<rparr>\<rparr>;
              if int (st_length buffer) = package_length then do_package onPackage rs
              else swProtocol_recv_check_length rest get_package_length onPackage al pr rs } } } })"

text \<open>One call after another, each with the answers it gets.\<close>

primrec recv_calls ::
  "(sw_protocol \<Rightarrow> bytes \<Rightarrow> int option) \<Rightarrow> (bytes \<Rightarrow> int) \<Rightarrow> sw_protocol \<Rightarrow> (io_result list \<times> alloc_answer) list \<Rightarrow>
   recv_state \<Rightarrow> recv_state option" where
  "recv_calls plen f pr [] rs = Some rs"
| "recv_calls plen f pr (c # calls) rs = do {
     (r, rs) \<leftarrow> swProtocol_recv_check_length (fst c) plen f (snd c) pr rs;
     recv_calls plen f pr calls rs }"

section \<open>Packages with a length field\<close>

definition hdr :: "sw_protocol \<Rightarrow> nat" where
  "hdr pr = pr_package_length_offset pr + pr_package_length_size pr"

text \<open>The contract of a \<open>get_package_length\<close> for the configurations it is used with: it waits for the whole header
  and then looks at nothing behind it.\<close>

locale length_protocol =
  fixes valid :: "sw_protocol \<Rightarrow> bool"
    and plen :: "sw_protocol \<Rightarrow> bytes \<Rightarrow> int option"
  assumes hdr_pos: "valid pr \<Longrightarrow> 0 < hdr pr"
    and hdr_small: "valid pr \<Longrightarrow> hdr pr < 2 ^ 31"
    and wait_header: "valid pr \<Longrightarrow> length d < hdr pr \<Longrightarrow> plen pr d = Some 0"
    and header_only: "valid pr \<Longrightarrow> hdr pr \<le> length d \<Longrightarrow> plen pr (d @ e) = plen pr d"

text \<open>Packages a peer may send: the length field is right, the package is not too big, and a header that
  arrives in two parts cannot make the reader ask for more than the package has.\<close>

definition packages_ok :: "(sw_protocol \<Rightarrow> bytes \<Rightarrow> int option) \<Rightarrow> sw_protocol \<Rightarrow> bytes list \<Rightarrow> bool" where
  "packages_ok plen pr ps \<longleftrightarrow> (\<forall>p\<in>set ps. plen pr p = Some (int (length p)) \<and> 2 * hdr pr - 1 \<le> length p \<and>
     length p \<le> pr_package_max_length pr \<and> length p < 2 ^ 31)"

text \<open>\<open>ps\<close> are the packages still to be delivered: the first of them has begun to arrive.\<close>

definition rs_inv :: "sw_protocol \<Rightarrow> bytes list \<Rightarrow> recv_state \<Rightarrow> bool" where
  "rs_inv pr ps rs \<longleftrightarrow> (let b = rs_buffer rs in
     length (st_str b) = st_size b \<and> st_length b \<le> st_size b \<and> 2 * hdr pr \<le> st_size b \<and>
     concat ps = take (st_length b) (st_str b) @ rs_input rs \<and>
     (case ps of [] \<Rightarrow> st_length b = 0 | p # _ \<Rightarrow> st_length b < length p) \<and>
     (if cn_recv_wait (rs_conn rs) then ps \<noteq> [] \<and> st_offset b = int (length (hd ps)) \<and> length (hd ps) \<le> st_size b
      else st_offset b = 0 \<and> st_length b < hdr pr))"

lemmas recv_check_length_step = swProtocol_recv_check_length.simps(2)

declare swProtocol_recv_check_length.simps(2) [simp del]

lemma recv_result:
  "swConnection_recv ans n input = (k, d, rest) \<Longrightarrow> 0 < k \<Longrightarrow>
   d @ rest = input \<and> int (length d) = k \<and> 0 < length d \<and> length d \<le> n"
  by (auto simp: swConnection_recv_def Let_def min_def split: if_splits)

text \<open>The state after a successful \<open>recv\<close>.\<close>

definition got :: "bytes \<Rightarrow> bytes \<Rightarrow> recv_state \<Rightarrow> recv_state" where
  "got d input rs = (let b = rs_buffer rs in rs\<lparr>rs_buffer := b\<lparr>st_str := take (st_length b) (st_str b) @ d @
     drop (st_length b + length d) (st_str b), st_length := st_length b + length d\<rparr>, rs_input := input\<rparr>)"

lemma recv_into_got:
  "st_length (rs_buffer rs) + length d \<le> length (st_str (rs_buffer rs)) \<Longrightarrow> recv_into d input rs = Some (got d input rs)"
  by (simp add: recv_into_def got_def Let_def put_at_in)

lemma got_simps [simp]:
  "rs_conn (got d input rs) = rs_conn rs" "rs_packages (got d input rs) = rs_packages rs" "rs_input (got d input rs) = input"
  "st_length (rs_buffer (got d input rs)) = st_length (rs_buffer rs) + length d"
  "st_size (rs_buffer (got d input rs)) = st_size (rs_buffer rs)"
  "st_offset (rs_buffer (got d input rs)) = st_offset (rs_buffer rs)"
  by (simp_all add: got_def Let_def)

lemma got_str [simp]:
  assumes "st_length (rs_buffer rs) + length d \<le> length (st_str (rs_buffer rs))"
  shows "length (st_str (rs_buffer (got d input rs))) = length (st_str (rs_buffer rs))"
    "take (st_length (rs_buffer rs) + length d) (st_str (rs_buffer (got d input rs))) =
      take (st_length (rs_buffer rs)) (st_str (rs_buffer rs)) @ d"
  using assms by (simp_all add: got_def Let_def)

lemma recvbuf_wait:
  assumes "st_offset b = int k" "st_length b < k" "k < 2 ^ 31"
  shows "recvbuf_size pr b = k - st_length b"
proof -
  have "st_offset b - int (st_length b) = int (k - st_length b)" using assms(1,2) by simp
  then show ?thesis using assms by (simp add: recvbuf_size_def unat_of_nat del: of_nat_diff)
qed

lemma recvbuf_idle: "st_offset b = 0 \<Longrightarrow> hdr pr < 2 ^ 31 \<Longrightarrow> recvbuf_size pr b = hdr pr"
  by (simp add: recvbuf_size_def hdr_def unat_of_nat del: of_nat_add)

lemma recv_failed_ok: "snd ans \<noteq> EFAULT \<Longrightarrow> \<exists>r. recv_failed ans rs = Some (r, rs)"
  using swConnection_error_some [of "snd ans"] by (auto simp: recv_failed_def)

text \<open>What is kept by every call: the packages delivered and those to come are the packages sent.\<close>

definition advances :: "(sw_protocol \<Rightarrow> bytes \<Rightarrow> int option) \<Rightarrow> sw_protocol \<Rightarrow> bytes list \<Rightarrow> recv_state \<Rightarrow> recv_state \<Rightarrow> bool" where
  "advances plen pr ps rs rs' \<longleftrightarrow>
     (\<exists>ps'. rs_inv pr ps' rs' \<and> packages_ok plen pr ps' \<and> rs_packages rs' @ ps' = rs_packages rs @ ps)"

text \<open>A complete package is delivered and the buffer is ready for the next.\<close>

lemma do_package_ok:
  assumes "length (st_str (rs_buffer rs)) = st_size (rs_buffer rs)" "st_length (rs_buffer rs) = length p"
    "length p \<le> st_size (rs_buffer rs)" "2 * hdr pr \<le> st_size (rs_buffer rs)" "0 < hdr pr"
    "packages_ok plen pr (p # ps)" "p @ concat ps = take (length p) (st_str (rs_buffer rs)) @ rs_input rs"
    "rs_packages rs = rs_packages rs0"
  shows "\<exists>r rs'. do_package f rs = Some (r, rs') \<and> advances plen pr (p # ps) rs0 rs'"
proof -
  have "length (take (length p) (st_str (rs_buffer rs))) = length p" using assms(1,3) by simp
  then have p: "take (length p) (st_str (rs_buffer rs)) = p" "rs_input rs = concat ps" using assms(7) by auto
  define rs' where "rs' = rs\<lparr>rs_packages := rs_packages rs @ [p], rs_conn := (rs_conn rs)\<lparr>cn_recv_wait := False\<rparr>,
       rs_buffer := swString_clear (rs_buffer rs)\<rparr>"
  have "do_package f rs = Some (f p, rs')" using assms(1-3) p(1) by (simp add: do_package_def rs'_def)
  moreover have "packages_ok plen pr ps" using assms(6) by (simp add: packages_ok_def)
  moreover have "rs_inv pr ps rs'"
    using assms p(2) by (auto simp: rs_inv_def rs'_def swString_clear_def packages_ok_def split: list.splits)
  ultimately show ?thesis using assms(8) by (auto simp: advances_def rs'_def intro!: exI [of _ ps])
qed

context length_protocol
begin

lemma wait_call:
  assumes v: "valid pr" and inv: "rs_inv pr ps rs" and ok: "packages_ok plen pr ps" and w: "cn_recv_wait (rs_conn rs)"
    and e: "snd ans \<noteq> EFAULT"
  shows "\<exists>r rs'. swProtocol_recv_check_length (ans # rest) plen f al pr rs = Some (r, rs') \<and> advances plen pr ps rs rs'"
proof -
  let ?b = "rs_buffer rs"
  obtain p ps' where ps: "ps = p # ps'" and b: "length (st_str ?b) = st_size ?b" "2 * hdr pr \<le> st_size ?b"
      "concat ps = take (st_length ?b) (st_str ?b) @ rs_input rs" "st_length ?b < length p" "st_offset ?b = int (length p)"
      "length p \<le> st_size ?b"
    using inv w by (auto simp: rs_inv_def Let_def neq_Nil_conv)
  have p31: "length p < 2 ^ 31" using ok ps by (simp add: packages_ok_def)
  have sz: "recvbuf_size pr ?b = length p - st_length ?b" by (rule recvbuf_wait [OF b(5,4) p31])
  obtain n d input where rc: "swConnection_recv ans (length p - st_length ?b) (rs_input rs) = (n, d, input)" by (metis prod_cases3)
  have same: "advances plen pr ps rs rs" using inv ok by (auto simp: advances_def)
  consider "n < 0" | "n = 0" | "0 < n" by linarith
  then show ?thesis
  proof cases
    case 1 then show ?thesis using recv_failed_ok [OF e, of rs] same by (auto simp: recv_check_length_step sz rc)
  next
    case 2 then show ?thesis using same by (auto simp: recv_check_length_step sz rc)
  next
    case 3
    then have d: "d @ input = rs_input rs" "0 < length d" "length d \<le> length p - st_length ?b" using recv_result [OF rc] by auto
    then have room: "st_length ?b + length d \<le> length (st_str ?b)" using b(1,4,6) by linarith
    let ?rs = "got d input rs"
    have con: "concat ps = take (st_length ?b + length d) (st_str (rs_buffer ?rs)) @ rs_input ?rs"
      using b(3) d(1) room by simp
    have run: "swProtocol_recv_check_length (ans # rest) plen f al pr rs =
        (if st_length ?b + length d = length p then do_package f ?rs else Some (SW_OK, ?rs))"
      using 3 w b(5) by (simp add: recv_check_length_step sz rc recv_into_got [OF room] flip: of_nat_add)
    show ?thesis
    proof (cases "st_length ?b + length d = length p")
      case True
      have "\<exists>r rs'. do_package f ?rs = Some (r, rs') \<and> advances plen pr (p # ps') rs rs'"
        by (rule do_package_ok) (use True b room ok ps con hdr_pos [OF v] in simp_all)
      then show ?thesis using True ps run by simp
    next
      case False
      have "rs_inv pr ps ?rs" using False b d(3) room con ps w by (simp add: rs_inv_def Let_def)
      then have "advances plen pr ps rs ?rs" using ok by (auto simp: advances_def)
      then show ?thesis using False run by simp
    qed
  qed
qed

text \<open>The header has arrived: what has been read belongs to the first package.\<close>

lemma first_length:
  assumes "valid pr" "packages_ok plen pr (p # ps)" "p @ r = d @ e" "hdr pr \<le> length d" "length d \<le> length p"
  shows "plen pr d = Some (int (length p))"
proof -
  have "take (length d) p = d" using arg_cong [OF assms(3), of "take (length d)"] assms(5) by simp
  then have "p = d @ drop (length d) p" by (metis append_take_drop_id)
  then show ?thesis using header_only [OF assms(1,4), of "drop (length d) p"] assms(2) by (simp add: packages_ok_def)
qed

text \<open>The buffer is made big enough for the package, and the rest of it is waited for.\<close>

lemma header_call:
  assumes v: "valid pr" and ok: "packages_ok plen pr (p # ps)" and e: "snd ans2 \<noteq> EFAULT" and al: "al \<noteq> None"
    and b: "length (st_str (rs_buffer rs)) = st_size (rs_buffer rs)" "2 * hdr pr \<le> st_size (rs_buffer rs)"
      "p @ concat ps = take (st_length (rs_buffer rs)) (st_str (rs_buffer rs)) @ rs_input rs"
      "st_length (rs_buffer rs) \<le> st_size (rs_buffer rs)" "st_length (rs_buffer rs) \<le> length p"
    and pk: "rs_packages rs = rs_packages rs0"
  defines "ext \<equiv> (if int (st_size (rs_buffer rs)) < int (length p) then swString_extend al (rs_buffer rs) (length p)
       else Some (SW_OK, rs_buffer rs))"
  shows "\<exists>buffer r rs'. ext = Some (SW_OK, buffer) \<and> st_length buffer = st_length (rs_buffer rs) \<and>
    (let rs2 = rs\<lparr>rs_conn := (rs_conn rs)\<lparr>cn_recv_wait := True\<rparr>, rs_buffer := buffer\<lparr>st_offset := int (length p)\<rparr>\<rparr> in
     (if st_length (rs_buffer rs) = length p then do_package f rs2
      else swProtocol_recv_check_length (ans2 # rest) plen f al pr rs2) = Some (r, rs') \<and> advances plen pr (p # ps) rs0 rs')"
proof -
  obtain buffer where bf: "ext = Some (SW_OK, buffer)" "st_length buffer = st_length (rs_buffer rs)"
    "length (st_str buffer) = st_size buffer" "st_size (rs_buffer rs) \<le> st_size buffer" "length p \<le> st_size buffer"
    "take (st_length (rs_buffer rs)) (st_str buffer) = take (st_length (rs_buffer rs)) (st_str (rs_buffer rs))"
    using al b(1,4) by (cases "st_size (rs_buffer rs) < length p")
      (auto simp: ext_def swString_extend_def length_realloc_bytes take_realloc_bytes)
  let ?rs = "rs\<lparr>rs_conn := (rs_conn rs)\<lparr>cn_recv_wait := True\<rparr>, rs_buffer := buffer\<lparr>st_offset := int (length p)\<rparr>\<rparr>"
  have con: "p @ concat ps = take (st_length (rs_buffer rs)) (st_str buffer) @ rs_input rs" using b(3) bf(6) by simp
  show ?thesis
  proof (cases "st_length (rs_buffer rs) = length p")
    case True
    have "\<exists>r rs'. do_package f ?rs = Some (r, rs') \<and> advances plen pr (p # ps) rs0 rs'"
      by (rule do_package_ok) (use True bf b con ok hdr_pos [OF v] pk in simp_all)
    then show ?thesis using True bf(1,2) by simp
  next
    case False
    have "rs_inv pr (p # ps) ?rs" using False bf b con by (simp add: rs_inv_def Let_def)
    from wait_call [OF v this ok _ e, where rest = rest and f = f and al = al] obtain r rs' where
      "swProtocol_recv_check_length (ans2 # rest) plen f al pr ?rs = Some (r, rs')" "advances plen pr (p # ps) ?rs rs'" by auto
    then show ?thesis using False bf(1,2) pk by (simp add: advances_def)
  qed
qed

lemma idle_call:
  assumes v: "valid pr" and inv: "rs_inv pr ps rs" and ok: "packages_ok plen pr ps" and w: "\<not> cn_recv_wait (rs_conn rs)"
    and e: "snd ans \<noteq> EFAULT" "snd ans2 \<noteq> EFAULT" and al: "al \<noteq> None"
  shows "\<exists>r rs'. swProtocol_recv_check_length (ans # ans2 # rest) plen f al pr rs = Some (r, rs') \<and> advances plen pr ps rs rs'"
proof -
  let ?b = "rs_buffer rs"
  have b: "length (st_str ?b) = st_size ?b" "2 * hdr pr \<le> st_size ?b" "st_length ?b < hdr pr" "st_offset ?b = 0"
      "concat ps = take (st_length ?b) (st_str ?b) @ rs_input rs" using inv w by (auto simp: rs_inv_def Let_def)
  have sz: "recvbuf_size pr ?b = hdr pr" by (rule recvbuf_idle [OF b(4) hdr_small [OF v]])
  obtain n d input where rc: "swConnection_recv ans (hdr pr) (rs_input rs) = (n, d, input)" by (metis prod_cases3)
  have same: "advances plen pr ps rs rs" using inv ok by (auto simp: advances_def)
  consider "n < 0" | "n = 0" | "0 < n" by linarith
  then show ?thesis
  proof cases
    case 1 then show ?thesis using recv_failed_ok [OF e(1), of rs] same by (auto simp: recv_check_length_step sz rc)
  next
    case 2 then show ?thesis using same by (auto simp: recv_check_length_step sz rc)
  next
    case 3
    then have d: "d @ input = rs_input rs" "0 < length d" "length d \<le> hdr pr" using recv_result [OF rc] by auto
    let ?rs = "got d input rs" and ?l = "st_length ?b + length d"
    have room: "?l \<le> length (st_str ?b)" using b(1-3) d(3) by arith
    have con: "concat ps = take ?l (st_str (rs_buffer ?rs)) @ input" using b(5) d(1) room by simp
    have "ps \<noteq> []" using b(5) d(1,2) by auto
    then obtain p ps' where ps: "ps = p # ps'" by (cases ps) auto
    have p: "2 * hdr pr - 1 \<le> length p" "length p \<le> pr_package_max_length pr" using ok ps by (auto simp: packages_ok_def)
    have len: "?l \<le> length p" "?l < 2 * hdr pr" using p(1) b(3) d(3) by arith+
    show ?thesis
    proof (cases "?l < hdr pr")
      case True
      have pl: "plen pr (take ?l (st_str (rs_buffer ?rs))) = Some 0"
        using wait_header [OF v] True by (metis length_take min.strict_coboundedI2 min.commute)
      have "swProtocol_recv_check_length (ans # ans2 # rest) plen f al pr rs = Some (SW_OK, ?rs)"
        using 3 w pl room got_str(1) [OF room] by (simp add: recv_check_length_step sz rc recv_into_got [OF room] Let_def)
      moreover have "rs_inv pr ps ?rs" using True b room con ps len w p(1) hdr_pos [OF v] by (auto simp: rs_inv_def Let_def)
      ultimately show ?thesis using ok by (auto simp: advances_def)
    next
      case False
      let ?data = "take ?l (st_str (rs_buffer ?rs))"
      have "length ?data = ?l" using room got_str(1) [OF room] by simp
      then have pl: "plen pr ?data = Some (int (length p))"
        using first_length [OF v, of p ps' "concat ps'" ?data input] ok ps con False len by simp
      have "0 < length p" using len(1) d(2) by linarith
      then have run: "swProtocol_recv_check_length (ans # ans2 # rest) plen f al pr rs = do {
        (r, buffer) \<leftarrow> (if int (st_size ?b) < int (length p) then swString_extend al (rs_buffer ?rs) (length p)
          else Some (SW_OK, rs_buffer ?rs));
        if r < 0 then Some (SW_ERR, ?rs)
        else (let rs2 = ?rs\<lparr>rs_conn := (rs_conn ?rs)\<lparr>cn_recv_wait := True\<rparr>, rs_buffer := buffer\<lparr>st_offset := int (length p)\<rparr>\<rparr> in
          if int (st_length buffer) = int (length p) then do_package f rs2
          else swProtocol_recv_check_length (ans2 # rest) plen f al pr rs2) }"
        unfolding recv_check_length_step [of ans] sz rc
        using 3 w pl p(2) room got_str(1) [OF room]
        by (simp add: recv_into_got [OF room]) (simp add: Let_def flip: of_nat_add)
      have okp: "packages_ok plen pr (p # ps')" using ok ps by simp
      show ?thesis using header_call [OF v okp e(2) al, of ?rs rs f rest] ps run room b con len by (auto simp: Let_def SW_OK_def)
    qed
  qed
qed

lemma any_call:
  assumes v: "valid pr" and inv: "rs_inv pr ps rs" and ok: "packages_ok plen pr ps"
    and c: "2 \<le> length answers" "\<forall>a\<in>set answers. snd a \<noteq> EFAULT" "al \<noteq> None"
  shows "\<exists>r rs'. swProtocol_recv_check_length answers plen f al pr rs = Some (r, rs') \<and> advances plen pr ps rs rs'"
proof -
  obtain a1 a2 rest where a: "answers = a1 # a2 # rest" using c(1) by (auto simp: numeral_2_eq_2 Suc_le_length_iff)
  show ?thesis
  proof (cases "cn_recv_wait (rs_conn rs)")
    case True
    then show ?thesis unfolding a using wait_call [OF v inv ok] c(2) a by simp
  next
    case False
    then show ?thesis unfolding a using idle_call [OF v inv ok] c(2,3) a by simp
  qed
qed

lemma all_calls:
  assumes "valid pr" "rs_inv pr ps rs" "packages_ok plen pr ps"
    "\<forall>c\<in>set calls. 2 \<le> length (fst c) \<and> (\<forall>a\<in>set (fst c). snd a \<noteq> EFAULT) \<and> snd c \<noteq> None"
  shows "\<exists>rs'. recv_calls plen f pr calls rs = Some rs' \<and> advances plen pr ps rs rs'"
  using assms(2-4)
proof (induction calls arbitrary: ps rs)
  case Nil
  then show ?case by (auto simp: advances_def)
next
  case (Cons c calls)
  obtain r rs1 where 1: "swProtocol_recv_check_length (fst c) plen f (snd c) pr rs = Some (r, rs1)" "advances plen pr ps rs rs1"
    using any_call [OF assms(1) Cons.prems(1,2), of "fst c" "snd c" f] Cons.prems(3) by auto
  then obtain ps1 where ps1: "rs_inv pr ps1 rs1" "packages_ok plen pr ps1" "rs_packages rs1 @ ps1 = rs_packages rs @ ps"
    by (auto simp: advances_def)
  obtain rs2 where "recv_calls plen f pr calls rs1 = Some rs2" "advances plen pr ps1 rs1 rs2"
    using Cons.IH [OF ps1(1,2)] Cons.prems(3) by auto
  then show ?case using 1(1) ps1(3) by (auto simp: advances_def)
qed

end

lemma advances_done: "advances plen pr ps rs rs' \<Longrightarrow> rs_input rs' = [] \<Longrightarrow> rs_packages rs' = rs_packages rs @ ps"
proof -
  assume a: "advances plen pr ps rs rs'" "rs_input rs' = []"
  then obtain ps' where p: "rs_inv pr ps' rs'" "rs_packages rs' @ ps' = rs_packages rs @ ps" by (auto simp: advances_def)
  have "ps' = []"
  proof (cases ps')
    case (Cons q qs)
    then have "length (concat ps') \<le> st_length (rs_buffer rs')" "st_length (rs_buffer rs') < length q"
      using p(1) a(2) by (auto simp: rs_inv_def Let_def)
    then show ?thesis using Cons by simp
  qed
  then show ?thesis using p(2) by simp
qed

section \<open>The default length field\<close>

text \<open>A configuration as the port sets it: the size of the field is that of its type.\<close>

definition swProtocol_valid :: "sw_protocol \<Rightarrow> bool" where
  "swProtocol_valid pr \<longleftrightarrow> pr_package_length_size pr = swoole_type_size (pr_package_length_type pr) \<and>
     0 < pr_package_length_size pr \<and> pr_package_length_offset pr < 2 ^ 16"

lemma load_append: "2 \<le> length d \<Longrightarrow> load16 (d @ e) = load16 d" "4 \<le> length d \<Longrightarrow> load32 (d @ e) = load32 d"
  by (auto simp: load16_def load32_def byte_at_def nth_append)

lemma unpack_append:
  assumes "swoole_type_size ty \<le> length d" "0 < swoole_type_size ty"
  shows "swoole_unpack ty (d @ e) = swoole_unpack ty d"
  using assms by (auto simp: swoole_unpack_def swoole_type_size_def load_append split: if_splits)

interpretation lenp: length_protocol swProtocol_valid swProtocol_get_package_length
proof
  fix pr and d e :: bytes assume v: "swProtocol_valid pr" and "hdr pr \<le> length d"
  then have "swoole_unpack (pr_package_length_type pr) (drop (pr_package_length_offset pr) d @ e) =
      swoole_unpack (pr_package_length_type pr) (drop (pr_package_length_offset pr) d)"
    by (intro unpack_append) (auto simp: swProtocol_valid_def hdr_def)
  then show "swProtocol_get_package_length pr (d @ e) = swProtocol_get_package_length pr d"
    using \<open>hdr pr \<le> length d\<close> by (simp add: swProtocol_get_package_length_def hdr_def)
next
  fix pr assume "swProtocol_valid pr"
  then show "hdr pr < 2 ^ 31" by (auto simp: hdr_def swProtocol_valid_def swoole_type_size_def split: if_splits)
qed (auto simp: hdr_def swProtocol_valid_def swProtocol_get_package_length_def)

text \<open>A connection on which nothing has arrived yet.\<close>

definition rs_start :: "sw_protocol \<Rightarrow> recv_state \<Rightarrow> bool" where
  "rs_start pr rs \<longleftrightarrow> length (st_str (rs_buffer rs)) = st_size (rs_buffer rs) \<and> st_length (rs_buffer rs) = 0 \<and>
     st_offset (rs_buffer rs) = 0 \<and> 2 * hdr pr \<le> st_size (rs_buffer rs) \<and> \<not> cn_recv_wait (rs_conn rs) \<and> rs_packages rs = []"

lemma rs_start_inv: "rs_start pr rs \<Longrightarrow> 0 < hdr pr \<Longrightarrow> packages_ok plen pr ps \<Longrightarrow> rs_input rs = concat ps \<Longrightarrow> rs_inv pr ps rs"
  by (auto simp: rs_start_def rs_inv_def Let_def packages_ok_def split: list.splits)

text \<open>C33. Reading packages with a length field: in whatever pieces the stream arrives, every call returns, nothing
  is written outside the buffer, and the packages handed on are the first ones sent, complete and in order; when
  everything has been read they are all of them. The packages sent are at least twice as long as the header, up
  to one byte, so that a header in two pieces cannot run into the next package.\<close>

theorem swProtocol_length_packages:
  assumes "swProtocol_valid pr" "rs_start pr rs" "packages_ok swProtocol_get_package_length pr ps" "rs_input rs = concat ps"
    "\<forall>c\<in>set calls. 2 \<le> length (fst c) \<and> (\<forall>a\<in>set (fst c). snd a \<noteq> EFAULT) \<and> snd c \<noteq> None"
  shows "\<exists>rs' ps'. recv_calls swProtocol_get_package_length f pr calls rs = Some rs' \<and> ps = rs_packages rs' @ ps' \<and>
    concat ps' = take (st_length (rs_buffer rs')) (st_str (rs_buffer rs')) @ rs_input rs' \<and>
    (rs_input rs' = [] \<longrightarrow> rs_packages rs' = ps)"
proof -
  have "rs_inv pr ps rs" using rs_start_inv [OF assms(2) lenp.hdr_pos [OF assms(1)] assms(3,4)] .
  from lenp.all_calls [OF assms(1) this assms(3,5)] obtain rs' where
    r: "recv_calls swProtocol_get_package_length f pr calls rs = Some rs'" "advances swProtocol_get_package_length pr ps rs rs'"
    by blast
  have "rs_packages rs = []" using assms(2) by (simp add: rs_start_def)
  then show ?thesis using r advances_done [OF r(2)] by (auto simp: advances_def rs_inv_def Let_def)
qed

text \<open>C34. A package whose length field is smaller than the header makes the reader ask for almost four gigabytes:
  when the peer goes on sending, the bytes run over the end of the buffer.\<close>

theorem swProtocol_short_package_overruns:
  assumes "swProtocol_valid pr" "rs_start pr rs" "length h = hdr pr" "rs_input rs = h @ rest"
    "swProtocol_get_package_length pr h = Some l" "0 < l" "l < int (hdr pr)" "l \<le> int (pr_package_max_length pr)"
    "st_size (rs_buffer rs) < length rest" "length rest < 2 ^ 31"
  shows "swProtocol_recv_check_length [(int (hdr pr), ENONE), (int (length rest), ENONE)]
    swProtocol_get_package_length f al pr rs = None"
proof -
  let ?b = "rs_buffer rs"
  have st: "length (st_str ?b) = st_size ?b" "st_length ?b = 0" "st_offset ?b = 0" "2 * hdr pr \<le> st_size ?b"
    "\<not> cn_recv_wait (rs_conn rs)" using assms(2) by (auto simp: rs_start_def)
  have h31: "hdr pr < 2 ^ 31" by (rule lenp.hdr_small [OF assms(1)])
  have rc: "swConnection_recv (int (hdr pr), ENONE) (hdr pr) (rs_input rs) = (int (hdr pr), h, rest)"
    using assms(3,4) by (simp add: swConnection_recv_def)
  have room: "st_length ?b + length h \<le> length (st_str ?b)" using st assms(3) by simp
  define rs2 where "rs2 = (got h rest rs)\<lparr>rs_conn := (rs_conn rs)\<lparr>cn_recv_wait := True\<rparr>,
     rs_buffer := (rs_buffer (got h rest rs))\<lparr>st_offset := l\<rparr>\<rparr>"
  have "take (hdr pr) (st_str (rs_buffer (got h rest rs))) = h" using got_str(2) [OF room] st(2) assms(3) by simp
  then have "slice_at (st_str (rs_buffer (got h rest rs))) 0 (hdr pr) = Some h"
    using got_str(1) [OF room] st by (simp add: slice_at_def)
  then have run: "swProtocol_recv_check_length [(int (hdr pr), ENONE), (int (length rest), ENONE)]
      swProtocol_get_package_length f al pr rs =
    swProtocol_recv_check_length [(int (length rest), ENONE)] swProtocol_get_package_length f al pr rs2"
    using st assms lenp.hdr_pos [OF assms(1)]
    by (subst recv_check_length_step) (simp add: recvbuf_idle [OF st(3) h31] rc [unfolded assms(4)] recv_into_got [OF room] rs2_def SW_OK_def)
  have b2: "st_length (rs_buffer rs2) = hdr pr" "st_offset (rs_buffer rs2) = l" "rs_input rs2 = rest"
    "length (st_str (rs_buffer rs2)) = st_size ?b" using st assms(3) got_str(1) [OF room] by (simp_all add: rs2_def)
  have "recvbuf_size pr (rs_buffer rs2) = unat (of_int (l - int (hdr pr)) :: u32)" using b2 assms(6) by (simp add: recvbuf_size_def)
  also have "\<dots> = nat ((l - int (hdr pr)) mod 2 ^ 32)" by (simp add: unsigned_of_int take_bit_eq_mod del: of_int_diff)
  also have "(l - int (hdr pr)) mod 2 ^ 32 = l - int (hdr pr) + 2 ^ 32"
    using mod_add_self2 [of "l - int (hdr pr)" "2 ^ 32"] assms(6,7) h31 by (subst mod_add_self2 [symmetric], intro mod_pos_pos_trivial) auto
  finally have "length rest \<le> recvbuf_size pr (rs_buffer rs2)" using assms(6,10) h31 by simp
  then have "swConnection_recv (int (length rest), ENONE) (recvbuf_size pr (rs_buffer rs2)) rest = (int (length rest), rest, [])"
    by (simp add: swConnection_recv_def min_def)
  moreover have "recv_into rest [] rs2 = None" using b2 assms(9) by (simp add: recv_into_def put_at_def)
  moreover have "rest \<noteq> []" using assms(9) by auto
  ultimately show ?thesis unfolding run by (subst recv_check_length_step) (simp add: b2(3))
qed

section \<open>Witnesses\<close>

text \<open>The configuration a port starts with, and packages of seven bytes.\<close>

definition ex_protocol :: sw_protocol where
  "ex_protocol = \<lparr>pr_split_by_eof = False, pr_package_eof = [13, 10], pr_package_length_type = CHR ''N'',
     pr_package_length_size = 4, pr_package_length_offset = 0, pr_package_body_offset = 0, pr_package_max_length = 2048\<rparr>"

definition ex_conn :: sw_connection where
  "ex_conn = \<lparr>cn_fd = 5, cn_session_id = 0, cn_socket_type = 0, cn_fdtype = 0, cn_events = 0, cn_active = True,
     cn_connect_notify = False, cn_close_notify = False, cn_recv_wait = False, cn_send_wait = False,
     cn_direct_send = False, cn_ssl_send = False, cn_protect = False, cn_close_wait = False, cn_closed = False,
     cn_closing = False, cn_close_force = False, cn_close_reset = False, cn_removed = False, cn_overflow = False,
     cn_from_id = 0, cn_from_fd = 0, cn_object = None, cn_in_buffer = None, cn_out_buffer = None,
     cn_connect_time = 0, cn_last_time = 0, cn_uid = 0, cn_buffer_size = 0, cn_websocket_status = 0\<rparr>"

definition ex_recv :: "bytes \<Rightarrow> recv_state" where
  "ex_recv input = \<lparr>rs_conn = ex_conn, rs_buffer = \<lparr>st_length = 0, st_size = 8, st_offset = 0, st_str = replicate 8 0\<rparr>,
     rs_input = input, rs_packages = []\<rparr>"

lemma ex_protocol_ok: "swProtocol_valid ex_protocol" "hdr ex_protocol = 4" "rs_start ex_protocol (ex_recv input)"
  by (simp_all add: swProtocol_valid_def ex_protocol_def swoole_type_size_def hdr_def rs_start_def ex_recv_def ex_conn_def)

lemma ex_recv_fields [simp]: "rs_input (ex_recv input) = input" "st_size (rs_buffer (ex_recv input)) = 8"
  by (simp_all add: ex_recv_def)

theorem swProtocol_length_packages_witness:
  "\<exists>rs' ps'. recv_calls swProtocol_get_package_length (\<lambda>_. 0) ex_protocol
      [([(3, ENONE), (9, ENONE)], Some (\<lambda>_. 0)), ([(9, ENONE), (9, ENONE)], Some (\<lambda>_. 0)), ([(9, ENONE), (9, ENONE)], Some (\<lambda>_. 0))]
      (ex_recv ([0, 0, 0, 7, 1, 2, 3] @ [0, 0, 0, 7, 4, 5, 6])) = Some rs' \<and>
     [[0, 0, 0, 7, 1, 2, 3], [0, 0, 0, 7, 4, 5, 6]] = rs_packages rs' @ ps' \<and>
     concat ps' = take (st_length (rs_buffer rs')) (st_str (rs_buffer rs')) @ rs_input rs' \<and>
     (rs_input rs' = [] \<longrightarrow> rs_packages rs' = [[0, 0, 0, 7, 1, 2, 3], [0, 0, 0, 7, 4, 5, 6]])"
proof (rule swProtocol_length_packages [OF ex_protocol_ok(1,3)])
  have "swProtocol_get_package_length ex_protocol [0, 0, 0, 7, 1, 2, 3] = Some 7"
    "swProtocol_get_package_length ex_protocol [0, 0, 0, 7, 4, 5, 6] = Some 7" by code_simp+
  then show "packages_ok swProtocol_get_package_length ex_protocol [[0, 0, 0, 7, 1, 2, 3], [0, 0, 0, 7, 4, 5, 6]]"
    by (simp add: packages_ok_def ex_protocol_ok(2)) (simp add: ex_protocol_def)
qed simp_all

theorem swProtocol_short_package_overruns_witness:
  "swProtocol_recv_check_length [(4, ENONE), (9, ENONE)] swProtocol_get_package_length (\<lambda>_. 0) None ex_protocol
     (ex_recv ([0, 0, 0, 1] @ replicate 9 65)) = None"
proof -
  have "swProtocol_get_package_length ex_protocol [0, 0, 0, 1] = Some 1" by code_simp
  moreover have "pr_package_max_length ex_protocol = 2048" by (simp add: ex_protocol_def)
  ultimately show ?thesis
    using swProtocol_short_package_overruns [OF ex_protocol_ok(1) ex_protocol_ok(3) [of "[0, 0, 0, 1] @ replicate 9 65"],
        of "[0, 0, 0, 1]" "replicate 9 65" 1 "\<lambda>_. 0" None]
    by (simp add: ex_protocol_ok(2))
qed

end
