(* ===== verification/Sw_Eof.thy ===== *)
theory Sw_Eof
  imports Sw_Protocol
begin

text \<open>
  Packages that end with a mark (\<open>swProtocol_split_package_by_eof\<close> and \<open>swProtocol_recv_check_eof\<close> of
  \<open>src/protocol/Base.c\<close>). Positions in the buffer take the place of pointers into it.
\<close>

section \<open>The operations\<close>

definition SW_BUFFER_SIZE_BIG :: nat where
  "SW_BUFFER_SIZE_BIG = 65536"

text \<open>The rest of the data is moved to the front of the buffer over an array on the stack.\<close>

definition wait_more_data :: "recv_state \<Rightarrow> nat \<Rightarrow> nat \<Rightarrow> (int \<times> recv_state) option" where
  "wait_more_data rs pos remaining_length = do {
     d \<leftarrow> slice_at (st_str (rs_buffer rs)) pos remaining_length;
     stack_buf \<leftarrow> (if remaining_length \<le> SW_BUFFER_SIZE_BIG then Some d else None);
     str \<leftarrow> put_at (st_str (rs_buffer rs)) 0 stack_buf;
     Some (int remaining_length,
       rs\<lparr>rs_buffer := (rs_buffer rs)\<lparr>st_str := str, st_length := remaining_length, st_offset := 0\<rparr>\<rparr>) }"

definition onPackage_at :: "recv_state \<Rightarrow> nat \<Rightarrow> nat \<Rightarrow> recv_state option" where
  "onPackage_at rs pos len = do {
     d \<leftarrow> slice_at (st_str (rs_buffer rs)) pos len;
     Some (rs\<lparr>rs_packages := rs_packages rs @ [d]\<rparr>) }"

function split_loop :: "bytes \<Rightarrow> recv_state \<Rightarrow> nat \<Rightarrow> nat \<Rightarrow> (int \<times> recv_state) option" where
  "split_loop eof rs pos remaining_length =
     (if remaining_length < length eof then wait_more_data rs pos remaining_length
      else do {
        eof_pos \<leftarrow> swoole_strnpos (drop pos (st_str (rs_buffer rs))) (of_nat remaining_length) eof;
        if eof_pos < 0 then wait_more_data rs pos remaining_length
        else do {
          let len = nat eof_pos + length eof;
          rs \<leftarrow> onPackage_at rs pos len;
          split_loop eof rs (pos + len) (remaining_length - len) } })"
  by pat_completeness auto
termination
proof (relation "measure (\<lambda>(_, _, _, n). n)", goal_cases)
  case (2 eof rs pos n a len rs')
  then have "0 < length eof" "length eof \<le> n" by (auto simp: swoole_strnpos_def split: if_splits)
  then have "n - (nat a + length eof) < n" by linarith
  then show ?case using 2 by simp
qed simp

text \<open>The code takes \<open>length - offset\<close> as an unsigned difference; the offset never passes the length.\<close>

definition swProtocol_split_package_by_eof :: "sw_protocol \<Rightarrow> recv_state \<Rightarrow> (int \<times> recv_state) option" where
  "swProtocol_split_package_by_eof pr rs =
     (let buffer = rs_buffer rs; eof = pr_package_eof pr in do {
        eof_pos \<leftarrow> (if int (st_length buffer) - st_offset buffer < int (length eof) then Some (- 1)
          else swoole_strnpos (drop (nat (st_offset buffer)) (st_str buffer)) (of_int (int (st_length buffer) - st_offset buffer)) eof);
        if eof_pos < 0 then
          Some (int (st_length buffer),
            rs\<lparr>rs_buffer := buffer\<lparr>st_offset := int (st_length buffer) - int (length eof)\<rparr>\<rparr>)
        else do {
          let len = nat (st_offset buffer + eof_pos) + length eof;
          rs \<leftarrow> onPackage_at rs 0 len;
          if len < st_length buffer then split_loop eof rs len (st_length buffer - len)
          else Some (0, rs\<lparr>rs_buffer := swString_clear buffer\<rparr>) } })"

text \<open>The part of a round behind the search for the mark: \<open>Inl\<close> is a return, \<open>Inr\<close> asks for more data. \<open>recv_again\<close>
  stays set once it is.\<close>

definition eof_more ::
  "alloc_answer \<Rightarrow> nat \<Rightarrow> sw_protocol \<Rightarrow> bool \<Rightarrow> recv_state \<Rightarrow> ((int + bool) \<times> recv_state) option" where
  "eof_more al pagesize pr recv_again rs =
     (let b = rs_buffer rs in
      if st_length b = pr_package_max_length pr then Some (Inl SW_ERR, rs)
      else if st_length b = st_size b then
        (if st_size b < pr_package_max_length pr then do {
           let extend_size = min (swoole_size_align (st_size b * 2) pagesize mod 2 ^ 32) (pr_package_max_length pr);
           (r, b) \<leftarrow> swString_extend al b extend_size;
           if r < 0 then Some (Inl SW_ERR, rs) else Some (Inr True, rs\<lparr>rs_buffer := b\<rparr>) }
         else Some (Inr True, rs))
      else if recv_again then Some (Inr True, rs)
      else Some (Inl SW_OK, rs))"

text \<open>The part of a round behind the reception of data.\<close>

definition eof_round ::
  "alloc_answer \<Rightarrow> nat \<Rightarrow> sw_protocol \<Rightarrow> bool \<Rightarrow> recv_state \<Rightarrow> ((int + bool) \<times> recv_state) option" where
  "eof_round al pagesize pr recv_again rs =
     (let b = rs_buffer rs; eof = pr_package_eof pr in
      if st_length b < length eof then Some (Inl SW_OK, rs)
      else if pr_split_by_eof pr then do {
        (r, rs) \<leftarrow> swProtocol_split_package_by_eof pr rs;
        if r = 0 then Some (Inl SW_OK, rs) else eof_more al pagesize pr True rs }
      else do {
        w \<leftarrow> slice_at (st_str b) (st_length b - length eof) (length eof);
        if w = eof then do {
          rs \<leftarrow> onPackage_at rs 0 (st_length b);
          Some (Inl SW_OK, rs\<lparr>rs_buffer := swString_clear b\<rparr>) }
        else eof_more al pagesize pr recv_again rs })"

primrec recv_eof_loop ::
  "io_result list \<Rightarrow> alloc_answer \<Rightarrow> nat \<Rightarrow> sw_protocol \<Rightarrow> bool \<Rightarrow> recv_state \<Rightarrow> (int \<times> recv_state) option" where
  "recv_eof_loop [] al pagesize pr recv_again rs = None"
| "recv_eof_loop (ans # rest) al pagesize pr recv_again rs =
     (let buf_size = min (st_size (rs_buffer rs) - st_length (rs_buffer rs)) (nat SW_BUFFER_SIZE);
          (n, d, input) = swConnection_recv ans buf_size (rs_input rs) in
      if n < 0 then recv_failed ans rs
      else if n = 0 then Some (SW_ERR, rs)
      else do {
        rs \<leftarrow> recv_into d input rs;
        (x, rs) \<leftarrow> eof_round al pagesize pr recv_again rs;
        case x of Inl r \<Rightarrow> Some (r, rs) | Inr again \<Rightarrow> recv_eof_loop rest al pagesize pr again rs })"

definition swProtocol_recv_check_eof ::
  "io_result list \<Rightarrow> alloc_answer \<Rightarrow> nat \<Rightarrow> sw_protocol \<Rightarrow> recv_state \<Rightarrow> (int \<times> recv_state) option" where
  "swProtocol_recv_check_eof answers al pagesize pr rs = recv_eof_loop answers al pagesize pr False rs"

section \<open>Marks\<close>

text \<open>A package: it ends with the mark and has it nowhere else.\<close>

definition marked :: "bytes \<Rightarrow> bytes \<Rightarrow> bool" where
  "marked eof p \<longleftrightarrow> occurs eof p (length p - length eof) \<and> (\<forall>j. occurs eof p j \<longrightarrow> j = length p - length eof)"

definition unmarked :: "bytes \<Rightarrow> bytes \<Rightarrow> bool" where
  "unmarked eof d \<longleftrightarrow> (\<forall>j. \<not> occurs eof d j)"

lemma occurs_take: "occurs e (take n xs) j \<longleftrightarrow> occurs e xs j \<and> j + length e \<le> n"
  by (auto simp: occurs_def drop_take min_def)

lemma occurs_drop: "k \<le> length xs \<Longrightarrow> occurs e (drop k xs) j \<longleftrightarrow> occurs e xs (k + j)"
  by (auto simp: occurs_def add.commute add.left_commute le_diff_conv2 algebra_simps)

lemma occurs_append: "j + length e \<le> length xs \<Longrightarrow> occurs e (xs @ ys) j = occurs e xs j"
  by (auto simp: occurs_def)

text \<open>Searching behind the bytes that cannot begin a mark.\<close>

lemma strnpos_part:
  assumes "eof \<noteq> []" "length eof \<le> n" "pos + n \<le> length str" "n < 2 ^ 31"
  shows "swoole_strnpos (drop pos str) (of_nat n) eof = Some
    (if unmarked eof (take n (drop pos str)) then - 1 else int (LEAST j. occurs eof (take n (drop pos str)) j))"
proof -
  let ?h = "drop pos str"
  have len: "unat (of_nat n :: u32) = n" using assms(4) by (simp add: unat_of_nat)
  have room: "unat (of_nat n - of_nat (length eof) + 1 :: u32) = n - length eof + 1"
    using strnpos_room(1) [of "length eof" "of_nat n"] assms len by simp
  have oc: "j < 0 + (n - length eof + 1) \<and> occurs eof ?h j \<longleftrightarrow> occurs eof (take n ?h) j" for j
    using assms(2) by (auto simp: occurs_take)
  have least: "(LEAST j. 0 \<le> j \<and> occurs eof ?h j) = (LEAST j. occurs eof (take n ?h) j)" if "occurs eof (take n ?h) k" for k
  proof (rule Least_equality)
    have L: "occurs eof (take n ?h) (LEAST j. occurs eof (take n ?h) j)" by (rule LeastI [of "occurs eof (take n ?h)", OF that])
    then show "0 \<le> (LEAST j. occurs eof (take n ?h) j) \<and> occurs eof ?h (LEAST j. occurs eof (take n ?h) j)"
      by (simp add: occurs_take)
    fix y assume y: "0 \<le> y \<and> occurs eof ?h y"
    show "(LEAST j. occurs eof (take n ?h) j) \<le> y"
    proof (cases "y + length eof \<le> n")
      case True then show ?thesis using y by (intro Least_le) (simp add: occurs_take)
    next
      case False then show ?thesis using L by (simp add: occurs_take)
    qed
  qed
  have "strn_loop ?h eof (n - length eof + 1) 0 = Some (if \<exists>j. 0 \<le> j \<and> j < 0 + (n - length eof + 1) \<and> occurs eof ?h j
      then Some (LEAST j. 0 \<le> j \<and> occurs eof ?h j) else None)"
    using assms by (intro strn_loop_found) auto
  then show ?thesis using least assms(1) oc by (auto simp: swoole_strnpos_def room unmarked_def)
qed

text \<open>The package up to the first mark, and what is known of the rest.\<close>

lemma first_mark:
  assumes "\<not> unmarked eof d" "eof \<noteq> []"
  defines "j \<equiv> LEAST j. occurs eof d j"
  shows "j + length eof \<le> length d" "marked eof (take (j + length eof) d)" "\<And>i. occurs eof d i \<Longrightarrow> j \<le> i"
proof -
  obtain i where "occurs eof d i" using assms(1) by (auto simp: unmarked_def)
  then have j: "occurs eof d j" unfolding j_def by (rule LeastI)
  then show l: "j + length eof \<le> length d" by (simp add: occurs_def)
  show le: "j \<le> i" if "occurs eof d i" for i unfolding j_def using that by (rule Least_le)
  have "length (take (j + length eof) d) = j + length eof" using l by simp
  then show "marked eof (take (j + length eof) d)" using j le by (auto simp: marked_def occurs_take intro: le_antisym)
qed

section \<open>Splitting\<close>

text \<open>\<open>d\<close> has been cut: packages were handed on, the rest without a mark is in the buffer, and no mark can begin
  before the offset.\<close>

definition cut_up :: "bytes \<Rightarrow> bytes \<Rightarrow> recv_state \<Rightarrow> int \<Rightarrow> recv_state \<Rightarrow> bool" where
  "cut_up eof d rs r rs' \<longleftrightarrow> (let b = rs_buffer rs'; rest = take (st_length b) (st_str b) in
     (\<exists>qs. rs_packages rs' = rs_packages rs @ qs \<and> (\<forall>p\<in>set qs. marked eof p) \<and> concat qs @ rest = d) \<and>
     unmarked eof rest \<and> st_length b \<le> length (st_str b) \<and>
     (st_offset b = 0 \<or> 0 \<le> st_offset b \<and> st_offset b + int (length eof) \<le> int (st_length b)) \<and>
     length (st_str b) = length (st_str (rs_buffer rs)) \<and> st_size b = st_size (rs_buffer rs) \<and>
     rs_input rs' = rs_input rs \<and> rs_conn rs' = rs_conn rs \<and> r = int (st_length b))"

lemma wait_more_data_cut:
  assumes "pos + n \<le> length (st_str (rs_buffer rs))" "n \<le> SW_BUFFER_SIZE_BIG" "unmarked eof (take n (drop pos (st_str (rs_buffer rs))))"
  shows "\<exists>r rs'. wait_more_data rs pos n = Some (r, rs') \<and> cut_up eof (take n (drop pos (st_str (rs_buffer rs)))) rs r rs'"
  using assms by (auto simp: wait_more_data_def put_at_def cut_up_def Let_def)

lemma onPackage_at_some:
  "pos + n \<le> length (st_str (rs_buffer rs)) \<Longrightarrow>
   onPackage_at rs pos n = Some (rs\<lparr>rs_packages := rs_packages rs @ [take n (drop pos (st_str (rs_buffer rs)))]\<rparr>)"
  by (simp add: onPackage_at_def)

lemma cut_up_cons:
  assumes "cut_up eof d (rs\<lparr>rs_packages := rs_packages rs @ [p]\<rparr>) r rs'" "marked eof p"
  shows "cut_up eof (p @ d) rs r rs'"
proof -
  obtain qs where "rs_packages rs' = rs_packages rs @ p # qs" "\<forall>p\<in>set qs. marked eof p"
    "concat qs @ take (st_length (rs_buffer rs')) (st_str (rs_buffer rs')) = d" using assms(1) by (auto simp: cut_up_def Let_def)
  then show ?thesis using assms unfolding cut_up_def Let_def by (intro conjI exI [of _ "p # qs"]) auto
qed

declare split_loop.simps [simp del]

lemma split_loop_cut:
  assumes "eof \<noteq> []" "pos + n \<le> length (st_str (rs_buffer rs))" "n < 2 ^ 31" "n \<le> SW_BUFFER_SIZE_BIG"
  shows "\<exists>r rs'. split_loop eof rs pos n = Some (r, rs') \<and> cut_up eof (take n (drop pos (st_str (rs_buffer rs)))) rs r rs'"
  using assms
proof (induction n arbitrary: rs pos rule: less_induct)
  case (less n)
  let ?d = "take n (drop pos (st_str (rs_buffer rs)))"
  have ld: "length ?d = n" using less.prems(2) by simp
  show ?case
  proof (cases "n < length eof \<or> unmarked eof ?d")
    case True
    then have "unmarked eof ?d" using ld by (auto simp: unmarked_def occurs_def)
    moreover have "split_loop eof rs pos n = wait_more_data rs pos n"
      using True strnpos_part [OF less.prems(1) _ less.prems(2,3)] by (subst split_loop.simps) auto
    ultimately show ?thesis using wait_more_data_cut less.prems by simp
  next
    case False
    define j where "j = (LEAST j. occurs eof ?d j)"
    define m where "m = j + length eof"
    note fm = first_mark [of eof ?d, folded j_def, folded m_def]
    have m: "0 < m" "m \<le> n" "marked eof (take m ?d)" using fm(1,2) False less.prems(1) ld by (auto simp: m_def)
    have pm: "take m ?d = take m (drop pos (st_str (rs_buffer rs)))" using m(2) by (simp add: min_def)
    let ?rs = "rs\<lparr>rs_packages := rs_packages rs @ [take m (drop pos (st_str (rs_buffer rs)))]\<rparr>"
    have "split_loop eof rs pos n = split_loop eof ?rs (pos + m) (n - m)"
      using False strnpos_part [OF less.prems(1) _ less.prems(2,3)] m(2) less.prems(2)
      by (subst split_loop.simps) (simp add: onPackage_at_some m_def j_def Let_def)
    moreover obtain r rs' where "split_loop eof ?rs (pos + m) (n - m) = Some (r, rs')"
      "cut_up eof (take (n - m) (drop (pos + m) (st_str (rs_buffer rs)))) ?rs r rs'"
      using less.IH [of "n - m" "pos + m" ?rs] m(1,2) less.prems le_trans [OF diff_le_self less.prems(4), of m]
        le_less_trans [OF diff_le_self less.prems(3), of m] by auto
    moreover have "take m (drop pos (st_str (rs_buffer rs))) @ take (n - m) (drop (pos + m) (st_str (rs_buffer rs))) = ?d"
      using m(2) take_add [of m "n - m" "drop pos (st_str (rs_buffer rs))"] by (simp add: add.commute)
    ultimately show ?thesis using cut_up_cons [of eof _ rs _ r rs'] m(3) pm by metis
  qed
qed

text \<open>A mark in old and new data together ends in the new data.\<close>

lemma new_mark:
  assumes "unmarked eof old" "occurs eof (old @ new) j"
  shows "length old < j + length eof"
  using assms occurs_append [of j eof old new] by (auto simp: unmarked_def not_le [symmetric])

lemma split_unfold:
  assumes "b = rs_buffer rs" "eof = pr_package_eof pr" "st_offset b = int k" "k \<le> st_length b"
  shows "swProtocol_split_package_by_eof pr rs = do {
    eof_pos \<leftarrow> (if st_length b - k < length eof then Some (- 1)
       else swoole_strnpos (drop k (st_str b)) (of_nat (st_length b - k)) eof);
    if eof_pos < 0 then Some (int (st_length b), rs\<lparr>rs_buffer := b\<lparr>st_offset := int (st_length b) - int (length eof)\<rparr>\<rparr>)
    else do {
      let len = nat (int k + eof_pos) + length eof;
      rs \<leftarrow> onPackage_at rs 0 len;
      if len < st_length b then split_loop eof rs len (st_length b - len)
      else Some (0, rs\<lparr>rs_buffer := swString_clear b\<rparr>) } }"
proof -
  have "int (st_length b) - int k = int (st_length b - k)" using assms(4) by simp
  then show ?thesis unfolding swProtocol_split_package_by_eof_def Let_def assms(1,2) [symmetric] assms(3)
    by (simp only: of_int_of_nat_eq of_nat_less_iff nat_int)
qed

lemma split_cut:
  assumes b: "length (st_str b) = st_size b" "st_length b \<le> st_size b" "st_length b < 2 ^ 31" "length eof \<le> st_length b"
    and eof: "eof = pr_package_eof pr" "eof \<noteq> []" and bd: "b = rs_buffer rs"
    and d: "take (st_length b) (st_str b) = old @ new" "unmarked eof old" "length new \<le> SW_BUFFER_SIZE_BIG"
    and off: "st_offset b = 0 \<or> 0 \<le> st_offset b \<and> st_offset b + int (length eof) \<le> int (length old)"
  shows "\<exists>r rs'. swProtocol_split_package_by_eof pr rs = Some (r, rs') \<and> cut_up eof (old @ new) rs r rs'"
proof -
  define k where "k = nat (st_offset b)"
  have k: "st_offset b = int k" "k \<le> st_length b" "k = 0 \<or> k + length eof \<le> length old"
    using off arg_cong [OF d(1), of length] b by (auto simp: k_def)
  let ?n = "st_length b - k" and ?h = "drop k (st_str b)"
  have dk: "take ?n ?h = drop k (old @ new)" using d(1) by (metis drop_take)
  have le: "k \<le> j" if "occurs eof (old @ new) j" for j using new_mark [OF d(2) that] k(3) by auto
  have um: "unmarked eof (drop k (old @ new)) \<longleftrightarrow> unmarked eof (old @ new)"
    using le occurs_drop [of k "old @ new" eof] k(2) arg_cong [OF d(1), of length] b
    by (auto simp: unmarked_def le_iff_add)
  show ?thesis
  proof (cases "?n < length eof \<or> unmarked eof (old @ new)")
    case True
    have "length (drop k (old @ new)) = ?n" using arg_cong [OF dk, of length] b k(2) by simp
    then have u: "unmarked eof (old @ new)" using True um by (auto simp: unmarked_def occurs_def)
    have "swProtocol_split_package_by_eof pr rs = Some (int (st_length b),
        rs\<lparr>rs_buffer := b\<lparr>st_offset := int (st_length b) - int (length eof)\<rparr>\<rparr>)"
      using True u um strnpos_part [OF eof(2), of ?n k "st_str b"] k b(1-3) dk by (simp add: split_unfold [OF bd eof(1) k(1,2)])
    then show ?thesis using u d(1) b eof bd by (auto simp: cut_up_def Let_def)
  next
    case False
    define j where "j = (LEAST j. occurs eof (old @ new) j)"
    define m where "m = j + length eof"
    have um': "\<not> unmarked eof (drop k (old @ new))" using False um by simp
    note fm = first_mark [of eof "old @ new", folded j_def, folded m_def]
    have len: "length (old @ new) = st_length b" using arg_cong [OF d(1), of length] b(1,2) by simp
    have oj: "occurs eof (old @ new) j"
      using False LeastI [of "occurs eof (old @ new)"] by (auto simp: j_def unmarked_def)
    have m: "m \<le> st_length b" "marked eof (take m (old @ new))" "k \<le> j" "length old < m"
      using fm(1,2) False eof(2) len le [OF oj] new_mark [OF d(2) oj] by (auto simp: m_def)
    have "(LEAST i. occurs eof (drop k (old @ new)) i) = j - k"
    proof (rule Least_equality)
      show "occurs eof (drop k (old @ new)) (j - k)" using oj m(3) k(2) len by (subst occurs_drop) auto
      fix i assume "occurs eof (drop k (old @ new)) i"
      then have "occurs eof (old @ new) (k + i)" using k(2) len by (subst (asm) occurs_drop) auto
      then show "j - k \<le> i" using fm(3) False eof(2) by fastforce
    qed
    then have jk: "int (LEAST j. occurs eof (drop k (old @ new)) j) = int j - int k" using m(3) by simp
    let ?p = "take m (st_str b)" and ?q = "take (st_length b - m) (drop m (st_str b))"
    have p: "?p = take m (old @ new)" using m(1) by (metis d(1) min.absorb1 take_take)
    have pq: "?p @ ?q = old @ new" using m(1) d(1) by (metis le_add_diff_inverse take_add)
    let ?rs = "rs\<lparr>rs_packages := rs_packages rs @ [?p]\<rparr>"
    have run: "swProtocol_split_package_by_eof pr rs = (if m < st_length b then split_loop eof ?rs m (st_length b - m)
        else Some (0, ?rs\<lparr>rs_buffer := swString_clear b\<rparr>))"
      using False um' strnpos_part [OF eof(2), of ?n k "st_str b"] k b(1-3) dk jk m(1)
      by (simp add: split_unfold [OF bd eof(1) k(1,2)] onPackage_at_some m_def bd Let_def)
    show ?thesis
    proof (cases "m < st_length b")
      case True
      have "st_length b - m \<le> SW_BUFFER_SIZE_BIG" using m(4) len d(3) by simp
      then obtain r rs' where "split_loop eof ?rs m (st_length b - m) = Some (r, rs')" "cut_up eof ?q ?rs r rs'"
        using split_loop_cut [OF eof(2), of m "st_length b - m" ?rs] m(1) b bd le_less_trans [OF diff_le_self b(3), of m] by auto
      then show ?thesis using True run cut_up_cons [of eof ?q rs ?p] m(2) p pq by auto
    next
      case False
      then have "?p = old @ new" using p len m(1) by simp
      moreover have "unmarked eof []" using eof(2) by (simp add: unmarked_def occurs_def)
      moreover have "marked eof ?p" using p m(2) by simp
      ultimately show ?thesis using False run b bd
        by (auto simp: cut_up_def Let_def swString_clear_def intro!: exI [of _ "[?p]"])
    qed
  qed
qed

section \<open>Receiving\<close>

text \<open>Between calls the buffer has no mark, and none can begin before the offset.\<close>

definition eof_inv :: "sw_protocol \<Rightarrow> recv_state \<Rightarrow> bool" where
  "eof_inv pr rs \<longleftrightarrow> (let b = rs_buffer rs; eof = pr_package_eof pr in
     length (st_str b) = st_size b \<and> st_length b \<le> st_size b \<and> st_size b \<le> pr_package_max_length pr \<and>
     unmarked eof (take (st_length b) (st_str b)) \<and>
     (st_offset b = 0 \<or> 0 \<le> st_offset b \<and> st_offset b + int (length eof) \<le> int (st_length b)))"

definition eof_config :: "nat \<Rightarrow> sw_protocol \<Rightarrow> bool" where
  "eof_config pagesize pr \<longleftrightarrow> pr_split_by_eof pr \<and> pr_package_eof pr \<noteq> [] \<and> pr_package_max_length pr < 2 ^ 30 \<and>
     0 < pagesize \<and> pagesize < 2 ^ 30"

text \<open>Bytes received are packages handed on or in the buffer; none is lost, repeated or reordered.\<close>

definition eof_adv :: "sw_protocol \<Rightarrow> recv_state \<Rightarrow> recv_state \<Rightarrow> bool" where
  "eof_adv pr rs rs' \<longleftrightarrow> (\<exists>qs. rs_packages rs' = rs_packages rs @ qs \<and> (\<forall>p\<in>set qs. marked (pr_package_eof pr) p) \<and>
     concat qs @ take (st_length (rs_buffer rs')) (st_str (rs_buffer rs')) @ rs_input rs' =
     take (st_length (rs_buffer rs)) (st_str (rs_buffer rs)) @ rs_input rs)"

lemma eof_adv_refl: "eof_adv pr rs rs"
  by (auto simp: eof_adv_def)

lemma eof_adv_trans: "eof_adv pr rs1 rs2 \<Longrightarrow> eof_adv pr rs2 rs3 \<Longrightarrow> eof_adv pr rs1 rs3"
proof -
  assume "eof_adv pr rs1 rs2" "eof_adv pr rs2 rs3"
  then obtain qs qs' where "rs_packages rs2 = rs_packages rs1 @ qs" "\<forall>p\<in>set qs. marked (pr_package_eof pr) p"
    "concat qs @ take (st_length (rs_buffer rs2)) (st_str (rs_buffer rs2)) @ rs_input rs2 =
      take (st_length (rs_buffer rs1)) (st_str (rs_buffer rs1)) @ rs_input rs1"
    "rs_packages rs3 = rs_packages rs2 @ qs'" "\<forall>p\<in>set qs'. marked (pr_package_eof pr) p"
    "concat qs' @ take (st_length (rs_buffer rs3)) (st_str (rs_buffer rs3)) @ rs_input rs3 =
      take (st_length (rs_buffer rs2)) (st_str (rs_buffer rs2)) @ rs_input rs2" by (auto simp: eof_adv_def)
  then show ?thesis unfolding eof_adv_def by (intro exI [of _ "qs @ qs'"]) auto
qed

lemma align_grows: "0 < pg \<Longrightarrow> n < 2 ^ 30 \<Longrightarrow> pg < 2 ^ 30 \<Longrightarrow> n < swoole_size_align (n * 2) pg mod 2 ^ 32"
proof -
  assume a: "0 < pg" "n < 2 ^ 30" "pg < 2 ^ 30"
  have "n * 2 mod pg < pg" using a(1) by simp
  then have "n * 2 < swoole_size_align (n * 2) pg" "swoole_size_align (n * 2) pg \<le> n * 2 + pg"
    by (auto simp: swoole_size_align_def)
  moreover from this have "swoole_size_align (n * 2) pg mod 2 ^ 32 = swoole_size_align (n * 2) pg" using a by (intro mod_less) auto
  ultimately show ?thesis by linarith
qed

lemma eof_more_ok:
  assumes c: "eof_config pagesize pr" and i: "eof_inv pr rs" and al: "al \<noteq> None"
  shows "\<exists>x rs'. eof_more al pagesize pr True rs = Some (x, rs') \<and> eof_inv pr rs' \<and> eof_adv pr rs rs' \<and>
    (x = Inl SW_ERR \<or> x = Inr True)"
proof -
  let ?b = "rs_buffer rs"
  let ?n = "min (swoole_size_align (st_size ?b * 2) pagesize mod 2 ^ 32) (pr_package_max_length pr)"
  have b: "length (st_str ?b) = st_size ?b" "st_length ?b \<le> st_size ?b" "st_size ?b \<le> pr_package_max_length pr"
    using i by (auto simp: eof_inv_def Let_def)
  show ?thesis
  proof (cases "st_length ?b \<noteq> pr_package_max_length pr \<and> st_length ?b = st_size ?b")
    case True
    then have lt: "st_size ?b < pr_package_max_length pr" using b by simp
    moreover have "st_size ?b < ?n" using align_grows [of pagesize "st_size ?b"] c lt by (simp add: eof_config_def)
    ultimately obtain fill where "eof_more al pagesize pr True rs =
        Some (Inr True, rs\<lparr>rs_buffer := ?b\<lparr>st_str := realloc_bytes fill ?n (st_str ?b), st_size := ?n\<rparr>\<rparr>)"
      using True al by (auto simp: eof_more_def Let_def swString_extend_def SW_OK_def)
    moreover have "take (st_length ?b) (realloc_bytes fill ?n (st_str ?b)) = take (st_length ?b) (st_str ?b)"
      using b \<open>st_size ?b < ?n\<close> by (intro take_realloc_bytes) auto
    ultimately show ?thesis using i \<open>st_size ?b < ?n\<close>
      by (auto simp: eof_inv_def eof_adv_def Let_def length_realloc_bytes)
  next
    case False
    then show ?thesis using i b eof_adv_refl by (auto simp: eof_more_def Let_def)
  qed
qed

lemma cut_up_adv:
  assumes "cut_up (pr_package_eof pr) (take (st_length (rs_buffer rs)) (st_str (rs_buffer rs))) rs r rs'"
    "length (st_str (rs_buffer rs)) = st_size (rs_buffer rs)" "st_size (rs_buffer rs) \<le> pr_package_max_length pr"
  shows "eof_inv pr rs'" "eof_adv pr rs rs'"
  using assms by (auto simp: cut_up_def eof_inv_def eof_adv_def Let_def)

text \<open>One round: the new data \<open>d\<close> is searched together with what was there.\<close>

lemma eof_round_ok:
  assumes c: "eof_config pagesize pr" and i: "eof_inv pr rs" and al: "al \<noteq> None"
    and room: "st_length (rs_buffer rs) + length d \<le> st_size (rs_buffer rs)" and d: "length d \<le> SW_BUFFER_SIZE_BIG"
  shows "\<exists>x rs'. eof_round al pagesize pr again (got d input rs) = Some (x, rs') \<and> eof_inv pr rs' \<and>
    eof_adv pr (got d input rs) rs' \<and> (\<forall>a. x = Inr a \<longrightarrow> a)"
proof -
  let ?b = "rs_buffer rs" and ?rs = "got d input rs" and ?eof = "pr_package_eof pr"
  have b: "length (st_str ?b) = st_size ?b" "st_size ?b \<le> pr_package_max_length pr"
    "unmarked ?eof (take (st_length ?b) (st_str ?b))"
    "st_offset ?b = 0 \<or> 0 \<le> st_offset ?b \<and> st_offset ?b + int (length ?eof) \<le> int (st_length ?b)"
    using i by (auto simp: eof_inv_def Let_def)
  have cfg: "pr_split_by_eof pr" "?eof \<noteq> []" "pr_package_max_length pr < 2 ^ 30" using c by (auto simp: eof_config_def)
  have r': "st_length ?b + length d \<le> length (st_str ?b)" using room b(1) by simp
  have fields: "length (st_str (rs_buffer ?rs)) = st_size (rs_buffer ?rs)" "st_size (rs_buffer ?rs) \<le> pr_package_max_length pr"
    "take (st_length (rs_buffer ?rs)) (st_str (rs_buffer ?rs)) = take (st_length ?b) (st_str ?b) @ d"
    using got_str [OF r', of input] b(1,2) by simp_all
  show ?thesis
  proof (cases "st_length (rs_buffer ?rs) < length ?eof")
    case True
    have "eof_round al pagesize pr again ?rs = Some (Inl SW_OK, ?rs)" using True by (simp add: eof_round_def Let_def)
    moreover have "st_offset ?b = 0" using b(4) True by auto
    moreover have "unmarked ?eof (take (st_length ?b) (st_str ?b) @ d)" using True r' by (auto simp: unmarked_def occurs_def)
    ultimately show ?thesis using fields room eof_adv_refl by (simp add: eof_inv_def Let_def)
  next
    case False
    have "length (take (st_length ?b) (st_str ?b)) = st_length ?b" using r' by simp
    then obtain r rs' where sp: "swProtocol_split_package_by_eof pr ?rs = Some (r, rs')"
      "cut_up ?eof (take (st_length (rs_buffer ?rs)) (st_str (rs_buffer ?rs))) ?rs r rs'"
      using split_cut [of "rs_buffer ?rs" ?eof pr ?rs "take (st_length ?b) (st_str ?b)" d] fields room False cfg b d by auto
    note adv = cut_up_adv [OF sp(2) fields(1,2)]
    obtain x rs2 where more: "eof_more al pagesize pr True rs' = Some (x, rs2)" "eof_inv pr rs2" "eof_adv pr rs' rs2"
      "x = Inl SW_ERR \<or> x = Inr True" using eof_more_ok [OF c adv(1) al] by blast
    have "eof_round al pagesize pr again ?rs = (if r = 0 then Some (Inl SW_OK, rs') else eof_more al pagesize pr True rs')"
      using False cfg(1) sp(1) by (simp add: eof_round_def Let_def)
    then show ?thesis using adv more eof_adv_trans [OF adv(2) more(3)] by (cases "r = 0") auto
  qed
qed

lemma got_adv:
  assumes "d @ input = rs_input rs" "st_length (rs_buffer rs) + length d \<le> length (st_str (rs_buffer rs))"
  shows "eof_adv pr rs (got d input rs)"
  using assms got_str(2) [OF assms(2), of input] by (auto simp: eof_adv_def)

lemma recv_eof_loop_ok:
  assumes c: "eof_config pagesize pr" and al: "al \<noteq> None"
  shows "eof_inv pr rs \<Longrightarrow> \<forall>a\<in>set answers. snd a \<noteq> EFAULT \<Longrightarrow>
    \<exists>r rs'. recv_eof_loop (answers @ [(- 1, EAGAIN)]) al pagesize pr again rs = Some (r, rs') \<and> eof_inv pr rs' \<and> eof_adv pr rs rs'"
proof (induction answers arbitrary: rs again)
  case Nil
  then show ?case using eof_adv_refl by (simp add: swConnection_recv_def recv_failed_def)
next
  case (Cons ans answers)
  let ?b = "rs_buffer rs" and ?n = "min (st_size (rs_buffer rs) - st_length (rs_buffer rs)) (nat SW_BUFFER_SIZE)"
  obtain n d input where rc: "swConnection_recv ans ?n (rs_input rs) = (n, d, input)" by (metis prod_cases3)
  have b: "length (st_str ?b) = st_size ?b" "st_length ?b \<le> st_size ?b" using Cons.prems(1) by (auto simp: eof_inv_def Let_def)
  consider "n < 0" | "n = 0" | "0 < n" by linarith
  then show ?case
  proof cases
    case 1
    then show ?thesis using recv_failed_ok [of ans rs] Cons.prems eof_adv_refl by (auto simp: rc)
  next
    case 2
    then show ?thesis using Cons.prems(1) eof_adv_refl by (auto simp: rc)
  next
    case 3
    then have d: "d @ input = rs_input rs" "length d \<le> ?n" using recv_result [OF rc] by auto
    have big: "length d \<le> SW_BUFFER_SIZE_BIG" "st_length ?b + length d \<le> st_size ?b" "st_length ?b + length d \<le> length (st_str ?b)"
      using d(2) b by (auto simp: SW_BUFFER_SIZE_BIG_def SW_BUFFER_SIZE_def SW_IPC_MAX_SIZE_def)
    obtain x rs' where rd: "eof_round al pagesize pr again (got d input rs) = Some (x, rs')" "eof_inv pr rs'"
      "eof_adv pr (got d input rs) rs'" "\<forall>a. x = Inr a \<longrightarrow> a" using eof_round_ok [OF c Cons.prems(1) al big(2,1)] by blast
    have adv: "eof_adv pr rs rs'" using eof_adv_trans [OF got_adv [OF d(1) big(3)] rd(3)] .
    have run: "recv_eof_loop ((ans # answers) @ [(- 1, EAGAIN)]) al pagesize pr again rs =
        (case x of Inl r \<Rightarrow> Some (r, rs') | Inr a \<Rightarrow> recv_eof_loop (answers @ [(- 1, EAGAIN)]) al pagesize pr a rs')"
      using 3 rd(1) by (simp add: rc recv_into_got [OF big(3)])
    show ?thesis
    proof (cases x)
      case (Inl r)
      then show ?thesis using run rd(2) adv by simp
    next
      case (Inr a)
      obtain r rs2 where "recv_eof_loop (answers @ [(- 1, EAGAIN)]) al pagesize pr a rs' = Some (r, rs2)" "eof_inv pr rs2"
        "eof_adv pr rs' rs2" using Cons.IH [OF rd(2), of a] Cons.prems(2) by auto
      then show ?thesis using run Inr eof_adv_trans [OF adv] by auto
    qed
  qed
qed

text \<open>C35. Splitting by an end mark: in whatever pieces the data arrives, a call that ends with the socket being empty
  returns without an access outside the buffer or the array on the stack. Every package handed on ends with the
  mark and has it nowhere else, what stays in the buffer has no mark, and packages, buffer and unread input
  together are what was there before, in order.\<close>

theorem swProtocol_eof_packages:
  assumes "eof_config pagesize pr" "eof_inv pr rs" "al \<noteq> None" "\<forall>a\<in>set answers. snd a \<noteq> EFAULT"
  shows "\<exists>r rs' qs. swProtocol_recv_check_eof (answers @ [(- 1, EAGAIN)]) al pagesize pr rs = Some (r, rs') \<and> eof_inv pr rs' \<and>
    rs_packages rs' = rs_packages rs @ qs \<and> (\<forall>p\<in>set qs. marked (pr_package_eof pr) p) \<and>
    unmarked (pr_package_eof pr) (take (st_length (rs_buffer rs')) (st_str (rs_buffer rs'))) \<and>
    concat qs @ take (st_length (rs_buffer rs')) (st_str (rs_buffer rs')) @ rs_input rs' =
      take (st_length (rs_buffer rs)) (st_str (rs_buffer rs)) @ rs_input rs"
proof -
  obtain r rs' where "swProtocol_recv_check_eof (answers @ [(- 1, EAGAIN)]) al pagesize pr rs = Some (r, rs')"
    "eof_inv pr rs'" "eof_adv pr rs rs'"
    using recv_eof_loop_ok [OF assms(1,3,2,4), of False] by (auto simp: swProtocol_recv_check_eof_def)
  then show ?thesis unfolding eof_adv_def by (auto simp: eof_inv_def Let_def)
qed

theorem swProtocol_eof_packages_witness:
  "\<exists>r rs' qs. swProtocol_recv_check_eof ([(5, ENONE), (4, ENONE)] @ [(- 1, EAGAIN)]) (Some (\<lambda>_. 0)) 4096
      (ex_protocol\<lparr>pr_split_by_eof := True\<rparr>) (ex_recv [1, 2, 13, 10, 3, 4, 13, 10, 5]) = Some (r, rs') \<and>
     eof_inv (ex_protocol\<lparr>pr_split_by_eof := True\<rparr>) rs' \<and>
     rs_packages rs' = rs_packages (ex_recv [1, 2, 13, 10, 3, 4, 13, 10, 5]) @ qs \<and>
     (\<forall>p\<in>set qs. marked [13, 10] p) \<and> unmarked [13, 10] (take (st_length (rs_buffer rs')) (st_str (rs_buffer rs'))) \<and>
     concat qs @ take (st_length (rs_buffer rs')) (st_str (rs_buffer rs')) @ rs_input rs' = [1, 2, 13, 10, 3, 4, 13, 10, 5]"
proof -
  let ?pr = "ex_protocol\<lparr>pr_split_by_eof := True\<rparr>" and ?rs = "ex_recv [1, 2, 13, 10, 3, 4, 13, 10, 5]"
  have "eof_config 4096 ?pr" by (simp add: eof_config_def ex_protocol_def)
  moreover have "eof_inv ?pr ?rs" by (simp add: eof_inv_def ex_protocol_def ex_recv_def unmarked_def occurs_def)
  moreover have "pr_package_eof ?pr = [13, 10]" "st_length (rs_buffer ?rs) = 0" by (simp_all add: ex_protocol_def ex_recv_def)
  ultimately show ?thesis using swProtocol_eof_packages [of 4096 ?pr ?rs "Some (\<lambda>_. 0)" "[(5, ENONE), (4, ENONE)]"] by simp
qed

end
