(* ===== verification/Sw_WebSocket.thy ===== *)
theory Sw_WebSocket
  imports Sw_Protocol
begin

unbundle bit_operations_syntax

text \<open>
  WebSocket frames (\<open>src/protocol/WebSocket.c\<close>, \<open>include/websocket.h\<close>) and the handling of a received frame by
  a port (\<open>swPort_websocket_onPackage\<close> of \<open>src/network/Port.c\<close>). Encoding masks the data in place, decoding
  unmasks it in place; the answers of \<open>rand\<close> and of the allocator are arguments.
\<close>

section \<open>Frames\<close>

definition SW_WEBSOCKET_HEADER_LEN :: nat where "SW_WEBSOCKET_HEADER_LEN = 2"
definition SW_WEBSOCKET_MASK_LEN :: nat where "SW_WEBSOCKET_MASK_LEN = 4"

definition FRAME_SET_FIN :: "u32 \<Rightarrow> u32" where "FRAME_SET_FIN b = push_bit 7 (b AND 1)"
definition FRAME_SET_OPCODE :: "u8 \<Rightarrow> u32" where "FRAME_SET_OPCODE b = ucast b AND 15"
definition FRAME_SET_MASK :: "u32 \<Rightarrow> u32" where "FRAME_SET_MASK b = push_bit 7 (b AND 1)"
definition FRAME_SET_LENGTH :: "u64 \<Rightarrow> nat \<Rightarrow> u8" where "FRAME_SET_LENGTH x i = ucast (drop_bit (i * 8) x AND 255)"

definition frame_header :: "u64 \<Rightarrow> u8 \<Rightarrow> u32 \<Rightarrow> u32 \<Rightarrow> bytes" where
  "frame_header len opcode finish msk =
     ucast (FRAME_SET_FIN finish OR FRAME_SET_OPCODE opcode) #
     (if len < 126 then [ucast (FRAME_SET_MASK msk OR ucast (FRAME_SET_LENGTH len 0))]
      else
        (if len < 65536 then [ucast (FRAME_SET_MASK msk OR 126)]
         else [ucast (FRAME_SET_MASK msk OR 127), FRAME_SET_LENGTH len 7, FRAME_SET_LENGTH len 6, FRAME_SET_LENGTH len 5,
           FRAME_SET_LENGTH len 4, FRAME_SET_LENGTH len 3, FRAME_SET_LENGTH len 2]) @
        [FRAME_SET_LENGTH len 1, FRAME_SET_LENGTH len 0])"

definition xor_mask :: "bytes \<Rightarrow> bytes \<Rightarrow> bytes" where
  "xor_mask masks data = map (\<lambda>i. data ! i XOR masks ! (i mod SW_WEBSOCKET_MASK_LEN)) [0..<length data]"

text \<open>\<open>rnd\<close> are the four answers of \<open>rand\<close>. The result is the buffer and the data, which a mask changes.\<close>

definition swWebSocket_encode ::
  "alloc_answer \<Rightarrow> alloc_answer \<Rightarrow> nat \<Rightarrow> (nat \<Rightarrow> nat) \<Rightarrow> sw_string \<Rightarrow> bytes \<Rightarrow> u8 \<Rightarrow> u32 \<Rightarrow> u32 \<Rightarrow> (sw_string \<times> bytes) option" where
  "swWebSocket_encode al1 al2 pagesize rnd buffer data opcode finish msk =
     (let header = frame_header (of_nat (length data)) opcode finish msk;
          masks = map (\<lambda>i. of_nat (rnd i mod 26 + 97)) [0..<SW_WEBSOCKET_MASK_LEN];
          header = (if msk \<noteq> 0 then header @ masks else header);
          data = (if msk \<noteq> 0 then xor_mask masks data else data) in do {
        (_, buffer) \<leftarrow> swString_append_ptr al1 pagesize buffer header;
        (_, buffer) \<leftarrow> swString_append_ptr al2 pagesize buffer data;
        Some (buffer, data) })"

record ws_frame =
  fr_OPCODE :: u8
  fr_RSV3 :: bool
  fr_RSV2 :: bool
  fr_RSV1 :: bool
  fr_FIN :: bool
  fr_LENGTH :: nat
  fr_MASK :: bool
  fr_mask_key :: bytes
  fr_header_length :: nat
  fr_payload_length :: nat

definition load64 :: "bytes \<Rightarrow> u64 option" where
  "load64 d = do { lo \<leftarrow> load32 d; hi \<leftarrow> load32 (drop 4 d); Some (ucast lo OR push_bit 32 (ucast hi)) }"

text \<open>The fields of the first two bytes: on the machine considered the first bit field of a byte is its low end.
  The payload of the result is at \<open>fr_header_length\<close>; the memory is given back with the payload unmasked.\<close>

definition swWebSocket_decode :: "bytes \<Rightarrow> (ws_frame \<times> bytes) option" where
  "swWebSocket_decode str = do {
     b0 \<leftarrow> byte_at str 0;
     b1 \<leftarrow> byte_at str 1;
     let len7 = unat (b1 AND 127);
     (payload_length, header_length) \<leftarrow>
       (if len7 = 126 then do { x \<leftarrow> load16 (drop 2 str); Some (unat (ntohs x), 4) }
        else if len7 > 126 then do { x \<leftarrow> load64 (drop 2 str); Some (unat (swoole_ntoh64 x), 10) }
        else Some (len7, 2));
     let frame = \<lparr>fr_OPCODE = b0 AND 15, fr_RSV3 = bit b0 4, fr_RSV2 = bit b0 5, fr_RSV1 = bit b0 6, fr_FIN = bit b0 7,
       fr_LENGTH = len7, fr_MASK = bit b1 7, fr_mask_key = [], fr_header_length = header_length,
       fr_payload_length = payload_length\<rparr>;
     if bit b1 7 then do {
       mask_key \<leftarrow> slice_at str header_length SW_WEBSOCKET_MASK_LEN;
       let header_length = header_length + SW_WEBSOCKET_MASK_LEN;
       d \<leftarrow> slice_at str header_length payload_length;
       str \<leftarrow> put_at str header_length (xor_mask mask_key d);
       Some (frame\<lparr>fr_mask_key := mask_key, fr_header_length := header_length\<rparr>, str) }
     else Some (frame, str) }"

section \<open>The length of a frame\<close>

text \<open>The extended length and the mask are read from the socket straight behind the two bytes already there. The
  length of the buffer grows by the size of the field even when fewer bytes arrive. The sum is cut to 32 bits.\<close>

definition ws_recv :: "io_result \<Rightarrow> nat \<Rightarrow> nat \<Rightarrow> recv_state \<Rightarrow> (int \<times> recv_state) option" where
  "ws_recv ans n pos rs =
     (let (r, d, input) = swConnection_recv ans n (rs_input rs) in
      if r < 0 then Some (r, rs)
      else do {
        str \<leftarrow> put_at (st_str (rs_buffer rs)) pos d;
        Some (r, rs\<lparr>rs_input := input, rs_buffer := (rs_buffer rs)\<lparr>st_str := str, st_length := st_length (rs_buffer rs) + n\<rparr>\<rparr>) })"

definition swWebSocket_get_package_length :: "io_result \<Rightarrow> io_result \<Rightarrow> recv_state \<Rightarrow> (int \<times> recv_state) option" where
  "swWebSocket_get_package_length ans1 ans2 rs =
     (if st_length (rs_buffer rs) < SW_WEBSOCKET_HEADER_LEN then Some (0, rs)
      else do {
        b1 \<leftarrow> byte_at (st_str (rs_buffer rs)) 1;
        let len7 = unat (b1 AND 127);
        (r, rs) \<leftarrow> (if len7 = 126 then ws_recv ans1 2 2 rs else if len7 > 126 then ws_recv ans1 8 2 rs else Some (0, rs));
        if r < 0 then Some (SW_ERR, rs)
        else do {
          (payload_length, header_length) \<leftarrow>
            (if len7 = 126 then do { x \<leftarrow> load16 (drop 2 (st_str (rs_buffer rs))); Some (unat (ntohs x), 4) }
             else if len7 > 126 then do { x \<leftarrow> load64 (drop 2 (st_str (rs_buffer rs))); Some (unat (swoole_ntoh64 x), 10) }
             else Some (len7, 2));
          if bit b1 7 then do {
            (r, rs) \<leftarrow> ws_recv ans2 SW_WEBSOCKET_MASK_LEN header_length rs;
            if r < 0 then Some (SW_ERR, rs)
            else Some (sint (of_nat (header_length + SW_WEBSOCKET_MASK_LEN + payload_length) :: u32), rs) }
          else Some (sint (of_nat (header_length + payload_length) :: u32), rs) } })"

section \<open>A received frame\<close>

text \<open>What handling a frame does: data is dispatched, an answer is sent.\<close>

record ws_effect =
  ef_dispatch :: "bytes option"
  ef_send :: "bytes option"

text \<open>\<open>length - 2\<close> is a difference in 32 bits: a ping of less than two bytes would be answered with bytes far
  behind the data.\<close>

definition swPort_websocket_onPackage :: "bytes \<Rightarrow> nat \<Rightarrow> (int \<times> ws_effect) option" where
  "swPort_websocket_onPackage data len = do {
     (ws, data) \<leftarrow> swWebSocket_decode data;
     if fr_OPCODE ws = 0 \<or> fr_OPCODE ws = 1 \<or> fr_OPCODE ws = 2 then do {
       offset \<leftarrow> (if fr_payload_length ws + 2 \<le> len then Some (len - fr_payload_length ws - 2) else None);
       data \<leftarrow> put_at data offset [if fr_FIN ws then 1 else 0, fr_OPCODE ws];
       d \<leftarrow> slice_at data offset (len - offset);
       Some (SW_OK, \<lparr>ef_dispatch = Some d, ef_send = None\<rparr>) }
     else if fr_OPCODE ws = 9 then
       (if len = 2 \<or> len \<ge> 128 - 2 then Some (SW_ERR, \<lparr>ef_dispatch = None, ef_send = None\<rparr>)
        else do {
          d \<leftarrow> (if len < 2 then None else slice_at data 2 (len - 2));
          (send_frame, _) \<leftarrow> swWebSocket_encode None None 4096 (\<lambda>_. 0)
             \<lparr>st_length = 0, st_size = 128, st_offset = 0, st_str = replicate 128 0\<rparr> d 10 1 0;
          Some (SW_OK, \<lparr>ef_dispatch = None, ef_send = Some (take (st_length send_frame) (st_str send_frame))\<rparr>) })
     else if fr_OPCODE ws = 10 then Some (SW_ERR, \<lparr>ef_dispatch = None, ef_send = None\<rparr>)
     else if fr_OPCODE ws = 8 then
       (if 0x7d < (len + 2 ^ 32 - 2) mod 2 ^ 32 then Some (SW_ERR, \<lparr>ef_dispatch = None, ef_send = None\<rparr>)
        else Some (SW_ERR, \<lparr>ef_dispatch = None, ef_send = Some [0x88, 0]\<rparr>))
     else Some (SW_OK, \<lparr>ef_dispatch = None, ef_send = None\<rparr>) }"

section \<open>Header bytes\<close>

lemma and_masks: "x AND 15 = take_bit 4 x" "x AND 127 = take_bit 7 x" "x AND 255 = take_bit 8 x" for x :: "'a::len word"
  using take_bit_eq_mask [of 4 x] take_bit_eq_mask [of 7 x] take_bit_eq_mask [of 8 x] by (simp_all add: mask_eq_exp_minus_1)

lemma first_byte:
  fixes b :: u8
  assumes "b = ucast (FRAME_SET_FIN (of_bool fin) OR FRAME_SET_OPCODE opcode)" "opcode < 16"
  shows "b AND 15 = opcode" "bit b 7 = fin" "\<not> bit b 4" "\<not> bit b 5" "\<not> bit b 6"
proof -
  have op: "bit opcode n \<Longrightarrow> n < 4" for n using bit_small [of opcode 4] assms(2) by (simp add: word_less_nat_alt)
  have bits: "bit b n = (n = 7 \<and> fin \<or> bit opcode n)" if "n < 8" for n
    using that op [of n] assms(1) by (auto simp: FRAME_SET_FIN_def FRAME_SET_OPCODE_def and_masks bit_simps)
  show "b AND 15 = opcode"
    unfolding and_masks by (rule bit_word_eqI) (use bits op in \<open>auto simp: bit_simps\<close>)
  show "bit b 7 = fin" "\<not> bit b 4" "\<not> bit b 5" "\<not> bit b 6" using bits [of 7] bits [of 4] bits [of 5] bits [of 6] op
    by fastforce+
qed

lemma second_byte:
  fixes b :: u8
  assumes "b = ucast (FRAME_SET_MASK (of_bool m) OR ucast (l :: u8))" "l < 128"
  shows "b AND 127 = l" "bit b 7 = m"
proof -
  have lb: "bit l n \<Longrightarrow> n < 7" for n using bit_small [of l 7] assms(2) by (simp add: word_less_nat_alt)
  have bits: "bit b n = (n = 7 \<and> m \<or> bit l n)" if "n < 8" for n
    using that lb [of n] assms(1) by (auto simp: FRAME_SET_MASK_def bit_simps)
  show "b AND 127 = l" unfolding and_masks by (rule bit_word_eqI) (use bits lb in \<open>auto simp: bit_simps\<close>)
  show "bit b 7 = m" using bits [of 7] lb by fastforce
qed

lemma length16:
  assumes "unat n < 65536"
  shows "\<exists>x. load16 (FRAME_SET_LENGTH n 1 # FRAME_SET_LENGTH n 0 # r) = Some x \<and> unat (ntohs x) = unat n"
proof -
  let ?x = "ucast (FRAME_SET_LENGTH n 1) OR push_bit 8 (ucast (FRAME_SET_LENGTH n 0)) :: u16"
  have "ntohs ?x = ucast n"
    by (rule bit_word_eqI) (auto simp: ntohs_def FRAME_SET_LENGTH_def and_masks bit_simps)
  moreover have "unat (ucast n :: u16) = unat n" using assms by (simp add: unsigned_ucast_eq take_bit_eq_mod)
  ultimately show ?thesis by (simp add: load16_def)
qed

lemma ntohl_bit: "bit (ntohl x) n = (n < 32 \<and> bit x (8 * (3 - n div 8) + n mod 8))"
proof -
  have m: "(0xff00 :: u32) = push_bit 8 (mask 8)" by (simp add: mask_eq_exp_minus_1 push_bit_eq_mult)
  consider "n < 8" | "8 \<le> n" "n < 16" | "16 \<le> n" "n < 24" | "24 \<le> n" "n < 32" | "32 \<le> n" by linarith
  then show ?thesis
  proof cases
    case 1
    then have "8 * (3 - n div 8) + n mod 8 = n + 24" by simp
    then show ?thesis using 1 by (auto simp: ntohl_def m bit_simps)
  next
    case 2
    then have "n div 8 = 1" "n mod 8 = n - 8" by (simp_all add: div_nat_eqI mod_nat_eqI)
    then have "8 * (3 - n div 8) + n mod 8 = n + 8" using 2 by simp
    then show ?thesis using 2 by (auto simp: ntohl_def m bit_simps add.commute dest: bit_imp_le_length)
  next
    case 3
    then have "n div 8 = 2" "n mod 8 = n - 16" by (simp_all add: div_nat_eqI mod_nat_eqI)
    then have "8 * (3 - n div 8) + n mod 8 = n - 8" using 3 by simp
    then show ?thesis using 3 by (auto simp: ntohl_def m bit_simps dest: bit_imp_le_length)
  next
    case 4
    then have "n div 8 = 3" "n mod 8 = n - 24" by (simp_all add: div_nat_eqI mod_nat_eqI)
    then show ?thesis using 4 by (auto simp: ntohl_def m bit_simps dest: bit_imp_le_length)
  next
    case 5
    then show ?thesis by (auto simp: ntohl_def bit_simps dest: bit_imp_le_length)
  qed
qed

lemma load_byte: "bit (FRAME_SET_LENGTH n k) i = (i < 8 \<and> bit n (i + k * 8))"
  by (auto simp: FRAME_SET_LENGTH_def and_masks bit_simps add.commute dest: bit_imp_le_length)

lemma ntohl_word:
  assumes "k1 = k + 1" "k2 = k + 2" "k3 = k + 3"
  shows "ntohl (ucast (FRAME_SET_LENGTH n k3) OR push_bit 8 (ucast (FRAME_SET_LENGTH n k2)) OR
   push_bit 16 (ucast (FRAME_SET_LENGTH n k1)) OR push_bit 24 (ucast (FRAME_SET_LENGTH n k))) = ucast (drop_bit (8 * k) n)"
  (is "ntohl ?x = _")
proof (rule bit_word_eqI)
  fix i assume "i < LENGTH(32)"
  then have i: "i < 32" by simp
  consider "i < 8" | "8 \<le> i" "i < 16" | "16 \<le> i" "i < 24" | "24 \<le> i" using i by linarith
  then have "bit ?x (8 * (3 - i div 8) + i mod 8) = bit n (i + 8 * k)"
  proof cases
    case 1
    then have "8 * (3 - i div 8) + i mod 8 = i + 24" by simp
    then show ?thesis using 1 by (auto simp: bit_simps load_byte assms mult.commute)
  next
    case 2
    then have "i div 8 = 1" "i mod 8 = i - 8" by (simp_all add: div_nat_eqI mod_nat_eqI)
    then have "8 * (3 - i div 8) + i mod 8 = i + 8" using 2 by simp
    then show ?thesis using 2 by (auto simp: bit_simps load_byte assms algebra_simps)
  next
    case 3
    then have "i div 8 = 2" "i mod 8 = i - 16" by (simp_all add: div_nat_eqI mod_nat_eqI)
    then have "8 * (3 - i div 8) + i mod 8 = i - 8" using 3 by simp
    then show ?thesis using 3 by (auto simp: bit_simps load_byte assms algebra_simps)
  next
    case 4
    then have "i div 8 = 3" "i mod 8 = i - 24" using i by (simp_all add: div_nat_eqI mod_nat_eqI)
    then show ?thesis using 4 i by (auto simp: bit_simps load_byte assms algebra_simps)
  qed
  then show "bit (ntohl ?x) i = bit (ucast (drop_bit (8 * k) n) :: u32) i"
    using i by (simp add: ntohl_bit bit_simps add.commute)
qed

lemma length64:
  "\<exists>x. load64 (FRAME_SET_LENGTH n 7 # FRAME_SET_LENGTH n 6 # FRAME_SET_LENGTH n 5 # FRAME_SET_LENGTH n 4 #
     FRAME_SET_LENGTH n 3 # FRAME_SET_LENGTH n 2 # FRAME_SET_LENGTH n 1 # FRAME_SET_LENGTH n 0 # r) = Some x \<and> swoole_ntoh64 x = n"
proof -
  let ?hi = "ucast (FRAME_SET_LENGTH n 7) OR push_bit 8 (ucast (FRAME_SET_LENGTH n 6)) OR
    push_bit 16 (ucast (FRAME_SET_LENGTH n 5)) OR push_bit 24 (ucast (FRAME_SET_LENGTH n 4)) :: u32"
  let ?lo = "ucast (FRAME_SET_LENGTH n 3) OR push_bit 8 (ucast (FRAME_SET_LENGTH n 2)) OR
    push_bit 16 (ucast (FRAME_SET_LENGTH n 1)) OR push_bit 24 (ucast (FRAME_SET_LENGTH n 0)) :: u32"
  let ?x = "ucast ?hi OR push_bit 32 (ucast ?lo) :: u64"
  have "load64 (FRAME_SET_LENGTH n 7 # FRAME_SET_LENGTH n 6 # FRAME_SET_LENGTH n 5 # FRAME_SET_LENGTH n 4 #
     FRAME_SET_LENGTH n 3 # FRAME_SET_LENGTH n 2 # FRAME_SET_LENGTH n 1 # FRAME_SET_LENGTH n 0 # r) = Some ?x"
    by (simp add: load64_def load32_def)
  moreover have "swoole_ntoh64 ?x = n"
  proof -
    have m: "(0xFFFFFFFF :: u64) = mask 32" by (simp add: mask_eq_exp_minus_1)
    have "(ucast (?x AND 0xFFFFFFFF) :: u32) = ?hi" unfolding m by (rule bit_word_eqI) (auto simp: bit_simps)
    moreover have "(ucast (drop_bit 32 ?x AND 0xFFFFFFFF) :: u32) = ?lo" unfolding m by (rule bit_word_eqI) (auto simp: bit_simps)
    moreover have "ntohl ?hi = ucast (drop_bit 32 n)" using ntohl_word [of 5 4 6 7 n] by simp
    moreover have "ntohl ?lo = ucast n" using ntohl_word [of 1 0 2 3 n] by simp
    ultimately have "swoole_ntoh64 ?x = push_bit 32 (ucast (ucast (drop_bit 32 n) :: u32)) OR ucast (ucast n :: u32)"
      by (simp add: swoole_ntoh64_def Let_def)
    also have "\<dots> = n" by (rule bit_word_eqI) (auto simp: bit_simps)
    finally show ?thesis .
  qed
  ultimately show ?thesis by blast
qed

section \<open>Frames round trip\<close>

lemma length_xor_mask [simp]: "length (xor_mask k d) = length d"
  by (simp add: xor_mask_def)

lemma xor_mask_twice [simp]: "xor_mask k (xor_mask k d) = d"
  by (rule nth_equalityI) (auto simp: xor_mask_def xor.assoc)

text \<open>The wire format of a frame; \<open>key\<close> is empty when the data is not masked.\<close>

definition ws_wire :: "bool \<Rightarrow> u8 \<Rightarrow> bytes option \<Rightarrow> bytes \<Rightarrow> bytes" where
  "ws_wire fin opcode key data = frame_header (of_nat (length data)) opcode (of_bool fin) (of_bool (key \<noteq> None)) @
     (case key of None \<Rightarrow> data | Some k \<Rightarrow> k @ xor_mask k data)"

text \<open>What the decoder reads from the fixed part of the header: the length and where it ends.\<close>

definition ws_size :: "bytes \<Rightarrow> (nat \<times> nat) option" where
  "ws_size str = do {
     b1 \<leftarrow> byte_at str 1;
     let len7 = unat (b1 AND 127);
     (if len7 = 126 then do { x \<leftarrow> load16 (drop 2 str); Some (unat (ntohs x), 4) }
      else if len7 > 126 then do { x \<leftarrow> load64 (drop 2 str); Some (unat (swoole_ntoh64 x), 10) }
      else Some (len7, 2)) }"

lemma header_size:
  assumes "n < 2 ^ 64" and h: "h = frame_header (of_nat n) opcode (of_bool fin) (of_bool m)"
  shows "ws_size (h @ r) = Some (n, length h)" "2 \<le> length h" "bit (h ! 1) 7 = m"
    "h ! 0 = ucast (FRAME_SET_FIN (of_bool fin) OR FRAME_SET_OPCODE opcode)"
proof -
  have un: "unat (of_nat n :: u64) = n" using assms(1) by (simp add: unat_of_nat)
  consider "n < 126" | "126 \<le> n" "n < 65536" | "65536 \<le> n" by linarith
  then have "ws_size (h @ r) = Some (n, length h) \<and> bit (h ! 1) 7 = m"
  proof cases
    case 1
    let ?l = "FRAME_SET_LENGTH (of_nat n) 0"
    have "?l = of_nat n" by (rule bit_word_eqI) (auto simp: FRAME_SET_LENGTH_def and_masks bit_simps)
    then have l: "?l < 128" "unat ?l = n" using 1 by (simp_all add: word_less_nat_alt unat_of_nat)
    have "(of_nat n :: u64) < 126" using 1 un by (simp add: word_less_nat_alt)
    then show ?thesis using 1 second_byte [OF refl l(1), of m] l(2) by (simp add: h frame_header_def ws_size_def Let_def)
  next
    case 2
    have cmp: "\<not> (of_nat n :: u64) < 126" "(of_nat n :: u64) < 65536" using 2 un by (simp_all add: word_less_nat_alt)
    obtain x where x: "load16 (FRAME_SET_LENGTH (of_nat n) 1 # FRAME_SET_LENGTH (of_nat n) 0 # r) = Some x" "unat (ntohs x) = n"
      using length16 [of "of_nat n" r] 2 un by auto
    show ?thesis using cmp x second_byte [of "ucast (FRAME_SET_MASK (of_bool m) OR 126)" m 126]
      by (simp add: h frame_header_def ws_size_def Let_def)
  next
    case 3
    have cmp: "\<not> (of_nat n :: u64) < 126" "\<not> (of_nat n :: u64) < 65536" using 3 un by (simp_all add: word_less_nat_alt)
    obtain x where x: "load64 (FRAME_SET_LENGTH (of_nat n) 7 # FRAME_SET_LENGTH (of_nat n) 6 # FRAME_SET_LENGTH (of_nat n) 5 #
        FRAME_SET_LENGTH (of_nat n) 4 # FRAME_SET_LENGTH (of_nat n) 3 # FRAME_SET_LENGTH (of_nat n) 2 #
        FRAME_SET_LENGTH (of_nat n) 1 # FRAME_SET_LENGTH (of_nat n) 0 # r) = Some x" "unat (swoole_ntoh64 x) = n"
      using length64 [of "of_nat n" r] un by auto
    show ?thesis using cmp x second_byte [of "ucast (FRAME_SET_MASK (of_bool m) OR 127)" m 127]
      by (simp add: h frame_header_def ws_size_def Let_def)
  qed
  then show "ws_size (h @ r) = Some (n, length h)" "bit (h ! 1) 7 = m" by auto
  show "2 \<le> length h" "h ! 0 = ucast (FRAME_SET_FIN (of_bool fin) OR FRAME_SET_OPCODE opcode)"
    by (simp_all add: h frame_header_def)
qed

lemma decode_unfold:
  "swWebSocket_decode str = do {
     b0 \<leftarrow> byte_at str 0;
     b1 \<leftarrow> byte_at str 1;
     (payload_length, header_length) \<leftarrow> ws_size str;
     let frame = \<lparr>fr_OPCODE = b0 AND 15, fr_RSV3 = bit b0 4, fr_RSV2 = bit b0 5, fr_RSV1 = bit b0 6, fr_FIN = bit b0 7,
       fr_LENGTH = unat (b1 AND 127), fr_MASK = bit b1 7, fr_mask_key = [], fr_header_length = header_length,
       fr_payload_length = payload_length\<rparr>;
     if bit b1 7 then do {
       mask_key \<leftarrow> slice_at str header_length SW_WEBSOCKET_MASK_LEN;
       let header_length = header_length + SW_WEBSOCKET_MASK_LEN;
       d \<leftarrow> slice_at str header_length payload_length;
       str \<leftarrow> put_at str header_length (xor_mask mask_key d);
       Some (frame\<lparr>fr_mask_key := mask_key, fr_header_length := header_length\<rparr>, str) }
     else Some (frame, str) }"
  by (cases "byte_at str 0"; cases "byte_at str 1") (simp_all add: swWebSocket_decode_def ws_size_def Let_def)

text \<open>Decoding a frame gives back what was encoded, and the data unmasked behind the header.\<close>

lemma decode_wire:
  assumes "opcode < 16" "length data < 2 ^ 64" "\<And>k. key = Some k \<Longrightarrow> length k = SW_WEBSOCKET_MASK_LEN"
  shows "\<exists>fr h. swWebSocket_decode (ws_wire fin opcode key data) = Some (fr, h @ data) \<and> fr_OPCODE fr = opcode \<and> fr_FIN fr = fin \<and>
    fr_MASK fr = (key \<noteq> None) \<and> fr_mask_key fr = (case key of None \<Rightarrow> [] | Some k \<Rightarrow> k) \<and>
    fr_payload_length fr = length data \<and> fr_header_length fr = length h \<and> 2 \<le> length h \<and>
    length (ws_wire fin opcode key data) = length h + length data \<and>
    h = frame_header (of_nat (length data)) opcode (of_bool fin) (of_bool (key \<noteq> None)) @ (case key of None \<Rightarrow> [] | Some k \<Rightarrow> k)"
proof -
  define h where "h = frame_header (of_nat (length data)) opcode (of_bool fin) (of_bool (key \<noteq> None))"
  note hs = header_size [OF assms(2) h_def]
  note fb = first_byte [OF hs(4) assms(1)]
  have bytes: "byte_at (h @ r) 0 = Some (h ! 0)" "byte_at (h @ r) 1 = Some (h ! 1)" for r
    using hs(2) by (auto simp: byte_at_def nth_append)
  show ?thesis
  proof (cases key)
    case None
    have "ws_wire fin opcode key data = h @ data" using None by (simp add: ws_wire_def h_def)
    then show ?thesis using None hs(1-3) fb bytes by (simp add: decode_unfold Let_def) (simp add: h_def)
  next
    case (Some k)
    then have k: "length k = 4" using assms(3) by (simp add: SW_WEBSOCKET_MASK_LEN_def)
    have w: "ws_wire fin opcode key data = h @ k @ xor_mask k data" using Some by (simp add: ws_wire_def h_def)
    have "put_at (h @ k @ xor_mask k data) (length h + 4) data = Some ((h @ k) @ data)"
      using k by (simp add: put_at_def)
    then have "swWebSocket_decode (h @ k @ xor_mask k data) = Some (\<lparr>fr_OPCODE = opcode, fr_RSV3 = False, fr_RSV2 = False,
        fr_RSV1 = False, fr_FIN = fin, fr_LENGTH = unat (h ! 1 AND 127), fr_MASK = True, fr_mask_key = k,
        fr_header_length = length h + 4, fr_payload_length = length data\<rparr>, (h @ k) @ data)"
      using Some hs(1-3) fb bytes k by (simp add: decode_unfold Let_def slice_at_def SW_WEBSOCKET_MASK_LEN_def)
    then show ?thesis unfolding w using Some hs(2) k
      by (intro exI [of _ "\<lparr>fr_OPCODE = opcode, fr_RSV3 = False, fr_RSV2 = False, fr_RSV1 = False, fr_FIN = fin,
        fr_LENGTH = unat (h ! 1 AND 127), fr_MASK = True, fr_mask_key = k, fr_header_length = length h + 4,
        fr_payload_length = length data\<rparr>"] exI [of _ "h @ k"]) (simp add: h_def)
  qed
qed

definition ws_key :: "(nat \<Rightarrow> nat) \<Rightarrow> bool \<Rightarrow> bytes option" where
  "ws_key rnd m = (if m then Some (map (\<lambda>i. of_nat (rnd i mod 26 + 97)) [0..<SW_WEBSOCKET_MASK_LEN]) else None)"

lemma encode_wire:
  assumes "st_inv s" "st_length s + length data + 14 < 2 ^ 30" "0 < p" "p < 2 ^ 32"
    and key: "key = ws_key rnd m"
  shows "\<exists>s' d. swWebSocket_encode (Some f1) (Some f2) p rnd s data opcode (of_bool fin) (of_bool m) = Some (s', d) \<and>
    st_inv s' \<and> st_contents s' = st_contents s @ ws_wire fin opcode key data"
proof -
  define h where "h = frame_header (of_nat (length data)) opcode (of_bool fin) (of_bool m) @ (case key of None \<Rightarrow> [] | Some k \<Rightarrow> k)"
  define d where "d = (case key of None \<Rightarrow> data | Some k \<Rightarrow> xor_mask k data)"
  have hl: "length h \<le> 14" by (auto simp: h_def key ws_key_def frame_header_def SW_WEBSOCKET_MASK_LEN_def)
  have dl: "length d = length data" by (simp add: d_def key ws_key_def)
  obtain s1 where s1: "swString_append_ptr (Some f1) p s h = Some (SW_OK, s1)" "st_inv s1" "st_contents s1 = st_contents s @ h"
    using append_ptr_grows [OF assms(1) _ assms(3,4), of h f1] assms(2) hl by auto
  have "st_length s1 = st_length s + length h"
    using arg_cong [OF s1(3), of length] s1(2) assms(1) by (simp add: st_contents_def st_inv_def)
  then obtain s2 where s2: "swString_append_ptr (Some f2) p s1 d = Some (SW_OK, s2)" "st_inv s2" "st_contents s2 = st_contents s1 @ d"
    using append_ptr_grows [OF s1(2) _ assms(3,4), of d f2] assms(2) hl dl by auto
  have "swWebSocket_encode (Some f1) (Some f2) p rnd s data opcode (of_bool fin) (of_bool m) = Some (s2, d)"
    using s1(1) s2(1) by (cases m) (simp_all add: swWebSocket_encode_def Let_def h_def d_def key ws_key_def)
  moreover have "h @ d = ws_wire fin opcode key data" by (cases m) (simp_all add: h_def d_def key ws_key_def ws_wire_def)
  ultimately show ?thesis using s1(3) s2(2,3) by auto
qed

text \<open>C36. A frame of text, binary or continuation data that has been encoded, masked or not, of any length up to about
  a gigabyte, is dispatched by the receiving port as the final-fragment flag, the opcode and exactly the data.\<close>

theorem swWebSocket_frame_roundtrip:
  assumes "st_inv s" "st_length s = 0" "length data + 14 < 2 ^ 30" "0 < p" "p < 2 ^ 32" "opcode \<in> {0, 1, 2}"
  shows "\<exists>s' d. swWebSocket_encode (Some f1) (Some f2) p rnd s data opcode (of_bool fin) (of_bool m) = Some (s', d) \<and>
    swPort_websocket_onPackage (st_contents s') (st_length s') =
      Some (SW_OK, \<lparr>ef_dispatch = Some ((if fin then 1 else 0) # opcode # data), ef_send = None\<rparr>)"
proof -
  let ?key = "ws_key rnd m"
  obtain s' d where e: "swWebSocket_encode (Some f1) (Some f2) p rnd s data opcode (of_bool fin) (of_bool m) = Some (s', d)"
    "st_inv s'" "st_contents s' = st_contents s @ ws_wire fin opcode ?key data"
    using encode_wire [OF assms(1) _ assms(4,5) refl, of data] assms(2,3) by fastforce
  have w: "st_contents s' = ws_wire fin opcode ?key data" using e(3) assms(2) by (simp add: st_contents_def)
  have "opcode < 16" "length data < 2 ^ 64" "\<And>k. ?key = Some k \<Longrightarrow> length k = SW_WEBSOCKET_MASK_LEN"
    using assms(3,6) by (auto simp: ws_key_def split: if_splits)
  from decode_wire [OF this, where fin = fin] obtain fr h where fr: "swWebSocket_decode (ws_wire fin opcode ?key data) = Some (fr, h @ data)"
    "fr_OPCODE fr = opcode" "fr_FIN fr = fin" "fr_payload_length fr = length data" "2 \<le> length h"
    "length (ws_wire fin opcode ?key data) = length h + length data" by blast
  have len: "st_length s' = length h + length data"
    using arg_cong [OF w, of length] e(2) fr(6) by (simp add: st_contents_def st_inv_def)
  have "put_at (h @ data) (length h - 2) [if fin then 1 else 0, opcode] =
      Some (take (length h - 2) h @ [if fin then 1 else 0, opcode] @ data)" using fr(5) by (simp add: put_at_def)
  then have "swPort_websocket_onPackage (st_contents s') (st_length s') =
      Some (SW_OK, \<lparr>ef_dispatch = Some ((if fin then 1 else 0) # opcode # data), ef_send = None\<rparr>)"
    using w fr(1-5) assms(6) len by (simp add: swPort_websocket_onPackage_def)
  then show ?thesis using e(1) by blast
qed

theorem swWebSocket_frame_roundtrip_witness:
  "\<exists>s' d. swWebSocket_encode (Some (\<lambda>_. 0)) (Some (\<lambda>_. 0)) 4096 (\<lambda>i. i) \<lparr>st_length = 0, st_size = 0, st_offset = 0, st_str = []\<rparr>
      [104, 105] 1 1 1 = Some (s', d) \<and>
     swPort_websocket_onPackage (st_contents s') (st_length s') =
       Some (SW_OK, \<lparr>ef_dispatch = Some [1, 1, 104, 105], ef_send = None\<rparr>)"
  using swWebSocket_frame_roundtrip [of "\<lparr>st_length = 0, st_size = 0, st_offset = 0, st_str = []\<rparr>" "[104, 105]" 4096 1
      "\<lambda>_. 0" "\<lambda>_. 0" "\<lambda>i. i" True True] by (simp add: st_inv_def)

section \<open>The length of a frame on the wire\<close>

lemma ws_recv_all:
  assumes "int n \<le> fst ans" "n \<le> length (rs_input rs)" "pos + n \<le> length (st_str (rs_buffer rs))"
  shows "ws_recv ans n pos rs = Some (int n, rs\<lparr>rs_input := drop n (rs_input rs), rs_buffer := (rs_buffer rs)\<lparr>st_str :=
    take pos (st_str (rs_buffer rs)) @ take n (rs_input rs) @ drop (pos + n) (st_str (rs_buffer rs)),
    st_length := st_length (rs_buffer rs) + n\<rparr>\<rparr>)"
  using assms by (simp add: ws_recv_def swConnection_recv_def put_at_def min_def)

text \<open>When the fields of the header arrive whole, the length computed is that of the frame.\<close>

lemma get_package_length_wire:
  assumes key: "\<And>k. key = Some k \<Longrightarrow> length k = SW_WEBSOCKET_MASK_LEN" and w: "wire = ws_wire fin opcode key data"
    and len: "length wire < 2 ^ 31" and ans: "8 \<le> fst ans1" "4 \<le> fst ans2"
    and rs: "st_length (rs_buffer rs) = 2" "14 \<le> length (st_str (rs_buffer rs))" "take 2 (st_str (rs_buffer rs)) @ rs_input rs = wire"
  shows "\<exists>rs'. swWebSocket_get_package_length ans1 ans2 rs = Some (int (length wire), rs')"
proof -
  define h where "h = frame_header (of_nat (length data)) opcode (of_bool fin) (of_bool (key \<noteq> None))"
  define body where "body = (case key of None \<Rightarrow> data | Some k \<Rightarrow> k @ xor_mask k data)"
  have wire: "wire = h @ body" by (simp add: w ws_wire_def h_def body_def)
  have "length data \<le> length body" by (simp add: body_def split: option.splits)
  then have "length data < 2 ^ 64" using len wire by simp
  note hs = header_size [OF this h_def]
  have h10: "length h \<le> 10" by (simp add: h_def frame_header_def)
  let ?s = "st_str (rs_buffer rs)"
  have t2: "take 2 ?s = take 2 h" using arg_cong [OF rs(3), of "take 2"] rs(2) hs(2) wire by simp
  have inp: "rs_input rs = drop 2 h @ body" using arg_cong [OF rs(3), of "drop 2"] rs(2) hs(2) wire by simp
  have "take 2 ?s ! 1 = take 2 h ! 1" using t2 by simp
  then have b1: "byte_at ?s 1 = Some (h ! 1)" using rs(2) by simp
  have bh: "byte_at (h @ r) 1 = Some (h ! 1)" for r using hs(2) by (simp add: byte_at_def nth_append)
  define L where "L = unat (h ! 1 AND 127)"
  define rs1 where "rs1 = rs\<lparr>rs_input := body, rs_buffer := (rs_buffer rs)\<lparr>st_str := h @ drop (length h) ?s, st_length := length h\<rparr>\<rparr>"
  have size: "(if L = 126 then do { x \<leftarrow> load16 (drop 2 (st_str (rs_buffer rs1))); Some (unat (ntohs x), 4) }
      else if L > 126 then do { x \<leftarrow> load64 (drop 2 (st_str (rs_buffer rs1))); Some (unat (swoole_ntoh64 x), 10) }
      else Some (L, 2)) = Some (length data, length h)"
    using hs(1) [of "drop (length h) ?s"] bh by (simp add: ws_size_def Let_def L_def rs1_def del: drop_append split: if_splits)
  then have lh: "length h = (if L = 126 then 4 else if L > 126 then 10 else 2)" by (auto simp: bind_eq_Some_conv split: if_splits)
  have step: "\<exists>r\<ge>0. (if L = 126 then ws_recv ans1 2 2 rs else if L > 126 then ws_recv ans1 8 2 rs else Some (0, rs)) = Some (r, rs1)"
  proof (cases "length h = 2")
    case True
    have "take 2 ?s = h" using t2 True by simp
    then have "h @ drop 2 ?s = ?s" using append_take_drop_id [of 2 ?s] by simp
    then have "rs1 = rs" using inp rs(1) True by (simp add: rs1_def)
    then show ?thesis using True lh by (auto split: if_splits)
  next
    case False
    obtain e where he: "length h = 2 + e" using hs(2) le_Suc_ex by blast
    have hh: "take 2 h @ drop 2 h @ r = h @ r" for r by (metis append_assoc append_take_drop_id)
    have "ws_recv ans1 e 2 rs = Some (int e, rs1)"
      using ws_recv_all [of e ans1 rs 2] ans(1) rs(1,2) inp t2 h10 he hh by (simp add: rs1_def)
    then have "ws_recv ans1 (length h - 2) 2 rs = Some (int e, rs1)" by (simp add: he)
    then show ?thesis using False lh by (auto split: if_splits)
  qed
  then obtain r where r: "0 \<le> r" "(if L = 126 then ws_recv ans1 2 2 rs else if L > 126 then ws_recv ans1 8 2 rs else Some (0, rs)) = Some (r, rs1)"
    by blast
  have sum: "sint (of_nat (length wire) :: u32) = int (length wire)" using len by (simp add: signed_of_nat signed_take_bit_int_eq_self)
  have run: "swWebSocket_get_package_length ans1 ans2 rs =
     (if bit (h ! 1) 7 then do {
        (r, rs) \<leftarrow> ws_recv ans2 SW_WEBSOCKET_MASK_LEN (length h) rs1;
        if r < 0 then Some (SW_ERR, rs)
        else Some (sint (of_nat (length h + SW_WEBSOCKET_MASK_LEN + length data) :: u32), rs) }
      else Some (sint (of_nat (length h + length data) :: u32), rs1))"
    using rs(1) r(1)
    by (simp only: swWebSocket_get_package_length_def b1 Option.bind.bind_lunit Let_def L_def [symmetric] r(2) size prod.case
        SW_WEBSOCKET_HEADER_LEN_def less_irrefl if_False not_less [symmetric])
  show ?thesis
  proof (cases key)
    case None
    then show ?thesis using run hs(3) wire sum by (simp add: body_def)
  next
    case (Some k)
    then have k: "length k = 4" using key by (simp add: SW_WEBSOCKET_MASK_LEN_def)
    obtain rs2 where "ws_recv ans2 4 (length h) rs1 = Some (4, rs2)"
      using ws_recv_all [of 4 ans2 rs1 "length h"] ans(2) h10 rs(2) k Some by (simp add: rs1_def body_def)
    moreover have "length wire = length h + 4 + length data" using wire k Some by (simp add: body_def)
    ultimately show ?thesis using Some run hs(3) sum by (simp add: SW_WEBSOCKET_MASK_LEN_def del: of_nat_add)
  qed
qed

section \<open>Answering a ping\<close>

lemma append_ptr_fits:
  assumes "st_inv s" "st_length s + length d \<le> st_size s" "st_size s < 2 ^ 30" "0 < p" "p < 2 ^ 32"
  shows "\<exists>s'. swString_append_ptr al p s d = Some (SW_OK, s') \<and> st_inv s' \<and> st_contents s' = st_contents s @ d \<and>
    st_size s' = st_size s \<and> st_length s' = st_length s + length d"
proof -
  obtain buf where "put_at (st_str s) (st_length s) d = Some buf" "st_inv (s\<lparr>st_str := buf, st_length := st_length s + length d\<rparr>)"
    "st_contents (s\<lparr>st_str := buf, st_length := st_length s + length d\<rparr>) = st_contents s @ d"
    using st_put_contents [OF assms(1,2)] by auto
  moreover have "swString_reserve al p s (length d) = Some (SW_OK, s)" using assms by (simp add: swString_reserve_cases)
  ultimately show ?thesis by (simp add: swString_append_ptr_def SW_OK_def)
qed

text \<open>C37. The answer to a ping: a pong carrying everything behind the first two bytes of the frame. For a ping without
  a mask that is its data; for a masked one, which is what a client sends, the key comes before the data.\<close>

theorem swPort_websocket_pong:
  assumes "\<And>k. key = Some k \<Longrightarrow> length k = SW_WEBSOCKET_MASK_LEN" "length (ws_wire True 9 key data) < 126" "key = None \<Longrightarrow> data \<noteq> []"
  shows "swPort_websocket_onPackage (ws_wire True 9 key data) (length (ws_wire True 9 key data)) =
    Some (SW_OK, \<lparr>ef_dispatch = None, ef_send = Some (ws_wire True 10 None ((case key of None \<Rightarrow> [] | Some k \<Rightarrow> k) @ data))\<rparr>)"
proof -
  let ?w = "ws_wire True 9 key data" and ?d = "(case key of None \<Rightarrow> [] | Some k \<Rightarrow> k) @ data"
  have "length data < 126" using assms(2) by (auto simp: ws_wire_def split: option.splits)
  then have "(of_nat (length data) :: u64) < 126" by (simp add: word_less_nat_alt unat_of_nat)
  then obtain b0 b1 where h: "frame_header (of_nat (length data)) 9 (of_bool True) (of_bool (key \<noteq> None)) = [b0, b1]"
    by (simp add: frame_header_def)
  have len: "length ?w = 2 + length ?d" using h by (auto simp: ws_wire_def split: option.splits)
  obtain fr where fr: "swWebSocket_decode ?w = Some (fr, [b0, b1] @ ?d)" "fr_OPCODE fr = 9"
    using decode_wire [of 9 data key True] assms(1) \<open>length data < 126\<close> h by auto
  have dl: "length ?d < 124" "?d \<noteq> []"
    using assms(2,3) len SW_WEBSOCKET_MASK_LEN_def assms(1) by (auto split: option.splits)
  let ?s = "\<lparr>st_length = 0, st_size = 128, st_offset = 0, st_str = replicate 128 0\<rparr> :: sw_string"
  let ?h = "frame_header (of_nat (length ?d)) 10 1 0"
  have "n < 124 \<Longrightarrow> (of_nat n :: u64) < 126" for n by (simp add: word_less_nat_alt unat_of_nat)
  from this [OF dl(1)] have hl: "length ?h = 2" by (simp add: frame_header_def)
  obtain s1 where s1: "swString_append_ptr None 4096 ?s ?h = Some (SW_OK, s1)" "st_inv s1" "st_contents s1 = ?h"
    "st_size s1 = 128" "st_length s1 = 2"
    using append_ptr_fits [of ?s ?h 4096 None] hl by (auto simp: st_inv_def st_contents_def)
  obtain s2 where s2: "swString_append_ptr None 4096 s1 ?d = Some (SW_OK, s2)" "st_inv s2" "st_contents s2 = ?h @ ?d"
    using append_ptr_fits [of s1 ?d 4096 None] s1 dl(1) by auto
  have "swWebSocket_encode None None 4096 (\<lambda>_. 0) ?s ?d 10 1 0 = Some (s2, ?d)"
    using s1(1) s2(1) by (simp add: swWebSocket_encode_def Let_def)
  moreover have "take (st_length s2) (st_str s2) = ws_wire True 10 None ?d" using s2(3) by (simp add: st_contents_def ws_wire_def)
  moreover have "slice_at ([b0, b1] @ ?d) 2 (length ?d) = Some ?d" by (simp add: slice_at_def)
  ultimately show ?thesis using fr len dl by (simp add: swPort_websocket_onPackage_def)
qed

theorem swPort_websocket_pong_witness:
  "swPort_websocket_onPackage (ws_wire True 9 (Some [1, 2, 3, 4]) [104, 105]) 8 =
     Some (SW_OK, \<lparr>ef_dispatch = None, ef_send = Some (ws_wire True 10 None [1, 2, 3, 4, 104, 105])\<rparr>)"
proof -
  have "length (ws_wire True 9 (Some [1, 2, 3, 4]) [104, 105]) = 8" by (simp add: ws_wire_def frame_header_def)
  then show ?thesis using swPort_websocket_pong [of "Some [1, 2, 3, 4]" "[104, 105]"] by (simp add: SW_WEBSOCKET_MASK_LEN_def)
qed

end
