(* ===== verification/Sw_Http2.thy ===== *)
theory Sw_Http2
  imports Sw_Protocol
begin

unbundle bit_operations_syntax

text \<open>
  HTTP/2 frames (\<open>src/protocol/Http2.c\<close>, \<open>include/http2.h\<close>) and the length of MQTT packages
  (\<open>src/protocol/Mqtt.c\<close>): two more ways to find out how long a package is.
\<close>

section \<open>HTTP/2\<close>

definition SW_HTTP2_FRAME_HEADER_SIZE :: nat where "SW_HTTP2_FRAME_HEADER_SIZE = 9"
definition SW_HTTP2_SETTING_OPTION_SIZE :: nat where "SW_HTTP2_SETTING_OPTION_SIZE = 6"
definition SW_HTTP2_TYPE_SETTINGS :: u8 where "SW_HTTP2_TYPE_SETTINGS = 4"
definition SW_HTTP2_SETTINGS_MAX_CONCURRENT_STREAMS :: u16 where "SW_HTTP2_SETTINGS_MAX_CONCURRENT_STREAMS = 3"
definition SW_HTTP2_SETTINGS_INIT_WINDOW_SIZE :: u16 where "SW_HTTP2_SETTINGS_INIT_WINDOW_SIZE = 4"
definition SW_HTTP2_SETTINGS_MAX_FRAME_SIZE :: u16 where "SW_HTTP2_SETTINGS_MAX_FRAME_SIZE = 5"
definition SW_HTTP2_MAX_CONCURRENT_STREAMS :: u32 where "SW_HTTP2_MAX_CONCURRENT_STREAMS = 128"
definition SW_HTTP2_MAX_FRAME_SIZE :: u32 where "SW_HTTP2_MAX_FRAME_SIZE = push_bit 24 1 - 1"
definition SW_HTTP2_MAX_WINDOW :: u32 where "SW_HTTP2_MAX_WINDOW = push_bit 31 1 - 1"

definition swHttp2_get_length :: "bytes \<Rightarrow> u32 option" where
  "swHttp2_get_length buf = do {
     a \<leftarrow> byte_at buf 0; b \<leftarrow> byte_at buf 1; c \<leftarrow> byte_at buf 2;
     Some (push_bit 16 (ucast a) + push_bit 8 (ucast b) + ucast c) }"

definition swHttp2_get_frame_length :: "sw_protocol \<Rightarrow> bytes \<Rightarrow> int option" where
  "swHttp2_get_frame_length pr buf =
     (if length buf < SW_HTTP2_FRAME_HEADER_SIZE then Some 0
      else do { l \<leftarrow> swHttp2_get_length buf; Some (sint (l + of_nat SW_HTTP2_FRAME_HEADER_SIZE :: u32)) })"

text \<open>The loop, which asks for a length and then for that many bytes in turn. What is left of an incomplete frame is
  not kept. The second component are the frames handed to \<open>onPackage\<close>.\<close>

function swHttp2_parse_frame ::
  "(sw_protocol \<Rightarrow> bytes \<Rightarrow> int option) \<Rightarrow> sw_protocol \<Rightarrow> bytes \<Rightarrow> (int \<times> bytes list) option" where
  "swHttp2_parse_frame get_package_length pr data =
     (if data = [] then Some (SW_OK, [])
      else do {
        package_length \<leftarrow> get_package_length pr data;
        if package_length < 0 then Some (SW_ERR, [])
        else if package_length = 0 then Some (SW_OK, [])
        else if int (length data) \<ge> package_length then do {
          (r, ps) \<leftarrow> swHttp2_parse_frame get_package_length pr (drop (nat package_length) data);
          Some (r, take (nat package_length) data # ps) }
        else Some (SW_OK, []) })"
  by pat_completeness auto
termination by (relation "measure (\<lambda>(_, _, d). length d)") auto

definition swHttp2_set_frame_header :: "bytes \<Rightarrow> nat \<Rightarrow> u8 \<Rightarrow> u32 \<Rightarrow> u8 \<Rightarrow> u32 \<Rightarrow> bytes option" where
  "swHttp2_set_frame_header buffer pos ty len flags stream_id =
     put_at buffer pos ([ucast (drop_bit 16 len), ucast (drop_bit 8 len), ucast len, ty, flags] @ le_bytes 4 (unat (ntohl stream_id)))"

definition set_option :: "bytes \<Rightarrow> nat \<Rightarrow> u16 \<Rightarrow> u32 \<Rightarrow> bytes option" where
  "set_option p pos opt val = do {
     p \<leftarrow> swHttp2_set_frame_header p pos SW_HTTP2_TYPE_SETTINGS (of_nat SW_HTTP2_SETTING_OPTION_SIZE) 0 0;
     p \<leftarrow> put_at p (pos + SW_HTTP2_FRAME_HEADER_SIZE) (le_bytes 2 (unat (ntohs opt)));
     put_at p (pos + SW_HTTP2_FRAME_HEADER_SIZE + 2) (le_bytes 4 (unat (ntohl val))) }"

text \<open>The bytes handed to \<open>swConnection_send\<close>; \<open>stack\<close> is the memory of the array before.\<close>

definition swHttp2_send_setting_frame :: "(nat \<Rightarrow> u8) \<Rightarrow> bytes option" where
  "swHttp2_send_setting_frame stack =
     (let sz = SW_HTTP2_FRAME_HEADER_SIZE + SW_HTTP2_SETTING_OPTION_SIZE in do {
        p \<leftarrow> set_option (map stack [0..<sz * 3]) 0 SW_HTTP2_SETTINGS_MAX_CONCURRENT_STREAMS SW_HTTP2_MAX_CONCURRENT_STREAMS;
        p \<leftarrow> set_option p sz SW_HTTP2_SETTINGS_INIT_WINDOW_SIZE SW_HTTP2_MAX_WINDOW;
        set_option p (2 * sz) SW_HTTP2_SETTINGS_MAX_FRAME_SIZE SW_HTTP2_MAX_FRAME_SIZE })"

section \<open>MQTT\<close>

definition SW_MQTT_MIN_LENGTH :: nat where "SW_MQTT_MIN_LENGTH = 2"

text \<open>\<open>data\<close> is the memory from the start of the package on; the loop does not look at the size received.\<close>

function mqtt_length_loop :: "bytes \<Rightarrow> nat \<Rightarrow> u32 \<Rightarrow> u32 \<Rightarrow> (u32 \<times> nat) option" where
  "mqtt_length_loop data count mul len =
     (if \<not> count + 1 < length data then None
      else do {
        byte \<leftarrow> byte_at data (count + 1);
        let len = len + ucast (byte AND 127) * mul;
        let mul = mul * 128;
        if byte AND 128 \<noteq> 0 then mqtt_length_loop data (count + 1) mul len else Some (len, count + 1) })"
  by pat_completeness auto
termination by (relation "measure (\<lambda>(d, c, _, _). length d - c)") auto

definition swMqtt_get_length :: "bytes \<Rightarrow> (u32 \<times> nat) option" where
  "swMqtt_get_length data = mqtt_length_loop data 0 1 0"

definition swMqtt_get_package_length :: "bytes \<Rightarrow> nat \<Rightarrow> int option" where
  "swMqtt_get_package_length data sz =
     (if sz < SW_MQTT_MIN_LENGTH then Some 0
      else do { (len, count) \<leftarrow> swMqtt_get_length data; Some (sint (len + of_nat count + 1)) })"

section \<open>Frames of HTTP/2\<close>

lemma header_length_value:
  assumes "n < 2 ^ 24"
  shows "push_bit 16 (ucast (ucast (drop_bit 16 (of_nat n :: u32)) :: u8)) + push_bit 8 (ucast (ucast (drop_bit 8 (of_nat n :: u32)) :: u8)) +
    ucast (ucast (of_nat n :: u32) :: u8) = (of_nat n :: u32)" (is "?a + ?b + ?c = ?n")
proof -
  have "unat ?n < 2 ^ 24" using assms by (simp add: unat_of_nat)
  then have nb: "bit ?n i \<Longrightarrow> i < 24" for i by (rule bit_small)
  have "?a + ?b = ?a OR ?b" by (rule disjunctive_add) (auto simp: bit_simps)
  moreover have "(?a OR ?b) + ?c = ?a OR ?b OR ?c"
    by (subst disjunctive_add) (auto simp: bit_simps or.assoc)
  moreover have "?a OR ?b OR ?c = ?n" 
  proof (rule bit_word_eqI)
    fix i assume "i < LENGTH(32)"
    then show "bit (?a OR ?b OR ?c) i = bit ?n i" using nb [of i] by (auto simp: bit_simps)
  qed
  ultimately show ?thesis by simp
qed

text \<open>A frame as the peer sends it.\<close>

definition http2_wire :: "u8 \<Rightarrow> u8 \<Rightarrow> u32 \<Rightarrow> bytes \<Rightarrow> bytes option" where
  "http2_wire ty flags stream_id payload =
     map_option (\<lambda>h. h @ payload) (swHttp2_set_frame_header (replicate 9 0) 0 ty (of_nat (length payload)) flags stream_id)"

lemma http2_wire_length:
  assumes "http2_wire ty flags stream_id payload = Some w" "length payload < 2 ^ 24"
  shows "swHttp2_get_frame_length pr w = Some (int (length w))" "length w = 9 + length payload"
proof -
  show len: "length w = 9 + length payload"
    using assms(1) by (auto simp: http2_wire_def swHttp2_set_frame_header_def put_at_def)
  have "swHttp2_get_length w = Some (of_nat (length payload))"
    using assms(1) header_length_value [OF assms(2)]
    by (auto simp: http2_wire_def swHttp2_set_frame_header_def put_at_def swHttp2_get_length_def byte_at_def)
  moreover have "sint (of_nat (length payload) + 9 :: u32) = int (length w)"
  proof -
    have "sint (of_nat (length payload + 9) :: u32) = int (length payload + 9)"
      using assms(2) by (simp add: signed_of_nat signed_take_bit_int_eq_self del: of_nat_add)
    then show ?thesis using len by simp
  qed
  ultimately show "swHttp2_get_frame_length pr w = Some (int (length w))"
    using len by (simp add: swHttp2_get_frame_length_def SW_HTTP2_FRAME_HEADER_SIZE_def)
qed

interpretation h2p: length_protocol "\<lambda>pr. hdr pr = SW_HTTP2_FRAME_HEADER_SIZE" swHttp2_get_frame_length
proof
  fix pr and d e :: bytes assume "hdr pr = SW_HTTP2_FRAME_HEADER_SIZE" "hdr pr \<le> length d"
  then have "9 \<le> length d" by (simp add: SW_HTTP2_FRAME_HEADER_SIZE_def)
  then show "swHttp2_get_frame_length pr (d @ e) = swHttp2_get_frame_length pr d"
    by (auto simp: swHttp2_get_frame_length_def SW_HTTP2_FRAME_HEADER_SIZE_def swHttp2_get_length_def byte_at_def nth_append)
qed (simp_all add: swHttp2_get_frame_length_def SW_HTTP2_FRAME_HEADER_SIZE_def)

declare swHttp2_parse_frame.simps [simp del]

text \<open>Whole packages are handed on one by one, whatever follows them.\<close>

context length_protocol
begin

lemma parse_all:
  assumes "valid pr" "\<forall>p\<in>set ps. plen pr p = Some (int (length p)) \<and> hdr pr \<le> length p"
    "plen pr rest = Some l" "0 \<le> l" "l = 0 \<or> int (length rest) < l"
  shows "swHttp2_parse_frame plen pr (concat ps @ rest) = Some (SW_OK, ps)"
  using assms(2)
proof (induction ps)
  case Nil
  then show ?case using assms(3-5) by (subst swHttp2_parse_frame.simps) auto
next
  case (Cons p ps)
  have p: "0 < length p" "plen pr (p @ concat ps @ rest) = Some (int (length p))"
    using Cons.prems hdr_pos [OF assms(1)] header_only [OF assms(1), of p "concat ps @ rest"] by auto
  then show ?case using Cons by (subst swHttp2_parse_frame.simps) auto
qed

end

text \<open>C38. HTTP/2: frames written with \<open>swHttp2_set_frame_header\<close> and received together in one piece, followed by less
  than a whole frame, are handed on as they were written.\<close>

theorem swHttp2_parse_frames:
  assumes "hdr pr = SW_HTTP2_FRAME_HEADER_SIZE"
    "\<forall>w\<in>set ws. \<exists>ty flags stream_id payload. http2_wire ty flags stream_id payload = Some w \<and> length payload < 2 ^ 24"
    "swHttp2_get_frame_length pr rest = Some l" "l = 0 \<or> int (length rest) < l"
  shows "swHttp2_parse_frame swHttp2_get_frame_length pr (concat ws @ rest) = Some (SW_OK, ws)"
proof (rule h2p.parse_all [OF assms(1) _ assms(3) _ assms(4)])
  show "\<forall>p\<in>set ws. swHttp2_get_frame_length pr p = Some (int (length p)) \<and> hdr pr \<le> length p"
  proof
    fix w assume "w \<in> set ws"
    then obtain ty flags stream_id payload where "http2_wire ty flags stream_id payload = Some w" "length payload < 2 ^ 24"
      using assms(2) by blast
    then show "swHttp2_get_frame_length pr w = Some (int (length w)) \<and> hdr pr \<le> length w"
      using http2_wire_length assms(1) by (simp add: SW_HTTP2_FRAME_HEADER_SIZE_def)
  qed
  show "0 \<le> l" using assms(4) by linarith
qed

theorem swHttp2_parse_frames_witness:
  "\<exists>w1 w2. http2_wire 0 1 3 [65, 66] = Some w1 \<and> http2_wire 4 0 0 [] = Some w2 \<and>
     swHttp2_parse_frame swHttp2_get_frame_length (ex_protocol\<lparr>pr_package_length_size := 9\<rparr>) (concat [w1, w2] @ [0, 0]) =
       Some (SW_OK, [w1, w2])"
proof -
  obtain w1 w2 where w: "http2_wire 0 1 3 [65, 66] = Some w1" "http2_wire 4 0 0 [] = Some w2"
    by (simp add: http2_wire_def swHttp2_set_frame_header_def put_at_def)
  have "length [65, 66 :: u8] < 2 ^ 24" "length ([] :: bytes) < 2 ^ 24" by simp_all
  with w have "\<forall>w\<in>set [w1, w2]. \<exists>ty flags stream_id payload. http2_wire ty flags stream_id payload = Some w \<and> length payload < 2 ^ 24"
    by (metis empty_iff empty_set set_ConsD)
  moreover have "hdr (ex_protocol\<lparr>pr_package_length_size := 9\<rparr>) = SW_HTTP2_FRAME_HEADER_SIZE"
    by (simp add: hdr_def ex_protocol_def SW_HTTP2_FRAME_HEADER_SIZE_def)
  moreover have "swHttp2_get_frame_length (ex_protocol\<lparr>pr_package_length_size := 9\<rparr>) [0, 0] = Some 0"
    by (simp add: swHttp2_get_frame_length_def SW_HTTP2_FRAME_HEADER_SIZE_def)
  ultimately show ?thesis
    using w swHttp2_parse_frames [of "ex_protocol\<lparr>pr_package_length_size := 9\<rparr>" "[w1, w2]" "[0, 0]" 0] by auto
qed

section \<open>Lengths of MQTT\<close>

text \<open>The encoding of the remaining length in the MQTT standard: seven bits a byte, the low ones first.\<close>

fun mqtt_encode :: "nat \<Rightarrow> bytes" where
  "mqtt_encode n = (if n < 128 then [of_nat n] else of_nat (n mod 128 + 128) # mqtt_encode (n div 128))"

declare mqtt_encode.simps [simp del]

lemma mqtt_byte:
  assumes "k < 256"
  shows "ucast (of_nat k AND 127 :: u8) = (of_nat (k mod 128) :: u32)" "((of_nat k :: u8) AND 128 \<noteq> 0) = (128 \<le> k)"
proof -
  have "(of_nat k AND 127 :: u8) = take_bit 7 (of_nat k)"
    using take_bit_eq_mask [of 7 "of_nat k :: u8"] by (simp add: mask_eq_exp_minus_1)
  moreover have "unat (take_bit 7 (of_nat k :: u8)) = take_bit 7 k" using assms by (simp add: unsigned_take_bit_eq unat_of_nat)
  ultimately have "unat (of_nat k AND 127 :: u8) = k mod 128" by (simp only: take_bit_eq_mod) simp
  then show "ucast (of_nat k AND 127 :: u8) = (of_nat (k mod 128) :: u32)"
    by (metis of_nat_unat)
  have "((of_nat k :: u8) AND 128 \<noteq> 0) = bit (of_nat k :: u8) 7"
    using and_exp_eq_0_iff_not_bit [of "of_nat k :: u8" 7] by simp
  also have "\<dots> = odd (k div 128)" by (simp add: bit_simps) (simp add: bit_iff_odd)
  also have "\<dots> = (128 \<le> k)"
  proof (cases "128 \<le> k")
    case True
    then have "k div 128 = 1" using assms by (simp add: div_nat_eqI)
    then show ?thesis using True by simp
  qed simp
  finally show "((of_nat k :: u8) AND 128 \<noteq> 0) = (128 \<le> k)" .
qed

declare mqtt_length_loop.simps [simp del]

lemma mqtt_loop_encode:
  "mqtt_length_loop (b # pre @ mqtt_encode n @ r) (length pre) (of_nat m) l =
     Some (l + of_nat (n * m), length pre + length (mqtt_encode n))"
proof (induction n arbitrary: pre m l rule: mqtt_encode.induct)
  case (1 n)
  let ?d = "b # pre @ mqtt_encode n @ r"
  show ?case
  proof (cases "n < 128")
    case True
    then have e: "mqtt_encode n = [of_nat n]" by (simp add: mqtt_encode.simps)
    have "byte_at ?d (length pre + 1) = Some (of_nat n)" using e by (simp add: byte_at_def nth_append)
    then show ?thesis using True e mqtt_byte [of n] by (subst mqtt_length_loop.simps) simp
  next
    case False
    define k where "k = n mod 128 + 128"
    have e: "mqtt_encode n = of_nat k # mqtt_encode (n div 128)" using False by (subst mqtt_encode.simps) (simp add: k_def)
    have k: "k < 256" "128 \<le> k" "k mod 128 = n mod 128" by (simp_all add: k_def)
    have "byte_at ?d (length pre + 1) = Some (of_nat k)" using e by (simp add: byte_at_def nth_append)
    then have "mqtt_length_loop ?d (length pre) (of_nat m) l =
        mqtt_length_loop ?d (length pre + 1) (of_nat (m * 128)) (l + of_nat (n mod 128 * m))"
      using k mqtt_byte [OF k(1)] e by (subst mqtt_length_loop.simps) (simp add: Let_def)
    also have "\<dots> = Some (l + of_nat (n mod 128 * m) + of_nat (n div 128 * (m * 128)), length pre + 1 + length (mqtt_encode (n div 128)))"
      using "1.IH" [OF False, of "pre @ [of_nat k]" "m * 128" "l + of_nat (n mod 128 * m)"] e by simp
    also have "l + of_nat (n mod 128 * m) + of_nat (n div 128 * (m * 128)) = l + of_nat (n * m)"
    proof -
      have "n mod 128 * m + n div 128 * (m * 128) = (n mod 128 + n div 128 * 128) * m" by (simp only: distrib_left distrib_right mult_ac)
      also have "\<dots> = n * m" by simp
      finally show ?thesis by (metis add.assoc of_nat_add)
    qed
    finally show ?thesis using e by simp
  qed
qed

text \<open>C39. The length of an MQTT package: for a package with any remaining length below 256 megabytes, encoded as the
  standard says, the first byte, the length bytes and the remaining bytes are counted.\<close>

theorem swMqtt_length_roundtrip:
  assumes "n < 128 ^ 4" "2 \<le> sz"
  shows "swMqtt_get_package_length (b # mqtt_encode n @ r) sz = Some (int (1 + length (mqtt_encode n) + n))"
proof -
  have "length (mqtt_encode n) \<le> 4"
  proof -
    have "n div 128 div 128 div 128 < 128" using assms(1) by (simp add: div_mult2_eq [symmetric] less_mult_imp_div_less)
    then show ?thesis
      by (subst mqtt_encode.simps, subst mqtt_encode.simps, subst mqtt_encode.simps, subst mqtt_encode.simps) simp
  qed
  then have small: "1 + length (mqtt_encode n) + n < 2 ^ 31" using assms(1) by simp
  have "swMqtt_get_length (b # mqtt_encode n @ r) = Some (of_nat n, length (mqtt_encode n))"
    using mqtt_loop_encode [of b "[]" n r 1 0] by (simp add: swMqtt_get_length_def)
  moreover have "of_nat n + of_nat (length (mqtt_encode n)) + 1 = (of_nat (1 + length (mqtt_encode n) + n) :: u32)" by simp
  moreover have "k < 2 ^ 31 \<Longrightarrow> sint (of_nat k :: u32) = int k" for k by (simp add: signed_of_nat signed_take_bit_int_eq_self)
  note this [OF small]
  ultimately show ?thesis using assms(2) by (simp add: swMqtt_get_package_length_def SW_MQTT_MIN_LENGTH_def add_ac)
qed

theorem swMqtt_length_roundtrip_witness:
  "swMqtt_get_package_length (0x30 # mqtt_encode 200 @ []) 3 = Some 203"
proof -
  have "length (mqtt_encode 200) = 2" by (subst mqtt_encode.simps, subst mqtt_encode.simps) simp
  then show ?thesis using swMqtt_length_roundtrip [of 200 3 "0x30" "[]"] by simp
qed

text \<open>A package whose length bytes have not all arrived is measured with what lies behind it in memory.\<close>

lemma mqtt_length_overrun: "swMqtt_get_package_length [0x30, 0x80] 2 = None"
  by (simp add: swMqtt_get_package_length_def SW_MQTT_MIN_LENGTH_def swMqtt_get_length_def mqtt_length_loop.simps byte_at_def)

end
