(* ===== verification/Spec2Isabelle.thy ===== *)
theory Spec2Isabelle
  imports Sw_Timer Sw_FixedPool Sw_RingBuffer Sw_MemoryGlobal Sw_Base64 Sw_Hash Sw_Base Sw_List Sw_RingQueue Sw_Array
    Sw_Utf8 Sw_Channel Sw_Reactor_Props Sw_Eof Sw_WebSocket Sw_Http2
begin

text \<open>
  A verification of the core of the Swoole server library (\<open>src/swoole\<close>), an event-driven network engine in
  C with bindings for PHP. All paths below are relative to \<open>src/swoole\<close>.

  \<^bold>\<open>The program.\<close> A reactor waits for events on descriptors and calls handlers. A readable connection is
  read by the protocol of its port, which cuts the stream into packages by a length field, by an end mark, or
  by the framing of WebSocket, HTTP/2 or MQTT; a package goes on to a worker. Output goes to the socket at
  once, or into the chunk buffer of the connection, which the reactor drains when the descriptor is writable.
  Timers are kept in a binary heap and served by the reactor. Under all of this lie containers (linked list,
  ring queue, paged array, strings, channel) and allocators (fixed slices, ring buffer, global pages).

  \<^bold>\<open>Conventions\<close> (\<open>Sw_Prelude\<close>). An address is a natural number and \<open>NULL\<close> is 0; objects behind pointers
  live in stores, partial maps from addresses to records. Bytes are 8-bit words, other machine integers are
  words or numbers with the wrap-around written out. \<open>None\<close> is a crash: an access outside a buffer or through an
  invalid pointer, a failed assertion, or a lock that is never released. Answers of the allocator and of the
  operating system are arguments. Return codes are \<open>SW_OK\<close> and \<open>SW_ERR\<close>. A record field has the name of the
  structure field with a prefix for the component.

  \<^bold>\<open>Theories and sources.\<close>

  \<^item> \<open>Sw_Prelude\<close>, \<open>Sw_Dll\<close>: buffers, words, encodings, stores and doubly linked lists in a store.
  \<^item> \<open>Sw_Interfaces\<close>: the contracts \<open>prio_queue\<close> (the timers rely on the heap), \<open>mem_pool\<close> and \<open>fifo_queue\<close>, each
    with the lemmas of its clients; the providers interpret them (\<open>sq\<close>, \<open>fpool\<close>, \<open>ringq\<close>, \<open>listq\<close>, \<open>chanq\<close>).
  \<^item> \<open>Sw_Heap\<close>: \<open>src/core/heap.c\<close>. Push, pop, removal and change of priority keep the heap order and the back
    pointers; pop returns an element of least priority.
  \<^item> \<open>Sw_Timer\<close>: \<open>src/network/Timer.c\<close>. \<open>swTimer_select\<close> ends, serves every timer that is due and no other.
  \<^item> \<open>Sw_FixedPool\<close>, \<open>Sw_RingBuffer\<close>, \<open>Sw_MemoryGlobal\<close>: \<open>src/memory/\<close>. Blocks handed out lie in the pool and do not
    overlap; the inputs on which the code crashes or deadlocks are theorems too.
  \<^item> \<open>Sw_Base64\<close>, \<open>Sw_Hash\<close>, \<open>Sw_Base\<close>, \<open>Sw_Utf8\<close>: \<open>src/protocol/Base64.c\<close>, \<open>include/hash.h\<close>, \<open>src/core/hashmap.c\<close> (the
    checksum), \<open>src/core/base.c\<close>, inline functions of \<open>include/swoole.h\<close>, \<open>src/core/string.c\<close>. Round trips, and
    equivalence of unrolled loops with their definitions.
  \<^item> \<open>Sw_List\<close>, \<open>Sw_RingQueue\<close>, \<open>Sw_Array\<close>, \<open>Sw_String\<close>, \<open>Sw_Channel\<close>: \<open>src/core/\<close>. Refinement of lists and
    queues.
  \<^item> \<open>Sw_Buffer\<close>, \<open>Sw_Connection\<close>: \<open>src/memory/Buffer.c\<close>, \<open>src/network/Connection.c\<close>. The chunks of output and
    their sending.
  \<^item> \<open>Sw_Events\<close>, \<open>Sw_Reactor\<close>, \<open>Sw_Reactor_Props\<close>: \<open>src/reactor/ReactorBase.c\<close> and the registration part of
    \<open>ReactorEpoll.c\<close>. The step relation \<open>out_step\<close> interleaves writes with answers of the socket: what reached
    the socket followed by what is buffered is always what was written, in order.
  \<^item> \<open>Sw_Protocol\<close>, \<open>Sw_Eof\<close>: \<open>src/protocol/Base.c\<close>. Whatever the pieces in which the stream arrives, the packages
    handed on are those sent. The contract \<open>length_protocol\<close> says what a length function owes the reader;
    the default length field and HTTP/2 interpret it (\<open>lenp\<close>, \<open>h2p\<close>).
  \<^item> \<open>Sw_WebSocket\<close>, \<open>Sw_Http2\<close>: \<open>src/protocol/WebSocket.c\<close>, \<open>Http2.c\<close>, \<open>Mqtt.c\<close> and
    \<open>swPort_websocket_onPackage\<close> of \<open>src/network/Port.c\<close>. Encoded frames are decoded to what was encoded.

  \<^bold>\<open>Loops.\<close> A loop over answers of the operating system recurses over the list of answers, and the end of the
  list is \<open>None\<close> (still waiting); theorems about it say how many answers are enough. \<open>swTimer_select_loop\<close> has
  fuel; its theorem gives a number of iterations that is enough, computed from the timers that are due. The
  other loops are total functions with a termination proof.

  \<^bold>\<open>Not modelled.\<close> Wrappers of system calls (sockets, pipes, signals, asynchronous file input, message queues,
  locks), logging, OpenSSL, the Aerospike client library and the glue to the PHP engine: their behaviour is
  that of code outside the sources. The waiting loops of the reactor back ends, the life cycle of the server
  processes and threads (\<open>Server.c\<close>, \<open>Worker.c\<close>, \<open>Manager.c\<close>, \<open>ReactorThread.c\<close>, the factories), clients, name
  resolution, the process pool, the HTTP request reader, the hash map over \<open>uthash\<close> and the red-black tree are
  not covered.
\<close>

end
